(* ===== verification/Prelude.thy ===== *)
theory Prelude
  imports Main "HOL-Library.Word" "HOL-Library.Signed_Division"
begin

text \<open>
  What the component theories share: names for the machine integer types, errors as sums,
  the decimal notation of numbers (the digit loops that several components write by hand), the
  contract of a pair of coding functions as the locale \<open>codec\<close>, and the collections of
  simplification rules that the components extend.

  C++ signed division and remainder truncate towards zero: they are \<open>sdiv\<close> and \<open>smod\<close> of
  \<^verbatim>\<open>HOL-Library.Signed_Division\<close>, and agree with \<open>div\<close> and \<open>mod\<close> on nonnegative operands.
\<close>

unbundle bit_operations_syntax

type_synonym u8 = "8 word"
type_synonym u32 = "32 word"
type_synonym u64 = "64 word"

named_theorems result_simps \<open>rewriting of computations that may raise\<close>
named_theorems digit_simps \<open>rules of the decimal notation\<close>

section \<open>Computations that may raise\<close>

text \<open>A throwing function has the type \<open>'e + 'a\<close>: \<open>Inl\<close> is the exception, \<open>Inr\<close> the value.\<close>

definition result_bind :: "'e + 'a \<Rightarrow> ('a \<Rightarrow> 'e + 'b) \<Rightarrow> 'e + 'b" where
  "result_bind r f = (case r of Inl e \<Rightarrow> Inl e | Inr a \<Rightarrow> f a)"

definition is_ok :: "'e + 'a \<Rightarrow> bool" where
  "is_ok r = (case r of Inl _ \<Rightarrow> False | Inr _ \<Rightarrow> True)"

lemma result_bind_Inr [simp, result_simps]: "result_bind (Inr a) f = f a"
  by (simp add: result_bind_def)

lemma result_bind_Inl [simp, result_simps]: "result_bind (Inl e) f = Inl e"
  by (simp add: result_bind_def)

lemma result_bind_eq_Inr [result_simps]:
  "result_bind r f = Inr b \<longleftrightarrow> (\<exists>a. r = Inr a \<and> f a = Inr b)"
  by (cases r) auto

lemma is_ok_simps [simp]: "is_ok (Inr a)" "\<not> is_ok (Inl e)"
  by (simp_all add: is_ok_def)

lemma is_ok_iff: "is_ok r \<longleftrightarrow> (\<exists>a. r = Inr a)"
  by (cases r) auto

section \<open>Truncating division on nonnegative operands\<close>

lemma sdiv_nonneg [simp]: "0 \<le> (a::int) \<Longrightarrow> 0 \<le> b \<Longrightarrow> a sdiv b = a div b"
  by (cases "a = 0 \<or> b = 0") (auto simp: signed_divide_int_def)

lemma smod_nonneg [simp]: "0 \<le> (a::int) \<Longrightarrow> 0 \<le> b \<Longrightarrow> a smod b = a mod b"
  by (cases "a = 0") (auto simp: signed_modulo_int_def)

section \<open>Counting up to a machine integer\<close>

lemma word_gap_less:
  fixes ch till :: "'a::len word"
  assumes "ch \<noteq> till"
  shows "unat (till - (ch + 1)) < unat (till - ch)"
proof -
  have "till - ch \<noteq> 0" using assms by simp
  then have "unat (till - ch - 1) = unat (till - ch) - 1" "0 < unat (till - ch)"
    by (simp_all add: unat_minus_one unat_gt_0)
  then show ?thesis by (simp add: diff_diff_eq [symmetric])
qed

section \<open>Decimal notation\<close>

text \<open>
  A digit is printed by adding the character \<^verbatim>\<open>'0'\<close> and read by subtracting it, as every digit
  loop of the sources does.
\<close>

definition digit_char :: "nat \<Rightarrow> char" where
  "digit_char d = char_of (d + 48)"

definition is_digit :: "char \<Rightarrow> bool" where
  "is_digit c \<longleftrightarrow> 48 \<le> (of_char c :: nat) \<and> (of_char c :: nat) < 58"

definition digit_val :: "char \<Rightarrow> nat" where
  "digit_val c = of_char c - 48"

text \<open>The value of a string of digits, most significant first.\<close>

definition digits_val :: "string \<Rightarrow> nat" where
  "digits_val cs = foldl (\<lambda>n c. n * 10 + digit_val c) 0 cs"

text \<open>The last \<open>w\<close> digits of a number, with leading zeros.\<close>

primrec pad_digits :: "nat \<Rightarrow> nat \<Rightarrow> string" where
  "pad_digits 0 n = []"
| "pad_digits (Suc w) n = pad_digits w (n div 10) @ [digit_char (n mod 10)]"

text \<open>The digits of a number without leading zeros; one digit for zero.\<close>

fun show_nat :: "nat \<Rightarrow> string" where
  "show_nat n = (if n < 10 then [digit_char n] else show_nat (n div 10) @ [digit_char (n mod 10)])"

declare show_nat.simps [simp del]

lemma digit_val_char [simp, digit_simps]: "d < 10 \<Longrightarrow> digit_val (digit_char d) = d"
  by (simp add: digit_val_def digit_char_def)

lemma is_digit_char [simp, digit_simps]: "d < 10 \<Longrightarrow> is_digit (digit_char d)"
  by (simp add: is_digit_def digit_char_def)

lemma digit_val_less [simp]: "is_digit c \<Longrightarrow> digit_val c < 10"
  by (auto simp: is_digit_def digit_val_def)

lemma digits_val_Nil [simp, digit_simps]: "digits_val [] = 0"
  by (simp add: digits_val_def)

lemma digits_val_snoc [simp, digit_simps]:
  "digits_val (cs @ [c]) = digits_val cs * 10 + digit_val c"
  by (simp add: digits_val_def)

lemma digits_val_Cons:
  "digits_val (c # cs) = digit_val c * 10 ^ length cs + digits_val cs"
proof (induction cs rule: rev_induct)
  case Nil
  show ?case using digits_val_snoc [of "[]" c] by simp
next
  case (snoc x xs)
  then show ?case using digits_val_snoc [of "c # xs" x] by (simp add: algebra_simps)
qed

lemma digits_val_append:
  "digits_val (xs @ ys) = digits_val xs * 10 ^ length ys + digits_val ys"
  by (induction xs) (simp_all add: digits_val_Cons algebra_simps power_add)

lemma digits_val_less: "\<forall>c\<in>set cs. is_digit c \<Longrightarrow> digits_val cs < 10 ^ length cs"
proof (induction cs rule: rev_induct)
  case Nil
  show ?case by simp
next
  case (snoc x xs)
  then have "digit_val x < 10" "digits_val xs < 10 ^ length xs" by simp_all
  then show ?case by simp
qed

lemma length_pad_digits [simp, digit_simps]: "length (pad_digits w n) = w"
  by (induction w arbitrary: n) auto

lemma pad_digits_eq_Nil [simp]: "pad_digits w n = [] \<longleftrightarrow> w = 0"
  using length_pad_digits [of w n] by (metis length_0_conv)

lemma pad_digits_digits [simp]: "c \<in> set (pad_digits w n) \<Longrightarrow> is_digit c"
  by (induction w arbitrary: n) auto

lemma digits_val_pad_digits [simp, digit_simps]: "digits_val (pad_digits w n) = n mod 10 ^ w"
proof (induction w arbitrary: n)
  case 0
  then show ?case by simp
next
  case (Suc w)
  have "n mod (10 * 10 ^ w) = 10 * (n div 10 mod 10 ^ w) + n mod 10"
    by (simp add: mod_mult2_eq)
  with Suc show ?case by simp
qed

lemma show_nat_digits [simp]: "c \<in> set (show_nat n) \<Longrightarrow> is_digit c"
proof (induction n rule: show_nat.induct)
  case (1 n)
  then show ?case
    by (subst (asm) (2) show_nat.simps) (auto split: if_splits)
qed

lemma digits_val_show_nat [simp, digit_simps]: "digits_val (show_nat n) = n"
proof (induction n rule: show_nat.induct)
  case (1 n)
  show ?case
  proof (cases "n < 10")
    case True
    then show ?thesis
      using digits_val_snoc [of "[]" "digit_char n"] by (simp add: show_nat.simps [of n])
  next
    case False
    with 1 show ?thesis by (simp add: show_nat.simps [of n])
  qed
qed

lemma show_nat_nonempty [simp]: "show_nat n \<noteq> []"
  by (simp add: show_nat.simps [of n])

section \<open>The contract of a coding\<close>

text \<open>
  A pair of functions that write a value and read it back. The values a writer accepts are given
  by \<open>valid\<close>; reading may fail.
\<close>

locale codec =
  fixes enc :: "'a \<Rightarrow> 'b" and dec :: "'b \<Rightarrow> 'a option" and valid :: "'a \<Rightarrow> bool"
  assumes dec_enc: "valid x \<Longrightarrow> dec (enc x) = Some x"
begin

lemma enc_eq_iff: "valid x \<Longrightarrow> valid y \<Longrightarrow> enc x = enc y \<longleftrightarrow> x = y"
  by (metis dec_enc option.inject)

lemma enc_inj_on: "inj_on enc {x. valid x}"
  by (rule inj_onI) (simp add: enc_eq_iff)

end

section \<open>Runs and refinement\<close>

text \<open>A run of a step relation, and the contract between a concrete and an abstract step relation.\<close>

inductive runs :: "('l \<Rightarrow> 's \<Rightarrow> 's \<Rightarrow> bool) \<Rightarrow> 's \<Rightarrow> 'l list \<Rightarrow> 's \<Rightarrow> bool" for step where
  runs_Nil: "runs step s [] s"
| runs_Cons: "step l s s' \<Longrightarrow> runs step s' ls s'' \<Longrightarrow> runs step s (l # ls) s''"

inductive_simps runs_simps [simp]: "runs step s [] s'" "runs step s (l # ls) s'"

locale simulation =
  fixes invar :: "'c \<Rightarrow> bool" and cstep :: "'l \<Rightarrow> 'c \<Rightarrow> 'c \<Rightarrow> bool"
    and abs :: "'c \<Rightarrow> 'a" and astep :: "'l \<Rightarrow> 'a \<Rightarrow> 'a \<Rightarrow> bool"
  assumes invar_step: "invar c \<Longrightarrow> cstep l c c' \<Longrightarrow> invar c'"
    and abs_step: "invar c \<Longrightarrow> cstep l c c' \<Longrightarrow> astep l (abs c) (abs c')"
begin

lemma run_invar: "runs cstep c ls c' \<Longrightarrow> invar c \<Longrightarrow> invar c'"
  by (induction rule: runs.induct) (auto dest: invar_step)

lemma run_refines: "runs cstep c ls c' \<Longrightarrow> invar c \<Longrightarrow> runs astep (abs c) ls (abs c')"
  by (induction rule: runs.induct) (auto dest: invar_step abs_step)

end

end
