(* ===== verification/Time_Arith.thy ===== *)
theory Time_Arith
  imports Prelude
begin

text \<open>
  \<^verbatim>\<open>Generics::Time\<close> (src/src/Generics/Time.hpp): time intervals of microsecond granularity, their
  arithmetic and comparisons, the printable form, the packed form, the value that is hashed, and
  the interval timers. The calendar is in \<^verbatim>\<open>Calendar\<close>, the formatted dates in \<^verbatim>\<open>Time_Format\<close>.

  Seconds and microseconds are mathematical integers: overflow of the 64-bit signed fields of the code
  is undefined behaviour, and the results are those of the code as long as they fit.
\<close>

named_theorems time_defs \<open>definitions of the time interval operations\<close>

section \<open>Time intervals\<close>

record timeval =
  tv_sec :: int
  tv_usec :: int

definition USEC_MAX :: int where
  "USEC_MAX = 1000000"

definition Time_mk :: "int \<Rightarrow> int \<Rightarrow> timeval" where
  "Time_mk time_sec usec = \<lparr>tv_sec = time_sec, tv_usec = usec\<rparr>"

definition Time_ZERO :: timeval where
  "Time_ZERO = Time_mk 0 0"

text \<open>The documented invariant: microseconds lie between zero and \<open>USEC_MAX\<close>.\<close>

definition Time_ok :: "timeval \<Rightarrow> bool" where
  "Time_ok t \<longleftrightarrow> 0 \<le> tv_usec t \<and> tv_usec t < USEC_MAX"

definition Time_microseconds :: "timeval \<Rightarrow> int" where
  "Time_microseconds t = tv_sec t * USEC_MAX + tv_usec t"

section \<open>Arithmetic\<close>

definition Time_neg :: "timeval \<Rightarrow> timeval" where
  "Time_neg tv =
     (if tv_usec tv \<noteq> 0 then Time_mk (- tv_sec tv - 1) (USEC_MAX - tv_usec tv)
      else Time_mk (- tv_sec tv) 0)"

definition Time_abs :: "timeval \<Rightarrow> timeval" where
  "Time_abs tv = (if tv_sec tv < 0 then Time_neg tv else tv)"

definition Time_add :: "timeval \<Rightarrow> timeval \<Rightarrow> timeval" where
  "Time_add tv1 tv2 =
     (if tv_usec tv1 + tv_usec tv2 \<ge> USEC_MAX
      then Time_mk (tv_sec tv1 + tv_sec tv2 + 1) (tv_usec tv1 + tv_usec tv2 - USEC_MAX)
      else Time_mk (tv_sec tv1 + tv_sec tv2) (tv_usec tv1 + tv_usec tv2))"

definition Time_add_sec :: "timeval \<Rightarrow> int \<Rightarrow> timeval" where
  "Time_add_sec tv time = Time_mk (tv_sec tv + time) (tv_usec tv)"

definition Time_sub :: "timeval \<Rightarrow> timeval \<Rightarrow> timeval" where
  "Time_sub tv1 tv2 =
     (if tv_usec tv1 < tv_usec tv2
      then Time_mk (tv_sec tv1 - tv_sec tv2 - 1) (USEC_MAX + tv_usec tv1 - tv_usec tv2)
      else Time_mk (tv_sec tv1 - tv_sec tv2) (tv_usec tv1 - tv_usec tv2))"

definition Time_sub_sec :: "timeval \<Rightarrow> int \<Rightarrow> timeval" where
  "Time_sub_sec tv time = Time_mk (tv_sec tv - time) (tv_usec tv)"

definition Helper_abs :: "int \<Rightarrow> int" where
  "Helper_abs value = (if value < 0 then - value else value)"

definition Helper_mul :: "timeval \<Rightarrow> int \<Rightarrow> timeval" where
  "Helper_mul tv multiplier =
     Time_mk (tv_sec tv * multiplier + tv_usec tv * multiplier sdiv USEC_MAX)
       (tv_usec tv * multiplier smod USEC_MAX)"

definition Helper_div :: "timeval \<Rightarrow> int \<Rightarrow> timeval" where
  "Helper_div tv divisor =
     Time_mk (tv_sec tv sdiv divisor)
       (((tv_sec tv - tv_sec tv sdiv divisor * divisor) * USEC_MAX + tv_usec tv) sdiv divisor)"

definition Time_mul :: "timeval \<Rightarrow> int \<Rightarrow> timeval" where
  "Time_mul tv multiplier =
     (if (tv_sec tv < 0) = (multiplier < 0)
      then Helper_mul (Time_abs tv) (Helper_abs multiplier)
      else Time_neg (Helper_mul (Time_abs tv) (Helper_abs multiplier)))"

text \<open>A zero divisor traps: there is no result.\<close>

definition Time_div :: "timeval \<Rightarrow> int \<Rightarrow> timeval option" where
  "Time_div tv divisor =
     (if divisor = 0 then None
      else if (tv_sec tv < 0) = (divisor < 0)
      then Some (Helper_div (Time_abs tv) (Helper_abs divisor))
      else Some (Time_neg (Helper_div (Time_abs tv) (Helper_abs divisor))))"

section \<open>Comparisons\<close>

definition Time_eq :: "timeval \<Rightarrow> timeval \<Rightarrow> bool" where
  "Time_eq tv1 tv2 \<longleftrightarrow> tv_sec tv1 = tv_sec tv2 \<and> tv_usec tv1 = tv_usec tv2"

definition Time_ne :: "timeval \<Rightarrow> timeval \<Rightarrow> bool" where
  "Time_ne tv1 tv2 \<longleftrightarrow> \<not> Time_eq tv1 tv2"

definition Time_lt :: "timeval \<Rightarrow> timeval \<Rightarrow> bool" where
  "Time_lt tv1 tv2 \<longleftrightarrow> tv_sec tv1 < tv_sec tv2 \<or>
     (tv_sec tv1 = tv_sec tv2 \<and> tv_usec tv1 < tv_usec tv2)"

definition Time_gt :: "timeval \<Rightarrow> timeval \<Rightarrow> bool" where
  "Time_gt tv1 tv2 \<longleftrightarrow> Time_lt tv2 tv1"

definition Time_le :: "timeval \<Rightarrow> timeval \<Rightarrow> bool" where
  "Time_le tv1 tv2 \<longleftrightarrow> \<not> Time_lt tv2 tv1"

definition Time_ge :: "timeval \<Rightarrow> timeval \<Rightarrow> bool" where
  "Time_ge tv1 tv2 \<longleftrightarrow> \<not> Time_lt tv1 tv2"

section \<open>Printable parts, packed form, hashed value\<close>

record Time_Print =
  sign :: int
  integer_part :: int
  fractional_part :: int

definition Time_print :: "timeval \<Rightarrow> Time_Print" where
  "Time_print t =
     (if tv_sec t > 0 then \<lparr>sign = 1, integer_part = tv_sec t, fractional_part = tv_usec t\<rparr>
      else if tv_sec t \<noteq> 0 then
        (if tv_usec t \<noteq> 0
         then \<lparr>sign = -1, integer_part = - tv_sec t - 1, fractional_part = USEC_MAX - tv_usec t\<rparr>
         else \<lparr>sign = -1, integer_part = - tv_sec t, fractional_part = 0\<rparr>)
      else if tv_usec t \<noteq> 0 then \<lparr>sign = 1, integer_part = 0, fractional_part = tv_usec t\<rparr>
      else \<lparr>sign = 0, integer_part = 0, fractional_part = 0\<rparr>)"

definition Time_set :: "int \<Rightarrow> int \<Rightarrow> timeval" where
  "Time_set time_sec usec = \<lparr>tv_sec = time_sec, tv_usec = usec\<rparr>"

text \<open>The buffer is read and written as two 32-bit signed integers.\<close>

definition Time_pack :: "timeval \<Rightarrow> u32 \<times> u32" where
  "Time_pack t = (word_of_int (tv_sec t), word_of_int (tv_usec t))"

definition Time_unpack :: "u32 \<times> u32 \<Rightarrow> timeval" where
  "Time_unpack buf = Time_set (sint (fst buf)) (sint (snd buf))"

definition Time_hash_value :: "timeval \<Rightarrow> u64" where
  "Time_hash_value key = push_bit 24 (word_of_int (tv_sec key)) OR word_of_int (tv_usec key)"

section \<open>Compound assignment\<close>

definition Time_invert_sign :: "timeval \<Rightarrow> timeval" where
  "Time_invert_sign t = Time_neg t"

definition Time_add_assign :: "timeval \<Rightarrow> timeval \<Rightarrow> timeval" where
  "Time_add_assign t time = Time_add t time"

definition Time_add_assign_sec :: "timeval \<Rightarrow> int \<Rightarrow> timeval" where
  "Time_add_assign_sec t time = t\<lparr>tv_sec := tv_sec t + time\<rparr>"

definition Time_sub_assign :: "timeval \<Rightarrow> timeval \<Rightarrow> timeval" where
  "Time_sub_assign t time = Time_sub t time"

definition Time_sub_assign_sec :: "timeval \<Rightarrow> int \<Rightarrow> timeval" where
  "Time_sub_assign_sec t time = t\<lparr>tv_sec := tv_sec t - time\<rparr>"

definition Time_mul_assign :: "timeval \<Rightarrow> int \<Rightarrow> timeval" where
  "Time_mul_assign t multiplier = Time_mul t multiplier"

definition Time_div_assign :: "timeval \<Rightarrow> int \<Rightarrow> timeval option" where
  "Time_div_assign t divisor = Time_div t divisor"

section \<open>Timers\<close>

text \<open>The clock is read once by each operation that reads it; its reading is an argument.\<close>

record GeneralTimer =
  started :: bool
  timer_start :: timeval
  timer_stop :: timeval

definition GeneralTimer_new :: GeneralTimer where
  "GeneralTimer_new = \<lparr>started = False, timer_start = Time_ZERO, timer_stop = Time_ZERO\<rparr>"

definition GeneralTimer_start :: "GeneralTimer \<Rightarrow> timeval \<Rightarrow> GeneralTimer" where
  "GeneralTimer_start r clock = r\<lparr>started := True, timer_start := clock\<rparr>"

definition GeneralTimer_stop :: "GeneralTimer \<Rightarrow> timeval \<Rightarrow> GeneralTimer" where
  "GeneralTimer_stop r clock =
     (if started r then r\<lparr>timer_stop := clock, started := False\<rparr> else r)"

definition GeneralTimer_elapsed_time :: "GeneralTimer \<Rightarrow> timeval" where
  "GeneralTimer_elapsed_time r = Time_sub (timer_stop r) (timer_start r)"

definition GeneralTimer_stop_set :: "GeneralTimer \<Rightarrow> timeval \<Rightarrow> GeneralTimer \<times> timeval" where
  "GeneralTimer_stop_set r clock =
     (let r' = GeneralTimer_stop r clock in (r', GeneralTimer_elapsed_time r'))"

definition GeneralTimer_stop_add :: "GeneralTimer \<Rightarrow> timeval \<Rightarrow> timeval \<Rightarrow> GeneralTimer \<times> timeval" where
  "GeneralTimer_stop_add r timeout clock =
     (let r' = GeneralTimer_stop r clock
      in (r', Time_add_assign timeout (GeneralTimer_elapsed_time r')))"

text \<open>
  \<^verbatim>\<open>TimeMeter\<close> starts its timer when it is constructed and writes the variable it refers to when
  it is destroyed: the model gives that variable's final value from the two clock readings.
\<close>

definition TimeMeter_run :: "bool \<Rightarrow> timeval \<Rightarrow> timeval \<Rightarrow> timeval \<Rightarrow> timeval" where
  "TimeMeter_run ADDITIVE time clock1 clock2 =
     (let r = GeneralTimer_start GeneralTimer_new clock1
      in if ADDITIVE then snd (GeneralTimer_stop_add r time clock2)
         else snd (GeneralTimer_stop_set r clock2))"

lemmas time_arith_defs [time_defs] =
  Time_mk_def Time_ZERO_def Time_ok_def Time_microseconds_def Time_neg_def Time_abs_def
  Time_add_def Time_add_sec_def Time_sub_def Time_sub_sec_def Time_set_def
  Time_invert_sign_def Time_add_assign_def Time_sub_assign_def


section \<open>Microseconds determine an interval\<close>

lemma Time_mk_sel [simp]: "tv_sec (Time_mk s u) = s" "tv_usec (Time_mk s u) = u"
  by (simp_all add: Time_mk_def)

lemma USEC_MAX_pos [simp]: "0 < USEC_MAX" "USEC_MAX \<noteq> 0" "0 \<le> USEC_MAX"
  by (simp_all add: USEC_MAX_def)

lemma Time_ok_mk [simp]: "Time_ok (Time_mk s u) \<longleftrightarrow> 0 \<le> u \<and> u < USEC_MAX"
  by (simp add: Time_ok_def)

lemma Time_microseconds_mk [simp]: "Time_microseconds (Time_mk s u) = s * USEC_MAX + u"
  by (simp add: Time_microseconds_def)

lemma Time_ok_ZERO [simp]: "Time_ok Time_ZERO" "Time_microseconds Time_ZERO = 0"
  by (simp_all add: Time_ZERO_def)

lemma Time_parts:
  assumes "Time_ok t"
  shows "tv_sec t = Time_microseconds t div USEC_MAX" "tv_usec t = Time_microseconds t mod USEC_MAX"
  using assms by (simp_all add: Time_ok_def Time_microseconds_def)

lemma Time_microseconds_inj:
  "Time_ok a \<Longrightarrow> Time_ok b \<Longrightarrow> Time_microseconds a = Time_microseconds b \<longleftrightarrow> a = b"
  by (metis Time_parts timeval.equality unit.exhaust)

lemma Time_lt_iff:
  assumes "Time_ok a" "Time_ok b"
  shows "Time_lt a b \<longleftrightarrow> Time_microseconds a < Time_microseconds b"
proof -
  have "Time_microseconds a < Time_microseconds b" if "tv_sec a < tv_sec b"
  proof -
    from that have "(tv_sec a + 1) * USEC_MAX \<le> tv_sec b * USEC_MAX" by simp
    with assms show ?thesis
      by (simp add: Time_ok_def Time_microseconds_def distrib_right)
  qed
  moreover have "Time_microseconds b < Time_microseconds a" if "tv_sec b < tv_sec a"
  proof -
    from that have "(tv_sec b + 1) * USEC_MAX \<le> tv_sec a * USEC_MAX" by simp
    with assms show ?thesis
      by (simp add: Time_ok_def Time_microseconds_def distrib_right)
  qed
  ultimately show ?thesis
    by (cases "tv_sec a" "tv_sec b" rule: linorder_cases)
      (auto simp: Time_lt_def Time_microseconds_def)
qed

lemma Time_neg_ok [simp]: "Time_ok t \<Longrightarrow> Time_ok (Time_neg t)"
  by (auto simp: Time_neg_def Time_ok_def)

lemma Time_neg_microseconds [simp]: "Time_microseconds (Time_neg t) = - Time_microseconds t"
  by (simp add: Time_neg_def Time_microseconds_def algebra_simps)

lemma Time_add_ok [simp]: "Time_ok a \<Longrightarrow> Time_ok b \<Longrightarrow> Time_ok (Time_add a b)"
  by (auto simp: Time_add_def Time_ok_def)

lemma Time_add_microseconds [simp]:
  "Time_microseconds (Time_add a b) = Time_microseconds a + Time_microseconds b"
  by (simp add: Time_add_def Time_microseconds_def algebra_simps)

lemma Time_sub_ok [simp]: "Time_ok a \<Longrightarrow> Time_ok b \<Longrightarrow> Time_ok (Time_sub a b)"
  by (auto simp: Time_sub_def Time_ok_def)

lemma Time_sub_microseconds [simp]:
  "Time_microseconds (Time_sub a b) = Time_microseconds a - Time_microseconds b"
  by (simp add: Time_sub_def Time_microseconds_def algebra_simps)

lemma Time_microseconds_neg_iff: "Time_ok t \<Longrightarrow> Time_microseconds t < 0 \<longleftrightarrow> tv_sec t < 0"
  by (metis Time_parts(1) USEC_MAX_pos(1) pos_imp_zdiv_neg_iff)

lemma Time_abs_props [simp]:
  assumes "Time_ok t"
  shows "Time_ok (Time_abs t)" "0 \<le> tv_sec (Time_abs t)"
    "Time_microseconds (Time_abs t) = \<bar>Time_microseconds t\<bar>"
proof -
  show "Time_microseconds (Time_abs t) = \<bar>Time_microseconds t\<bar>"
    using Time_microseconds_neg_iff [OF assms] by (simp add: Time_abs_def abs_if)
qed (use assms in \<open>auto simp: Time_abs_def Time_neg_def Time_ok_def\<close>)

lemma Helper_abs_eq [simp]: "Helper_abs n = \<bar>n\<bar>"
  by (simp add: Helper_abs_def)

lemma Helper_mul_props:
  assumes "Time_ok t" "0 \<le> m"
  shows "Time_ok (Helper_mul t m)" "Time_microseconds (Helper_mul t m) = Time_microseconds t * m"
proof -
  have u: "0 \<le> tv_usec t * m" using assms by (simp add: Time_ok_def)
  show "Time_ok (Helper_mul t m)"
    by (simp add: Helper_mul_def u)
  have "tv_usec t * m div USEC_MAX * USEC_MAX + tv_usec t * m mod USEC_MAX = tv_usec t * m"
    by (rule div_mult_mod_eq)
  moreover have "Time_microseconds (Helper_mul t m) = tv_sec t * m * USEC_MAX +
      (tv_usec t * m div USEC_MAX * USEC_MAX + tv_usec t * m mod USEC_MAX)"
    by (simp add: Helper_mul_def u distrib_right)
  ultimately show "Time_microseconds (Helper_mul t m) = Time_microseconds t * m"
    by (simp add: Time_microseconds_def algebra_simps)
qed

lemma div_carry:
  fixes s u d M :: int
  assumes "0 < d"
  shows "(s * M + u) div d = s div d * M + ((s - s div d * d) * M + u) div d"
proof -
  have "s * M + u = ((s - s div d * d) * M + u) + s div d * M * d"
    by (simp add: algebra_simps)
  then have "(s * M + u) div d = (((s - s div d * d) * M + u) + s div d * M * d) div d"
    by (rule arg_cong)
  with assms show ?thesis by simp
qed

lemma int_div_less:
  fixes a b d :: int
  assumes "0 < d" "a < b * d"
  shows "a div d < b"
proof (rule ccontr)
  assume "\<not> a div d < b"
  then have "b * d \<le> a div d * d" using assms(1) by simp
  also have "\<dots> \<le> a" using assms(1) by (simp flip: minus_mod_eq_div_mult)
  finally show False using assms(2) by simp
qed

lemma Helper_div_props:
  assumes ok: "Time_ok t" and s: "0 \<le> tv_sec t" and d: "0 < d"
  shows "Time_ok (Helper_div t d)" "Time_microseconds (Helper_div t d) = Time_microseconds t div d"
proof -
  let ?r = "tv_sec t - tv_sec t div d * d"
  have r: "0 \<le> ?r" "?r \<le> d - 1"
    using d by (simp_all add: minus_div_mult_eq_mod)
  have n: "0 \<le> ?r * USEC_MAX + tv_usec t"
    using r ok by (simp add: Time_ok_def)
  have "?r * USEC_MAX + tv_usec t < d * USEC_MAX"
  proof -
    have "?r * USEC_MAX \<le> (d - 1) * USEC_MAX" using r by simp
    with ok show ?thesis by (simp add: Time_ok_def left_diff_distrib)
  qed
  then have "(?r * USEC_MAX + tv_usec t) div d < USEC_MAX"
    by (intro int_div_less [OF d]) (simp add: mult.commute)
  with n d s show "Time_ok (Helper_div t d)"
    by (simp add: Helper_div_def pos_imp_zdiv_nonneg_iff)
  show "Time_microseconds (Helper_div t d) = Time_microseconds t div d"
    using div_carry [OF d, of "tv_sec t" USEC_MAX "tv_usec t"] n d s
    by (simp add: Helper_div_def Time_microseconds_def)
qed

lemma Time_mul_ok [simp]: "Time_ok t \<Longrightarrow> Time_ok (Time_mul t m)"
  by (simp add: Time_mul_def Helper_mul_props)

lemma Time_mul_microseconds [simp]:
  assumes "Time_ok t"
  shows "Time_microseconds (Time_mul t m) = Time_microseconds t * m"
  using assms Time_microseconds_neg_iff [OF assms]
  by (auto simp: Time_mul_def Helper_mul_props abs_if)

lemma Time_div_props:
  assumes "Time_ok t" "d \<noteq> 0"
  obtains q where "Time_div t d = Some q" "Time_ok q"
    "Time_microseconds q = Time_microseconds t sdiv d"
  using assms Time_microseconds_neg_iff [OF assms(1)]
  by (cases "d < 0"; cases "tv_sec t < 0")
    (auto simp: Time_div_def Helper_div_props signed_divide_int_def sgn_if abs_if)


section \<open>The order of intervals as the library's linear order\<close>

lemma timeval_eq_iff:
  "a = b \<longleftrightarrow> tv_sec a = tv_sec b \<and> tv_usec a = tv_usec b \<and> timeval.more a = timeval.more b"
  for a b :: "'a timeval_scheme"
  by (cases a; cases b) simp

instantiation timeval_ext :: (linorder) linorder
begin

definition less_timeval_ext :: "'a timeval_scheme \<Rightarrow> 'a timeval_scheme \<Rightarrow> bool" where
  "less_timeval_ext a b \<longleftrightarrow>
     tv_sec a < tv_sec b \<or>
     tv_sec a = tv_sec b \<and>
       (tv_usec a < tv_usec b \<or> tv_usec a = tv_usec b \<and> timeval.more a < timeval.more b)"

definition less_eq_timeval_ext :: "'a timeval_scheme \<Rightarrow> 'a timeval_scheme \<Rightarrow> bool" where
  "less_eq_timeval_ext a b \<longleftrightarrow> a < b \<or> a = b"

instance
  by standard
    (auto simp: less_timeval_ext_def less_eq_timeval_ext_def timeval_eq_iff)

end

lemma Time_lt_less: "Time_lt a b \<longleftrightarrow> a < b" for a b :: timeval
  by (auto simp: Time_lt_def less_timeval_ext_def)

lemma Time_le_less_eq: "Time_le a b \<longleftrightarrow> a \<le> b" for a b :: timeval
  by (simp add: Time_le_def Time_lt_less not_less)

lemma Time_eq_eq: "Time_eq a b \<longleftrightarrow> a = b" for a b :: timeval
  by (auto simp: Time_eq_def)

section \<open>What the clients of a clock rely on\<close>

text \<open>
  The containers and schedulers use intervals through their sum and their order only. An entry
  last touched at \<open>a\<close> is outdated at \<open>now\<close> when \<open>a + timeout\<close> does not exceed \<open>now\<close>.
\<close>

locale time_measure =
  fixes lt :: "'t \<Rightarrow> 't \<Rightarrow> bool" and add :: "'t \<Rightarrow> 't \<Rightarrow> 't"
    and usec_of :: "'t \<Rightarrow> int" and ok :: "'t \<Rightarrow> bool"
  assumes lt_iff: "ok a \<Longrightarrow> ok b \<Longrightarrow> lt a b \<longleftrightarrow> usec_of a < usec_of b"
    and add_ok: "ok a \<Longrightarrow> ok b \<Longrightarrow> ok (add a b)"
    and add_usec: "usec_of (add a b) = usec_of a + usec_of b"
begin

lemma outdated_older:
  assumes "ok a" "ok b" "ok t" "ok now" and "\<not> lt b a" and "\<not> lt now (add b t)"
  shows "\<not> lt now (add a t)"
  using assms by (simp add: lt_iff add_ok add_usec)

lemma outdated_later:
  assumes "ok a" "ok t" "ok now" "ok now'" and "\<not> lt now' now" and "\<not> lt now (add a t)"
  shows "\<not> lt now' (add a t)"
  using assms by (simp add: lt_iff add_ok add_usec)

end

interpretation tm: time_measure Time_lt Time_add Time_microseconds Time_ok
  by unfold_locales (simp_all add: Time_lt_iff)

lemma sint_of_int_32: "sint (word_of_int x :: u32) = x \<longleftrightarrow> - (2 ^ 31) \<le> x \<and> x < 2 ^ 31"
  by (simp add: sint_sbintrunc' signed_take_bit_int_eq_self_iff)

lemma Time_unpack_pack:
  assumes "Time_ok t"
  shows "Time_unpack (Time_pack t) = t \<longleftrightarrow> - (2 ^ 31) \<le> tv_sec t \<and> tv_sec t < 2 ^ 31"
proof -
  have "sint (word_of_int (tv_usec t) :: u32) = tv_usec t"
    using assms by (simp add: sint_of_int_32 Time_ok_def USEC_MAX_def)
  then have "Time_unpack (Time_pack t) = t \<longleftrightarrow> sint (word_of_int (tv_sec t) :: u32) = tv_sec t"
    by (cases t) (simp add: Time_unpack_def Time_pack_def Time_set_def)
  then show ?thesis by (simp add: sint_of_int_32)
qed

interpretation time_pack: codec Time_pack "\<lambda>b. Some (Time_unpack b)"
  "\<lambda>t. Time_ok t \<and> - (2 ^ 31) \<le> tv_sec t \<and> tv_sec t < 2 ^ 31"
  by unfold_locales (simp add: Time_unpack_pack)

text \<open>The hashed value holds the microseconds in its low 24 bits and the seconds above them.\<close>

lemma Time_hash_value_uint:
  assumes "Time_ok t" "0 \<le> tv_sec t" "tv_sec t < 2 ^ 40"
  shows "uint (Time_hash_value t) = tv_sec t * 2 ^ 24 + tv_usec t"
proof -
  have u: "take_bit 64 (tv_usec t) = tv_usec t" and u24: "take_bit 24 (tv_usec t) = tv_usec t"
    using assms(1) by (simp_all add: Time_ok_def USEC_MAX_def take_bit_int_eq_self)
  have "tv_sec t * 2 ^ 24 < 2 ^ 64" using assms(3) by simp
  then have s: "take_bit 64 (push_bit 24 (tv_sec t)) = push_bit 24 (tv_sec t)"
    using assms(2) by (intro take_bit_int_eq_self) (simp_all add: push_bit_eq_mult)
  have "uint (Time_hash_value t) = take_bit 64 (push_bit 24 (tv_sec t)) OR take_bit 64 (tv_usec t)"
    by (simp add: Time_hash_value_def unsigned_or_eq unsigned_of_int flip: of_int_push_bit)
  also have "\<dots> = push_bit 24 (tv_sec t) OR take_bit 24 (tv_usec t)"
    by (simp only: s u u24)
  also have "\<dots> = push_bit 24 (tv_sec t) + take_bit 24 (tv_usec t)"
    by (rule disjunctive_add [symmetric]) (auto simp: bit_simps)
  finally show ?thesis
    by (simp only: u24 push_bit_eq_mult)
qed

section \<open>Properties\<close>



text \<open>
  The comparison operators order normalised intervals exactly as their microseconds, and
  equality of the fields is equality of the intervals.
\<close>

theorem Time_compare_microseconds:
  assumes "Time_ok a" "Time_ok b"
  shows "(Time_lt a b \<longleftrightarrow> Time_microseconds a < Time_microseconds b)
    \<and> (Time_gt a b \<longleftrightarrow> Time_microseconds a > Time_microseconds b)
    \<and> (Time_le a b \<longleftrightarrow> Time_microseconds a \<le> Time_microseconds b)
    \<and> (Time_ge a b \<longleftrightarrow> Time_microseconds a \<ge> Time_microseconds b)
    \<and> (Time_eq a b \<longleftrightarrow> Time_microseconds a = Time_microseconds b)
    \<and> (Time_ne a b \<longleftrightarrow> Time_microseconds a \<noteq> Time_microseconds b)"
  using assms Time_microseconds_inj [OF assms]
  by (auto simp: Time_lt_iff Time_gt_def Time_le_def Time_ge_def Time_ne_def Time_eq_eq)

theorem Time_compare_microseconds_witness:
  "Time_lt (Time_mk (-1) 999999) (Time_mk 0 0) \<and> \<not> Time_ge (Time_mk (-1) 999999) (Time_mk 0 0)"
  using Time_compare_microseconds [of "Time_mk (-1) 999999" "Time_mk 0 0"]
  by (simp add: USEC_MAX_def)

text \<open>
  (C21) The packed form keeps exactly the intervals whose seconds fit 32 bits: unpacking a packed
  normalised interval gives it back if and only if its seconds lie between \<open>-2^31\<close> and \<open>2^31 - 1\<close>;
  the later dates are lost.
\<close>

theorem Time_pack_roundtrip:
  assumes "Time_ok t"
  shows "Time_unpack (Time_pack t) = t \<longleftrightarrow> - (2 ^ 31) \<le> tv_sec t \<and> tv_sec t < 2 ^ 31"
  using assms by (rule Time_unpack_pack)

theorem Time_pack_roundtrip_witness:
  "Time_unpack (Time_pack (Time_mk (-5) 250000)) = Time_mk (-5) 250000 \<and>
   Time_unpack (Time_pack (Time_mk 2147483648 0)) \<noteq> Time_mk 2147483648 0"
  using Time_pack_roundtrip [of "Time_mk (-5) 250000"] Time_pack_roundtrip [of "Time_mk 2147483648 0"]
  by (simp add: USEC_MAX_def)

text \<open>
  The printable parts of a normalised interval are a sign, a nonnegative number of seconds and
  a fraction below one second, and the signed parts add up to the interval.
\<close>

theorem Time_print_parts:
  assumes "Time_ok t"
  shows "sign (Time_print t) = sgn (Time_microseconds t)
    \<and> 0 \<le> integer_part (Time_print t)
    \<and> 0 \<le> fractional_part (Time_print t) \<and> fractional_part (Time_print t) < USEC_MAX
    \<and> sign (Time_print t) * (integer_part (Time_print t) * USEC_MAX + fractional_part (Time_print t))
        = Time_microseconds t"
proof -
  have "0 < Time_microseconds t" if "0 < tv_sec t"
    using that assms by (simp add: Time_microseconds_def Time_ok_def add_pos_nonneg)
  moreover have "Time_microseconds t < 0" if "tv_sec t < 0"
    using that Time_microseconds_neg_iff [OF assms] by simp
  ultimately show ?thesis
    using assms
    by (cases "tv_sec t" "0::int" rule: linorder_cases)
      (auto simp: Time_print_def Time_ok_def Time_microseconds_def left_diff_distrib)
qed

theorem Time_print_parts_witness:
  "sign (Time_print (Time_mk (-1) 500000)) = -1 \<and> integer_part (Time_print (Time_mk (-1) 500000)) = 0
   \<and> fractional_part (Time_print (Time_mk (-1) 500000)) = 500000"
  using Time_print_parts [of "Time_mk (-1) 500000"]
  by (simp add: USEC_MAX_def Time_print_def)

text \<open>
  Two different normalised intervals of less than \<open>2^40\<close> nonnegative seconds give different
  values to the hash function.
\<close>

theorem Time_hash_value_inj:
  assumes "Time_ok a" "0 \<le> tv_sec a" "tv_sec a < 2 ^ 40"
    and "Time_ok b" "0 \<le> tv_sec b" "tv_sec b < 2 ^ 40"
    and "Time_hash_value a = Time_hash_value b"
  shows "a = b"
proof -
  have parts: "(tv_sec t * 2 ^ 24 + tv_usec t) div 2 ^ 24 = tv_sec t"
    "(tv_sec t * 2 ^ 24 + tv_usec t) mod 2 ^ 24 = tv_usec t" if "Time_ok t" for t
    using that by (simp_all add: Time_ok_def USEC_MAX_def)
  have "tv_sec a * 2 ^ 24 + tv_usec a = tv_sec b * 2 ^ 24 + tv_usec b"
    using assms by (metis Time_hash_value_uint)
  then have "tv_sec a = tv_sec b \<and> tv_usec a = tv_usec b"
    using parts [OF assms(1)] parts [OF assms(4)] by metis
  then show ?thesis by (simp add: timeval_eq_iff)
qed

theorem Time_hash_value_inj_witness:
  "Time_hash_value (Time_mk 7 1) = Time_hash_value (Time_mk 7 1) \<and> Time_mk 7 1 = Time_mk (3 + 4) 1"
  using Time_hash_value_inj [of "Time_mk 7 1" "Time_mk (3 + 4) 1"] by (simp add: USEC_MAX_def)

text \<open>
  A scoped meter leaves in its variable the interval between its two clock readings, or adds
  that interval to the variable when it is additive.
\<close>

theorem TimeMeter_run_measures:
  "Time_microseconds (TimeMeter_run ADDITIVE time clock1 clock2) =
     (if ADDITIVE then Time_microseconds time else 0) +
     (Time_microseconds clock2 - Time_microseconds clock1)"
  by (simp add: TimeMeter_run_def GeneralTimer_start_def GeneralTimer_new_def
      GeneralTimer_stop_add_def GeneralTimer_stop_set_def GeneralTimer_stop_def
      GeneralTimer_elapsed_time_def Time_add_assign_def Let_def)

end
