(* ===== verification/Calendar.thy ===== *)
theory Calendar
  imports Time_Arith
begin

text \<open>
  The calendar of src/src/Generics/Time.cpp and \<^verbatim>\<open>ExtendedTime\<close> of Time.hpp: conversion between
  seconds since 1970 and divided time, normalisation, and the date and time parts of a divided time.

  The C library's \<^verbatim>\<open>mktime\<close> and \<^verbatim>\<open>localtime_r\<close> depend on the time zone database: they are the
  parameters \<open>mktime\<close> (seconds and the normalised fields, or failure) and \<open>localtime\<close>.
\<close>

named_theorems calendar_defs \<open>definitions of the calendar\<close>

section \<open>Divided time\<close>

record tm =
  tm_sec :: int
  tm_min :: int
  tm_hour :: int
  tm_mday :: int
  tm_mon :: int
  tm_year :: int
  tm_wday :: int
  tm_yday :: int
  tm_isdst :: int
  tm_gmtoff :: int

definition tm_zero :: tm where
  "tm_zero = \<lparr>tm_sec = 0, tm_min = 0, tm_hour = 0, tm_mday = 0, tm_mon = 0, tm_year = 0,
     tm_wday = 0, tm_yday = 0, tm_isdst = 0, tm_gmtoff = 0\<rparr>"

text \<open>Days before each month, in a common year and in a leap year.\<close>

definition DAYS :: "bool \<Rightarrow> int list" where
  "DAYS leap =
     (if leap then [0, 31, 60, 91, 121, 152, 182, 213, 244, 274, 305, 335]
      else [0, 31, 59, 90, 120, 151, 181, 212, 243, 273, 304, 334])"

text \<open>A month outside the table is an out of range read: no result.\<close>

definition gm_to_time :: "tm \<Rightarrow> int option" where
  "gm_to_time et =
     (let YEARS = tm_year et - 70 in
      if 0 \<le> tm_mon et \<and> tm_mon et < 12 then
        Some ((YEARS * 365 + (YEARS + 1) sdiv 4 + DAYS (YEARS AND 3 = 2) ! nat (tm_mon et)
               + tm_mday et - 1) * 86400
              + tm_hour et * 3600 + tm_min et * 60 + tm_sec et)
      else None)"

text \<open>\<^verbatim>\<open>std::lower_bound\<close> on a sorted range: how many elements precede the first not below \<open>v\<close>.\<close>

definition lower_bound :: "int list \<Rightarrow> int \<Rightarrow> nat" where
  "lower_bound xs v = length (takeWhile (\<lambda>x. x < v) xs)"

text \<open>The date fields from the number of whole days.\<close>

definition days_to_date :: "int \<Rightarrow> tm \<Rightarrow> tm" where
  "days_to_date time et =
     (let wday = (time + 4) smod 7;
          years = time sdiv (4 * 365 + 1) * 4;
          time = time smod (4 * 365 + 1);
          (years, time, leap) =
            (if time \<ge> 365 then
               if time \<ge> 365 * 2 then
                 if time \<ge> 365 * 3 + 1 then (years + 3, time - (365 * 3 + 1), False)
                 else (years + 2, time - 365 * 2, True)
               else (years + 1, time - 365, False)
             else (years, time, False));
          CDAYS = DAYS leap;
          MONTH = lower_bound (tl CDAYS) (time + 1)
      in et\<lparr>tm_wday := wday, tm_year := years + 70, tm_yday := time, tm_mon := int MONTH,
           tm_mday := time + 1 - CDAYS ! MONTH\<rparr>)"

definition time_to_gm :: "int \<Rightarrow> tm" where
  "time_to_gm time =
     (let sec = time smod 60; time = time sdiv 60;
          min = time smod 60; time = time sdiv 60;
          hour = time smod 24; time = time sdiv 24
      in days_to_date time (tm_zero\<lparr>tm_sec := sec, tm_min := min, tm_hour := hour\<rparr>))"

definition Time_compare :: "tm \<Rightarrow> tm \<Rightarrow> int" where
  "Time_compare t1 t2 =
     (let diff = tm_year t1 - tm_year t2;
          diff = (if diff = 0 then tm_mon t1 - tm_mon t2 else diff);
          diff = (if diff = 0 then tm_mday t1 - tm_mday t2 else diff);
          diff = (if diff = 0 then tm_hour t1 - tm_hour t2 else diff);
          diff = (if diff = 0 then tm_min t1 - tm_min t2 else diff);
          diff = (if diff = 0 then tm_sec t1 - tm_sec t2 else diff)
      in diff)"

section \<open>Extended time\<close>

datatype TimeZone = TZ_GMT | TZ_LOCAL

record ExtendedTime = tm +
  tm_usec :: int
  timezone :: TimeZone

datatype time_error = InvalidArgument | TimeException

definition tm_extend :: "tm \<Rightarrow> int \<Rightarrow> TimeZone \<Rightarrow> ExtendedTime" where
  "tm_extend time usec tz = tm.extend time \<lparr>tm_usec = usec, timezone = tz\<rparr>"

definition ExtendedTime_of_sec ::
    "(int \<Rightarrow> tm option) \<Rightarrow> int \<Rightarrow> int \<Rightarrow> TimeZone \<Rightarrow> time_error + ExtendedTime" where
  "ExtendedTime_of_sec localtime sec usec tz =
     (case tz of
        TZ_GMT \<Rightarrow> Inr (tm_extend (time_to_gm sec) usec tz)
      | TZ_LOCAL \<Rightarrow> (case localtime sec of None \<Rightarrow> Inl TimeException
                                       | Some et \<Rightarrow> Inr (tm_extend et usec tz)))"

text \<open>An uninitialised field of the code is arbitrary; only the fields that are set are read.\<close>

definition ExtendedTime_of_parts ::
    "int \<Rightarrow> int \<Rightarrow> int \<Rightarrow> int \<Rightarrow> int \<Rightarrow> int \<Rightarrow> int \<Rightarrow> ExtendedTime option" where
  "ExtendedTime_of_parts year month day hour minute sec usec =
     map_option (\<lambda>t. tm_extend (time_to_gm t) usec TZ_GMT)
       (gm_to_time (tm_zero\<lparr>tm_year := year - 1900, tm_mon := month - 1, tm_mday := day,
          tm_hour := hour, tm_min := minute, tm_sec := sec\<rparr>))"

definition ExtendedTime_to_Time :: "(tm \<Rightarrow> (int \<times> tm) option) \<Rightarrow> ExtendedTime \<Rightarrow> timeval option" where
  "ExtendedTime_to_Time mktime t =
     (case timezone t of
        TZ_LOCAL \<Rightarrow> Some (Time_mk (case mktime (tm.truncate t) of None \<Rightarrow> -1 | Some (sec, _) \<Rightarrow> sec) (tm_usec t))
      | TZ_GMT \<Rightarrow> map_option (\<lambda>sec. Time_mk sec (tm_usec t)) (gm_to_time (tm.truncate t)))"

text \<open>
  A local time whose seconds are \<open>-1\<close> is reported as a failure, since \<^verbatim>\<open>mktime\<close> returns \<open>-1\<close> then.
  The outer option is the out of range month.
\<close>

definition ExtendedTime_normalize ::
    "(tm \<Rightarrow> (int \<times> tm) option) \<Rightarrow> ExtendedTime \<Rightarrow> (time_error + ExtendedTime) option" where
  "ExtendedTime_normalize mktime t =
     (case timezone t of
        TZ_GMT \<Rightarrow>
          map_option (\<lambda>sec. Inr (tm_extend (time_to_gm sec) (tm_usec t) TZ_GMT)) (gm_to_time (tm.truncate t))
      | TZ_LOCAL \<Rightarrow>
          (case mktime (tm.truncate t) of
             None \<Rightarrow> Some (Inl TimeException)
           | Some (res, et) \<Rightarrow>
               if res = -1 then Some (Inl TimeException)
               else Some (Inr (tm_extend et (tm_usec t) TZ_LOCAL))))"

definition ExtendedTime_get_time :: "ExtendedTime \<Rightarrow> ExtendedTime" where
  "ExtendedTime_get_time t = t\<lparr>tm_mday := 0, tm_mon := 0, tm_wday := 0, tm_yday := 0, tm_year := 0\<rparr>"

definition ExtendedTime_set_time :: "ExtendedTime \<Rightarrow> ExtendedTime \<Rightarrow> ExtendedTime" where
  "ExtendedTime_set_time t time =
     t\<lparr>tm_hour := tm_hour time, tm_min := tm_min time, tm_sec := tm_sec time, tm_usec := tm_usec time\<rparr>"

definition ExtendedTime_get_date :: "ExtendedTime \<Rightarrow> ExtendedTime" where
  "ExtendedTime_get_date t = t\<lparr>tm_hour := 0, tm_min := 0, tm_sec := 0, tm_usec := 0\<rparr>"

definition ExtendedTime_set_date :: "ExtendedTime \<Rightarrow> ExtendedTime \<Rightarrow> ExtendedTime" where
  "ExtendedTime_set_date t time =
     t\<lparr>tm_mday := tm_mday time, tm_mon := tm_mon time, tm_year := tm_year time\<rparr>"

definition Time_get_gm_time :: "timeval \<Rightarrow> ExtendedTime" where
  "Time_get_gm_time t = tm_extend (time_to_gm (tv_sec t)) (tv_usec t) TZ_GMT"

definition Time_get_time :: "(int \<Rightarrow> tm option) \<Rightarrow> timeval \<Rightarrow> TimeZone \<Rightarrow> time_error + ExtendedTime" where
  "Time_get_time localtime t tz = ExtendedTime_of_sec localtime (tv_sec t) (tv_usec t) tz"


section \<open>Years and months of the calendar\<close>

text \<open>
  The calendar the code implements, described independently of its loops: years are counted from
  1970, every fourth is a leap year, the first one being 1972.
\<close>

definition leap_year :: "int \<Rightarrow> bool" where
  "leap_year Y \<longleftrightarrow> Y mod 4 = 2"

definition year_length :: "int \<Rightarrow> int" where
  "year_length Y = (if leap_year Y then 366 else 365)"

definition year_start :: "int \<Rightarrow> int" where
  "year_start Y = Y * 365 + (Y + 1) div 4"

definition month_length :: "bool \<Rightarrow> int \<Rightarrow> int" where
  "month_length leap m = [31, if leap then 29 else 28, 31, 30, 31, 30, 31, 31, 30, 31, 30, 31] ! nat m"

definition tm_ok :: "'a tm_scheme \<Rightarrow> bool" where
  "tm_ok et \<longleftrightarrow> 70 \<le> tm_year et \<and> 0 \<le> tm_mon et \<and> tm_mon et < 12
     \<and> 1 \<le> tm_mday et \<and> tm_mday et \<le> month_length (leap_year (tm_year et - 70)) (tm_mon et)
     \<and> 0 \<le> tm_hour et \<and> tm_hour et < 24 \<and> 0 \<le> tm_min et \<and> tm_min et < 60
     \<and> 0 \<le> tm_sec et \<and> tm_sec et < 60"

lemma leap_year_mask: "Y AND 3 = 2 \<longleftrightarrow> leap_year Y"
proof -
  have "Y AND 3 = Y mod 4"
    using take_bit_eq_mask [of 2 Y] by (simp add: take_bit_eq_mod mask_eq_exp_minus_1)
  then show ?thesis by (simp add: leap_year_def)
qed

lemma year_start_Suc: "year_start (Y + 1) = year_start Y + year_length Y"
  by (simp add: year_start_def year_length_def leap_year_def) presburger

lemma year_length_pos: "0 < year_length Y"
  by (simp add: year_length_def)

lemma year_start_mono:
  assumes "Y < Z"
  shows "year_start Y + year_length Y \<le> year_start Z"
  using assms
proof (induction Z rule: int_gr_induct)
  case base
  then show ?case by (simp add: year_start_Suc)
next
  case (step Z)
  then show ?case using year_length_pos [of Z] by (simp add: year_start_Suc)
qed

text \<open>A day belongs to one year only.\<close>

lemma year_of_day_unique:
  assumes "year_start Y + y = year_start Z + z"
    and "0 \<le> y" "y < year_length Y" "0 \<le> z" "z < year_length Z"
  shows "Y = Z \<and> y = z"
  using assms year_start_mono [of Y Z] year_start_mono [of Z Y]
  by (cases Y Z rule: linorder_cases) auto

text \<open>The day of the year determines month and day, through the search in the table.\<close>

lemma month_search:
  assumes "0 \<le> y" "y < (if leap then 366 else 365)"
  defines "m \<equiv> lower_bound (tl (DAYS leap)) (y + 1)"
  shows "m < 12" "DAYS leap ! m \<le> y" "y + 1 - DAYS leap ! m \<le> month_length leap (int m)"
  using assms(1,2) unfolding m_def
  by (cases leap; simp add: DAYS_def lower_bound_def month_length_def)+

lemma lower_bound_eqI:
  assumes "\<And>x. x \<in> set (take m xs) \<Longrightarrow> x < v" and "m < length xs \<Longrightarrow> v \<le> xs ! m" and "m \<le> length xs"
  shows "lower_bound xs v = m"
proof -
  have "takeWhile (\<lambda>x. x < v) (take m xs @ drop m xs) = take m xs @ takeWhile (\<lambda>x. x < v) (drop m xs)"
    using assms(1) by (intro takeWhile_append2)
  also have "takeWhile (\<lambda>x. x < v) (drop m xs) = []"
    using assms(2) by (cases "m < length xs") (auto simp: takeWhile_eq_Nil_iff hd_drop_conv_nth)
  finally show ?thesis using assms(3) by (simp add: lower_bound_def)
qed

lemma month_table:
  "list_all (\<lambda>k. list_all (\<lambda>leap.
      list_all (\<lambda>x. x \<le> DAYS leap ! k) (take k (tl (DAYS leap))) \<and>
      (k < 11 \<longrightarrow> DAYS leap ! k + month_length leap (int k) = tl (DAYS leap) ! k)) [True, False]) [0..<12]"
  by code_simp

lemma month_search_unique:
  assumes "0 \<le> m" "m < 12" "1 \<le> d" "d \<le> month_length leap m"
  shows "int (lower_bound (tl (DAYS leap)) (DAYS leap ! nat m + d)) = m"
proof -
  obtain k where m: "m = int k" and k: "k < 12"
    using assms(1,2) by (metis nonneg_int_cases of_nat_less_numeral_iff)
  have "\<forall>x\<in>set (take k (tl (DAYS leap))). x \<le> DAYS leap ! k"
    "k < 11 \<Longrightarrow> DAYS leap ! k + month_length leap (int k) = tl (DAYS leap) ! k"
    using month_table k by (cases leap; simp add: list_all_iff; fail)+
  then have "lower_bound (tl (DAYS leap)) (DAYS leap ! k + d) = k"
    using assms(3,4) k by (intro lower_bound_eqI) (fastforce simp: m DAYS_def)+
  then show ?thesis by (simp add: m)
qed

section \<open>Conversion of seconds to divided time\<close>

text \<open>The date fields, with the place of the day in the four-year cycle named.\<close>

lemma days_to_date_cycle:
  assumes "d sdiv 1461 = q" "d smod 1461 = n"
    and "k = (if n < 365 then 0 else if n < 730 then 1 else if n < 1096 then 2 else 3)"
    and "y = n - (k * 365 + (k + 1) div 4)"
  shows "tm_year (days_to_date d et) = q * 4 + k + 70" "tm_yday (days_to_date d et) = y"
    "tm_mon (days_to_date d et) = int (lower_bound (tl (DAYS (k = 2))) (y + 1))"
    "tm_mday (days_to_date d et) = y + 1 - DAYS (k = 2) ! lower_bound (tl (DAYS (k = 2))) (y + 1)"
proof -
  consider "n < 365" | "365 \<le> n" "n < 730" | "730 \<le> n" "n < 1096" | "1096 \<le> n" by linarith
  then have "tm_year (days_to_date d et) = q * 4 + k + 70 \<and> tm_yday (days_to_date d et) = y
    \<and> tm_mon (days_to_date d et) = int (lower_bound (tl (DAYS (k = 2))) (y + 1))
    \<and> tm_mday (days_to_date d et) = y + 1 - DAYS (k = 2) ! lower_bound (tl (DAYS (k = 2))) (y + 1)"
    using assms by cases (simp_all add: days_to_date_def Let_def)
  then show "tm_year (days_to_date d et) = q * 4 + k + 70" "tm_yday (days_to_date d et) = y"
    "tm_mon (days_to_date d et) = int (lower_bound (tl (DAYS (k = 2))) (y + 1))"
    "tm_mday (days_to_date d et) = y + 1 - DAYS (k = 2) ! lower_bound (tl (DAYS (k = 2))) (y + 1)"
    by blast+
qed

lemma days_to_date_frame:
  "tm_sec (days_to_date d et) = tm_sec et" "tm_min (days_to_date d et) = tm_min et"
  "tm_hour (days_to_date d et) = tm_hour et"
  "tm_wday (days_to_date d et) = (d + 4) smod 7"
  by (simp_all add: days_to_date_def Let_def case_prod_beta)

lemma time_to_gm_split:
  assumes "0 \<le> t"
  shows "time_to_gm t = days_to_date (t div 60 div 60 div 24)
    (tm_zero\<lparr>tm_sec := t mod 60, tm_min := t div 60 mod 60, tm_hour := t div 60 div 60 mod 24\<rparr>)"
  using assms by (simp add: time_to_gm_def Let_def)

lemma time_to_gm_sel:
  assumes "0 \<le> t"
  shows "tm_sec (time_to_gm t) = t mod 60" "tm_min (time_to_gm t) = t div 60 mod 60"
    "tm_hour (time_to_gm t) = t div 60 div 60 mod 24"
    "tm_wday (time_to_gm t) = (t div 60 div 60 div 24 + 4) mod 7"
  using assms by (simp_all add: time_to_gm_split days_to_date_frame)

lemma clock_seconds:
  fixes h m s :: int
  shows "60 * 1440 = (86400 :: int)" "60 * (60 * h + m) + s = h * 3600 + m * 60 + s"
  by simp_all

lemma whole_days: "t div 60 div 60 div 24 = t div (86400 :: int)"
  using zdiv_zmult2_eq [of 60 t 60] zdiv_zmult2_eq [of 24 t 3600] by simp

lemma time_to_gm_clock:
  assumes "0 \<le> t"
  shows "tm_hour (time_to_gm t) * 3600 + tm_min (time_to_gm t) * 60 + tm_sec (time_to_gm t) = t mod 86400"
    "0 \<le> tm_hour (time_to_gm t)" "tm_hour (time_to_gm t) < 24"
    "0 \<le> tm_min (time_to_gm t)" "tm_min (time_to_gm t) < 60"
    "0 \<le> tm_sec (time_to_gm t)" "tm_sec (time_to_gm t) < 60"
    "tm_wday (time_to_gm t) = (t div 86400 + 4) mod 7"
proof -
  let ?h = "t div 60 div 60 mod 24" and ?m = "t div 60 mod 60" and ?s = "t mod 60"
  have "t mod (60 * 1440) = 60 * (t div 60 mod (60 * 24)) + ?s"
    by (subst zmod_zmult2_eq) simp_all
  also have "t div 60 mod (60 * 24) = 60 * ?h + ?m"
    by (rule zmod_zmult2_eq) simp
  finally have "t mod 86400 = ?h * 3600 + ?m * 60 + ?s"
    by (simp only: clock_seconds)
  then show "tm_hour (time_to_gm t) * 3600 + tm_min (time_to_gm t) * 60 + tm_sec (time_to_gm t) = t mod 86400"
    by (simp only: time_to_gm_sel [OF assms])
  show "tm_wday (time_to_gm t) = (t div 86400 + 4) mod 7"
    by (simp only: time_to_gm_sel [OF assms] whole_days)
qed (simp_all add: time_to_gm_sel [OF assms])

lemma time_to_gm_date:
  assumes "0 \<le> t"
  obtains Y y where "0 \<le> Y" "0 \<le> y" "y < year_length Y" "t div 86400 = year_start Y + y"
    "tm_year (time_to_gm t) = Y + 70" "tm_yday (time_to_gm t) = y"
    "tm_mon (time_to_gm t) = int (lower_bound (tl (DAYS (leap_year Y))) (y + 1))"
    "tm_mday (time_to_gm t) = y + 1 - DAYS (leap_year Y) ! lower_bound (tl (DAYS (leap_year Y))) (y + 1)"
proof -
  obtain d where d: "t div 60 div 60 div 24 = d" by blast
  have d86400: "t div 86400 = d" using d by (simp only: whole_days)
  have d0: "0 \<le> d" using assms d by auto
  obtain q n where q: "d div 1461 = q" and n: "d mod 1461 = n" by blast
  have dq: "d = q * 1461 + n" "0 \<le> n" "n < 1461" "0 \<le> q"
    using d0 q n by auto
  define k where "k = (if n < 365 then 0 else if n < 730 then 1 else if n < 1096 then 2 else 3 :: int)"
  define y where "y = n - (k * 365 + (k + 1) div 4)"
  define Y where "Y = q * 4 + k"
  have "d sdiv 1461 = q" "d smod 1461 = n" using d0 q n by simp_all
  note fields = days_to_date_cycle [OF this k_def y_def]
  have leap: "leap_year Y \<longleftrightarrow> k = 2" by (simp add: leap_year_def Y_def k_def)
  have "(Y + 1) div 4 = q + (k + 1) div 4" by (simp add: Y_def)
  then have "t div 86400 = year_start Y + y"
    by (simp add: d86400 dq(1) year_start_def y_def Y_def)
  moreover have "0 \<le> Y" using dq by (simp add: Y_def k_def)
  moreover have "0 \<le> y" "y < year_length Y"
    using dq(2,3) by (auto simp: y_def year_length_def leap k_def)
  ultimately show thesis
    using fields by (intro that [of Y y]) (simp_all add: time_to_gm_split assms d leap flip: Y_def)
qed

lemma time_to_gm_ok:
  assumes "0 \<le> t"
  shows "tm_ok (time_to_gm t)"
proof -
  obtain Y y where *: "0 \<le> Y" "0 \<le> y" "y < year_length Y" "t div 86400 = year_start Y + y"
    "tm_year (time_to_gm t) = Y + 70" "tm_yday (time_to_gm t) = y"
    "tm_mon (time_to_gm t) = int (lower_bound (tl (DAYS (leap_year Y))) (y + 1))"
    "tm_mday (time_to_gm t) = y + 1 - DAYS (leap_year Y) ! lower_bound (tl (DAYS (leap_year Y))) (y + 1)"
    using time_to_gm_date [OF assms] by blast
  show ?thesis
    using * time_to_gm_clock [OF assms] month_search [of y "leap_year Y"]
    by (simp add: tm_ok_def year_length_def)
qed

lemma gm_to_time_ok:
  assumes "tm_ok et"
  shows "gm_to_time et = Some ((year_start (tm_year et - 70)
      + (DAYS (leap_year (tm_year et - 70)) ! nat (tm_mon et) + tm_mday et - 1)) * 86400
    + (tm_hour et * 3600 + tm_min et * 60 + tm_sec et))"
  using assms by (simp add: gm_to_time_def tm_ok_def Let_def leap_year_mask year_start_def)

lemma gm_to_time_of_time_to_gm:
  assumes "0 \<le> t"
  shows "gm_to_time (time_to_gm t) = Some t"
proof -
  obtain Y y where *: "0 \<le> Y" "0 \<le> y" "y < year_length Y" "t div 86400 = year_start Y + y"
    "tm_year (time_to_gm t) = Y + 70" "tm_yday (time_to_gm t) = y"
    "tm_mon (time_to_gm t) = int (lower_bound (tl (DAYS (leap_year Y))) (y + 1))"
    "tm_mday (time_to_gm t) = y + 1 - DAYS (leap_year Y) ! lower_bound (tl (DAYS (leap_year Y))) (y + 1)"
    using time_to_gm_date [OF assms] by blast
  have "gm_to_time (time_to_gm t) = Some (t div 86400 * 86400 + t mod 86400)"
    using * time_to_gm_clock [OF assms] by (simp add: gm_to_time_ok [OF time_to_gm_ok [OF assms]])
  then show ?thesis by (simp only: div_mult_mod_eq)
qed

lemma month_offset_bound:
  assumes "0 \<le> m" "m < 12" "1 \<le> d" "d \<le> month_length leap m"
  shows "0 \<le> DAYS leap ! nat m + d - 1" "DAYS leap ! nat m + d - 1 < (if leap then 366 else 365)"
proof -
  obtain k where m: "m = int k" and k: "k < 12"
    using assms(1,2) by (metis nonneg_int_cases of_nat_less_numeral_iff)
  have "list_all (\<lambda>k. list_all (\<lambda>leap. 0 \<le> DAYS leap ! k
      \<and> DAYS leap ! k + month_length leap (int k) \<le> (if leap then 366 else 365)) [True, False]) [0..<12]"
    by code_simp
  then have "0 \<le> DAYS leap ! k" "DAYS leap ! k + month_length leap (int k) \<le> (if leap then 366 else 365)"
    using k by (cases leap; simp add: list_all_iff)+
  with assms(3,4) show "0 \<le> DAYS leap ! nat m + d - 1"
    "DAYS leap ! nat m + d - 1 < (if leap then 366 else 365)"
    by (simp_all add: m)
qed

lemma year_start_nonneg: "0 \<le> Y \<Longrightarrow> 0 \<le> year_start Y"
  by (simp add: year_start_def)

lemma seconds_in_day:
  fixes n s :: int
  assumes "0 \<le> s" "s < 86400"
  shows "(n * 86400 + s) div 86400 = n" "(n * 86400 + s) mod 86400 = s"
  using assms by simp_all

lemma radix_unique:
  fixes q r q' r' b :: int
  assumes "q * b + r = q' * b + r'" "0 \<le> r" "r < b" "0 \<le> r'" "r' < b"
  shows "q = q' \<and> r = r'"
proof -
  have "(q * b + r) div b = q" "(q' * b + r') div b = q'" using assms(2-5) by simp_all
  with assms(1) show ?thesis by simp
qed

lemma clock_unique:
  fixes h m s h' m' s' :: int
  assumes "h * 3600 + m * 60 + s = h' * 3600 + m' * 60 + s'"
    "0 \<le> m" "m < 60" "0 \<le> m'" "m' < 60" "0 \<le> s" "s < 60" "0 \<le> s'" "s' < 60"
  shows "h = h' \<and> m = m' \<and> s = s'"
  using assms radix_unique [of "h * 60 + m" 60 s "h' * 60 + m'" s']
    radix_unique [of h 60 m h' m'] by simp

text \<open>Every valid date and time comes back from its seconds.\<close>

lemma time_to_gm_of_gm_to_time:
  assumes ok: "tm_ok et" and t: "gm_to_time et = Some t"
  shows "0 \<le> t \<and> tm_year (time_to_gm t) = tm_year et \<and> tm_mon (time_to_gm t) = tm_mon et
    \<and> tm_mday (time_to_gm t) = tm_mday et \<and> tm_hour (time_to_gm t) = tm_hour et
    \<and> tm_min (time_to_gm t) = tm_min et \<and> tm_sec (time_to_gm t) = tm_sec et"
proof -
  define Z where "Z = tm_year et - 70"
  define z where "z = DAYS (leap_year Z) ! nat (tm_mon et) + tm_mday et - 1"
  define s where "s = tm_hour et * 3600 + tm_min et * 60 + tm_sec et"
  have mon: "0 \<le> tm_mon et" "tm_mon et < 12" "1 \<le> tm_mday et"
    "tm_mday et \<le> month_length (leap_year Z) (tm_mon et)" "0 \<le> Z"
    using ok by (simp_all add: tm_ok_def Z_def)
  have s: "0 \<le> s" "s < 86400" using ok by (simp_all add: tm_ok_def s_def)
  have teq: "t = (year_start Z + z) * 86400 + s"
    using t gm_to_time_ok [OF ok] by (simp add: Z_def z_def s_def add_ac)
  have z: "0 \<le> z" "z < year_length Z"
    using month_offset_bound [OF mon(1-4)] by (simp_all add: z_def year_length_def)
  have t0: "0 \<le> t" using teq s z year_start_nonneg [OF mon(5)] by simp
  obtain Y y where *: "0 \<le> Y" "0 \<le> y" "y < year_length Y" "t div 86400 = year_start Y + y"
    "tm_year (time_to_gm t) = Y + 70"
    "tm_mon (time_to_gm t) = int (lower_bound (tl (DAYS (leap_year Y))) (y + 1))"
    "tm_mday (time_to_gm t) = y + 1 - DAYS (leap_year Y) ! lower_bound (tl (DAYS (leap_year Y))) (y + 1)"
    using time_to_gm_date [OF t0] by blast
  have days: "t div 86400 = year_start Z + z" "t mod 86400 = s"
    unfolding teq by (simp_all only: seconds_in_day [OF s])
  have "Y = Z \<and> y = z"
    using * z days(1) by (intro year_of_day_unique) simp_all
  moreover have search: "lower_bound (tl (DAYS (leap_year Z))) (z + 1) = nat (tm_mon et)"
    using month_search_unique [OF mon(1-4)] mon(1) by (simp add: z_def)
  ultimately have "tm_year (time_to_gm t) = tm_year et" "tm_mon (time_to_gm t) = tm_mon et"
    "tm_mday (time_to_gm t) = tm_mday et"
    using * search mon(1) by (simp_all add: z_def Z_def)
  moreover have "tm_hour (time_to_gm t) = tm_hour et \<and> tm_min (time_to_gm t) = tm_min et
    \<and> tm_sec (time_to_gm t) = tm_sec et"
    using time_to_gm_clock [OF t0] ok
    by (intro clock_unique) (simp_all add: days(2) s_def tm_ok_def)
  ultimately show ?thesis using t0 by blast
qed

section \<open>The order of dates\<close>

definition day_number :: "tm \<Rightarrow> int" where
  "day_number et = year_start (tm_year et - 70)
     + (DAYS (leap_year (tm_year et - 70)) ! nat (tm_mon et) + tm_mday et - 1)"

definition clock_number :: "tm \<Rightarrow> int" where
  "clock_number et = tm_hour et * 3600 + tm_min et * 60 + tm_sec et"

lemma gm_to_time_numbers:
  "tm_ok et \<Longrightarrow> gm_to_time et = Some (day_number et * 86400 + clock_number et)"
  by (simp add: gm_to_time_ok day_number_def clock_number_def)

lemma clock_number_bounds:
  "tm_ok et \<Longrightarrow> 0 \<le> clock_number et \<and> clock_number et < 86400"
  by (simp add: tm_ok_def clock_number_def)

lemma month_order:
  assumes "0 \<le> m" "m < m'" "m' < 12"
  shows "DAYS leap ! nat m + month_length leap m \<le> DAYS leap ! nat m'"
proof -
  define k k' where "k = nat m" and "k' = nat m'"
  with assms have m: "m = int k" "m' = int k'" and k: "k < k'" "k' < 12" by auto
  have "list_all (\<lambda>leap. list_all (\<lambda>k'. list_all (\<lambda>k.
      DAYS leap ! k + month_length leap (int k) \<le> DAYS leap ! k') [0..<k']) [0..<12]) [True, False]"
    by code_simp
  then show ?thesis using k by (cases leap) (simp_all add: list_all_iff m)
qed

lemma day_number_less:
  assumes a: "tm_ok a" and b: "tm_ok b"
    and less: "tm_year a < tm_year b \<or> tm_year a = tm_year b \<and>
      (tm_mon a < tm_mon b \<or> tm_mon a = tm_mon b \<and> tm_mday a < tm_mday b)"
  shows "day_number a < day_number b"
proof (cases "tm_year a < tm_year b")
  case True
  then have "year_start (tm_year a - 70) + year_length (tm_year a - 70) \<le> year_start (tm_year b - 70)"
    by (intro year_start_mono) simp
  moreover have "DAYS (leap_year (tm_year a - 70)) ! nat (tm_mon a) + tm_mday a - 1 < year_length (tm_year a - 70)"
    unfolding year_length_def using a by (intro month_offset_bound) (simp_all add: tm_ok_def)
  moreover have "0 \<le> DAYS (leap_year (tm_year b - 70)) ! nat (tm_mon b) + tm_mday b - 1"
    using b by (intro month_offset_bound) (simp_all add: tm_ok_def)
  ultimately show ?thesis by (simp add: day_number_def)
next
  case False
  with less have year: "tm_year a = tm_year b" by simp
  show ?thesis
  proof (cases "tm_mon a < tm_mon b")
    case True
    then show ?thesis
      using month_order [of "tm_mon a" "tm_mon b" "leap_year (tm_year b - 70)"] a b
      by (simp add: day_number_def tm_ok_def year)
  next
    case False
    with less year show ?thesis by (simp add: day_number_def)
  qed
qed

lemma Time_compare_swap: "Time_compare b a = - Time_compare a b"
  by (simp add: Time_compare_def Let_def)

lemma Time_compare_negative:
  assumes a: "tm_ok a" and b: "tm_ok b" and less: "Time_compare a b < 0"
  shows "the (gm_to_time a) < the (gm_to_time b)"
proof (cases "tm_year a = tm_year b \<and> tm_mon a = tm_mon b \<and> tm_mday a = tm_mday b")
  case True
  then have "day_number a = day_number b" by (simp add: day_number_def)
  moreover have "clock_number a < clock_number b"
    using True less a b by (simp add: Time_compare_def Let_def clock_number_def tm_ok_def split: if_splits)
  ultimately show ?thesis using a b by (simp add: gm_to_time_numbers)
next
  case False
  then have "day_number a < day_number b"
    using less a b by (intro day_number_less) (auto simp: Time_compare_def Let_def split: if_splits)
  then show ?thesis
    using clock_number_bounds [OF a] clock_number_bounds [OF b] a b by (simp add: gm_to_time_numbers)
qed

lemma Time_compare_zero:
  "Time_compare a b = 0 \<Longrightarrow> gm_to_time a = gm_to_time b"
  by (simp add: Time_compare_def Let_def gm_to_time_def split: if_splits)

section \<open>The Gregorian calendar\<close>

text \<open>Years here are full years; days are counted from 1 January of year 1.\<close>

definition greg_leap :: "int \<Rightarrow> bool" where
  "greg_leap y \<longleftrightarrow> y mod 4 = 0 \<and> (y mod 100 \<noteq> 0 \<or> y mod 400 = 0)"

definition greg_day :: "int \<Rightarrow> int \<Rightarrow> int \<Rightarrow> int" where
  "greg_day y m d = 365 * (y - 1) + (y - 1) div 4 - (y - 1) div 100 + (y - 1) div 400
     + sum_list (map (month_length (greg_leap y)) [0 .. m - 1]) + d - 1"

definition greg_seconds :: "tm \<Rightarrow> int" where
  "greg_seconds et = (greg_day (tm_year et + 1900) (tm_mon et) (tm_mday et) - greg_day 1970 0 1) * 86400
     + tm_hour et * 3600 + tm_min et * 60 + tm_sec et"

lemma DAYS_month_lengths:
  assumes "0 \<le> m" "m < 12"
  shows "sum_list (map (month_length leap) [0 .. m - 1]) = DAYS leap ! nat m"
proof -
  have "list_all (\<lambda>leap. list_all (\<lambda>k.
      sum_list (map (month_length leap) [0 .. int k - 1]) = DAYS leap ! k) [0..<12]) [True, False]"
    by code_simp
  moreover from assms have "nat m < 12" by simp
  ultimately have "sum_list (map (month_length leap) [0 .. int (nat m) - 1]) = DAYS leap ! nat m"
    unfolding list_all_iff by (cases leap) (simp_all del: int_nat_eq)
  then show ?thesis using assms by simp
qed

lemma greg_day_epoch: "greg_day 1970 0 1 = 719162"
  by code_simp

lemma div_between:
  fixes x n c :: int
  assumes "n * c \<le> x" "x < n * c + c"
  shows "x div c = n"
  using assms by (intro int_div_pos_eq [where r = "x - n * c"]) simp_all

lemma greg_year_start:
  assumes "70 \<le> y" "y \<le> 200"
  shows "365 * (y + 1900 - 1) + (y + 1900 - 1) div 4 - (y + 1900 - 1) div 100 + (y + 1900 - 1) div 400
    = year_start (y - 70) + 719162"
proof -
  have "(y + 1900 - 1) div 4 = (y - 69) div 4 + 492" by simp
  moreover have "(1899 + y) div 100 = (if y \<le> 100 then 19 else 20)"
    using assms by (intro div_between) simp_all
  moreover have "(1899 + y) div 400 = (if y \<le> 100 then 4 else 5)"
    using assms by (intro div_between) simp_all
  ultimately show ?thesis by (simp add: year_start_def add_ac)
qed

lemma greg_leap_code:
  assumes "70 \<le> y" "y \<le> 199"
  shows "greg_leap (y + 1900) = leap_year (y - 70)"
proof -
  have "(y + 1900) mod 4 = 0 \<longleftrightarrow> leap_year (y - 70)"
    by (simp add: leap_year_def) presburger
  moreover have "(y + 1900) mod 100 = 0 \<Longrightarrow> y = 100"
    using assms by presburger
  ultimately show ?thesis by (auto simp: greg_leap_def)
qed

interpretation gm_codec: codec time_to_gm gm_to_time "\<lambda>t. 0 \<le> t"
  by unfold_locales (rule gm_to_time_of_time_to_gm)

section \<open>Properties\<close>



text \<open>
  Every valid date and time from 1970 on has seconds, which are nonnegative, and dividing them
  gives back the same date and time; so distinct valid dates have distinct seconds.
\<close>

theorem gm_to_time_correct:
  assumes "tm_ok et"
  shows "\<exists>t. gm_to_time et = Some t \<and> 0 \<le> t
    \<and> (let gm = time_to_gm t in tm_year gm = tm_year et \<and> tm_mon gm = tm_mon et \<and> tm_mday gm = tm_mday et
       \<and> tm_hour gm = tm_hour et \<and> tm_min gm = tm_min et \<and> tm_sec gm = tm_sec et)"
  using time_to_gm_of_gm_to_time [OF assms gm_to_time_ok [OF assms]] gm_to_time_ok [OF assms]
  by (simp add: Let_def)

theorem gm_to_time_correct_witness:
  "\<exists>t. gm_to_time (tm_zero\<lparr>tm_year := 100, tm_mon := 1, tm_mday := 29\<rparr>) = Some t \<and> 0 \<le> t
    \<and> tm_mday (time_to_gm t) = 29"
proof -
  have "tm_ok (tm_zero\<lparr>tm_year := 100, tm_mon := 1, tm_mday := 29\<rparr>)" by code_simp
  from gm_to_time_correct [OF this] show ?thesis by (auto simp: Let_def)
qed

text \<open>
  (C12) From 1970 to the end of 2099 the seconds of a date and time are those of the Gregorian
  calendar, as \<^verbatim>\<open>timegm\<close> computes them.
\<close>

theorem gm_to_time_gregorian:
  assumes "tm_ok et" "tm_year et \<le> 199"
  shows "gm_to_time et = Some (greg_seconds et)"
  using assms greg_leap_code [of "tm_year et"] greg_year_start [of "tm_year et"]
    DAYS_month_lengths [of "tm_mon et" "leap_year (tm_year et - 70)"]
  by (simp add: gm_to_time_ok greg_seconds_def greg_day_epoch greg_day_def [of "tm_year et + 1900"] tm_ok_def)

theorem gm_to_time_gregorian_witness:
  "gm_to_time (tm_zero\<lparr>tm_year := 199, tm_mon := 11, tm_mday := 31\<rparr>) = Some 4102358400
   \<and> greg_seconds (tm_zero\<lparr>tm_year := 199, tm_mon := 11, tm_mday := 31\<rparr>) = 4102358400"
proof -
  have ok: "tm_ok (tm_zero\<lparr>tm_year := 199, tm_mon := 11, tm_mday := 31\<rparr>)"
    "tm_year (tm_zero\<lparr>tm_year := 199, tm_mon := 11, tm_mday := 31\<rparr>) \<le> 199" by code_simp+
  have "greg_seconds (tm_zero\<lparr>tm_year := 199, tm_mon := 11, tm_mday := 31\<rparr>) = 4102358400" by code_simp
  with gm_to_time_gregorian [OF ok] show ?thesis by simp
qed

text \<open>
  (C22) The calendar is not the Gregorian one afterwards: every date of March to December 2100 gets
  the seconds of the following day, and the first second of 1 March 2100 is divided into the date
  29 February 2100, which does not exist.
\<close>

theorem gm_to_time_2100:
  assumes "tm_ok et" "tm_year et = 200" "2 \<le> tm_mon et"
  shows "gm_to_time et = Some (greg_seconds et + 86400)
    \<and> tm_year (time_to_gm 4107542400) = 200 \<and> tm_mon (time_to_gm 4107542400) = 1
      \<and> tm_mday (time_to_gm 4107542400) = 29 \<and> \<not> greg_leap 2100"
proof -
  have leap: "\<not> greg_leap 2100" "leap_year 130" by (simp_all add: greg_leap_def leap_year_def)
  have "list_all (\<lambda>k. DAYS True ! k = DAYS False ! k + 1) [2..<12]" by code_simp
  moreover have "nat (tm_mon et) \<in> {2..<12}" using assms by (auto simp: tm_ok_def)
  ultimately have "DAYS True ! nat (tm_mon et) = DAYS False ! nat (tm_mon et) + 1"
    unfolding list_all_iff by (metis set_upt)
  then have "gm_to_time et = Some (greg_seconds et + 86400)"
    using assms greg_year_start [of "tm_year et"] DAYS_month_lengths [of "tm_mon et" False] leap
    by (simp add: gm_to_time_ok greg_seconds_def greg_day_epoch greg_day_def [of 2100] tm_ok_def)
  moreover have "tm_year (time_to_gm 4107542400) = 200 \<and> tm_mon (time_to_gm 4107542400) = 1
      \<and> tm_mday (time_to_gm 4107542400) = 29 \<and> \<not> greg_leap 2100"
    by code_simp
  ultimately show ?thesis by blast
qed

theorem gm_to_time_2100_witness:
  "gm_to_time (tm_zero\<lparr>tm_year := 200, tm_mon := 2, tm_mday := 1\<rparr>)
     = Some (greg_seconds (tm_zero\<lparr>tm_year := 200, tm_mon := 2, tm_mday := 1\<rparr>) + 86400)"
  by (rule gm_to_time_2100 [THEN conjunct1]; code_simp)

text \<open>
  Comparing two divided times field by field gives the sign of the difference of their seconds.
\<close>

theorem Time_compare_seconds:
  assumes "tm_ok a" "tm_ok b"
  shows "sgn (Time_compare a b) = sgn (the (gm_to_time a) - the (gm_to_time b))"
  using Time_compare_negative [OF assms] Time_compare_negative [OF assms(2,1)]
    Time_compare_zero [of a b] Time_compare_swap [of b a]
  by (cases "Time_compare a b" "0 :: int" rule: linorder_cases) (auto simp: sgn_if)

theorem Time_compare_seconds_witness:
  "sgn (the (gm_to_time (tm_zero\<lparr>tm_year := 100, tm_mon := 1, tm_mday := 29\<rparr>))
      - the (gm_to_time (tm_zero\<lparr>tm_year := 100, tm_mon := 2, tm_mday := 1\<rparr>))) = - 1"
proof -
  have "tm_ok (tm_zero\<lparr>tm_year := 100, tm_mon := 1, tm_mday := 29\<rparr>)"
    "tm_ok (tm_zero\<lparr>tm_year := 100, tm_mon := 2, tm_mday := 1\<rparr>)" by code_simp+
  from Time_compare_seconds [OF this] show ?thesis by (simp add: Time_compare_def)
qed

lemma tm_extend_simps [simp]:
  "tm.truncate (tm_extend et usec tz) = et" "tm_usec (tm_extend et usec tz) = usec"
  "timezone (tm_extend et usec tz) = tz"
  by (simp_all add: tm_extend_def tm.truncate_def tm.extend_def)

lemma tm_ok_truncate [simp]: "tm_ok (tm.truncate t) = tm_ok t"
  by (simp add: tm_ok_def tm.truncate_def)

text \<open>
  Normalising a GMT time whose fields may overflow, for a month in range and a moment not
  before 1970: the result has every field in range, is the same moment, and normalising it again
  changes nothing.
\<close>

theorem ExtendedTime_normalize_gmt:
  assumes "timezone t = TZ_GMT" "gm_to_time (tm.truncate t) = Some s" "0 \<le> s"
  shows "\<exists>n. ExtendedTime_normalize mktime t = Some (Inr n) \<and> tm_ok n \<and> timezone n = TZ_GMT
    \<and> ExtendedTime_to_Time mktime n = ExtendedTime_to_Time mktime t
    \<and> ExtendedTime_normalize mktime n = Some (Inr n)"
proof -
  have "tm_ok (tm_extend (time_to_gm s) (tm_usec t) TZ_GMT)"
    using time_to_gm_ok [OF assms(3)] tm_ok_truncate [of "tm_extend (time_to_gm s) (tm_usec t) TZ_GMT"] by simp
  then show ?thesis
    using assms by (simp add: ExtendedTime_normalize_def ExtendedTime_to_Time_def gm_to_time_of_time_to_gm)
qed

theorem ExtendedTime_normalize_gmt_witness:
  "\<exists>n. ExtendedTime_normalize (\<lambda>_. None)
      (tm_extend (tm_zero\<lparr>tm_year := 99, tm_mon := 11, tm_mday := 32, tm_sec := 86399\<rparr>) 5 TZ_GMT)
    = Some (Inr n) \<and> tm_ok n"
proof -
  let ?t = "tm_extend (tm_zero\<lparr>tm_year := 99, tm_mon := 11, tm_mday := 32, tm_sec := 86399\<rparr>) 5 TZ_GMT"
  have "gm_to_time (tm.truncate ?t) = Some 946771199"
    unfolding tm_extend_simps by code_simp
  then show ?thesis using ExtendedTime_normalize_gmt [of ?t 946771199 "\<lambda>_. None"] by auto
qed

text \<open>
  A moment not before 1970 taken apart in GMT and put together again is the same moment.
\<close>

theorem Time_gm_time_roundtrip:
  assumes "0 \<le> tv_sec t"
  shows "ExtendedTime_to_Time mktime (Time_get_gm_time t) = Some t
    \<and> Time_get_time localtime t TZ_GMT = Inr (Time_get_gm_time t)"
  using assms
  by (simp add: ExtendedTime_to_Time_def Time_get_gm_time_def gm_to_time_of_time_to_gm
      Time_mk_def Time_get_time_def ExtendedTime_of_sec_def)

theorem Time_gm_time_roundtrip_witness:
  "ExtendedTime_to_Time (\<lambda>_. None) (Time_get_gm_time (Time_mk 951868799 7)) = Some (Time_mk 951868799 7)"
  by (rule Time_gm_time_roundtrip [THEN conjunct1]) (simp add: Time_mk_def)

end
