(* ===== verification/Ascii.thy ===== *)
theory Ascii
  imports Prelude
begin

text \<open>
  Bytes and ASCII text: src/src/String/AsciiStringManip.hpp and .cpp (letter case, character
  categories, comparison without case, hexadecimal digits) and the conversions between integers and
  their decimal text of StringManip.tpp.

  A \<open>string\<close> is a list of bytes. A pointer into a range is the number of bytes before it. The C++
  integer types that instantiate the templates are described by \<open>int_type\<close>.
\<close>

named_theorems ascii_defs \<open>definitions of the character categories\<close>

section \<open>Letter case\<close>

definition ASCII_TOLOWER_TABLE :: string where
  "ASCII_TOLOWER_TABLE = map char_of ([0..<65] @ [97..<123] @ [91..<256])"

definition ASCII_TOUPPER_TABLE :: string where
  "ASCII_TOUPPER_TABLE = map char_of ([0..<97] @ [65..<91] @ [123..<256])"

definition to_lower :: "char \<Rightarrow> char" where
  "to_lower ch = ASCII_TOLOWER_TABLE ! of_char ch"

definition to_upper :: "char \<Rightarrow> char" where
  "to_upper ch = ASCII_TOUPPER_TABLE ! of_char ch"

primrec to_lower_range :: "string \<Rightarrow> string" where
  "to_lower_range [] = []"
| "to_lower_range (c # cs) = to_lower c # to_lower_range cs"

primrec to_upper_range :: "string \<Rightarrow> string" where
  "to_upper_range [] = []"
| "to_upper_range (c # cs) = to_upper c # to_upper_range cs"

section \<open>Comparison without case\<close>

text \<open>A \<^verbatim>\<open>char\<close> is signed when it is converted to an integer.\<close>

definition schar :: "char \<Rightarrow> int" where
  "schar c = (if (of_char c :: int) < 128 then of_char c else of_char c - 256)"

fun Caseless_compare :: "string \<Rightarrow> string \<Rightarrow> int" where
  "Caseless_compare (c # cl) (d # str) =
     (let result = schar (to_lower c) - schar (to_lower d)
      in if result \<noteq> 0 then result else Caseless_compare cl str)"
| "Caseless_compare [] [] = 0"
| "Caseless_compare [] (d # str) = -1"
| "Caseless_compare (c # cl) [] = 1"

fun Caseless_equal_loop :: "string \<Rightarrow> string \<Rightarrow> bool" where
  "Caseless_equal_loop (c # cl) (d # str) =
     (if to_lower d = to_lower c then (if str = [] then True else Caseless_equal_loop cl str) else False)"
| "Caseless_equal_loop _ _ = True"

definition Caseless_equal :: "string \<Rightarrow> string \<Rightarrow> bool" where
  "Caseless_equal cl str =
     (if length str \<noteq> length cl then False else if str = [] then True else Caseless_equal_loop cl str)"

definition Caseless_start :: "string \<Rightarrow> string \<Rightarrow> bool" where
  "Caseless_start cl str = Caseless_equal cl (take (length cl) str)"

section \<open>Categories of characters\<close>

type_synonym CharTable = "bool list"

definition byte :: "char \<Rightarrow> u8" where
  "byte c = of_char c"

text \<open>Marks the characters from \<open>ch\<close> to \<open>till\<close>; the counter wraps around after the last byte.\<close>

function CharTable_range :: "u8 \<Rightarrow> u8 \<Rightarrow> CharTable \<Rightarrow> CharTable" where
  "CharTable_range ch till table =
     (let table = table[unat ch := True]
      in if ch = till then table else CharTable_range (ch + 1) till table)"
  by pat_completeness auto

termination CharTable_range
  by (relation "measure (\<lambda>(ch, till, _). unat (till - ch))") (auto simp: word_gap_less)

fun CharTable_scan :: "char \<Rightarrow> string \<Rightarrow> CharTable \<Rightarrow> CharTable" where
  "CharTable_scan prev [] table = table"
| "CharTable_scan prev [c] table = table[of_char c := True]"
| "CharTable_scan prev (c # till # str) table =
     (if c = CHR ''-'' \<and> prev \<noteq> CHR 0x00
      then CharTable_scan till str (CharTable_range (byte prev) (byte till) table)
      else CharTable_scan c (till # str) (table[of_char c := True]))"

definition CharTable_of_str :: "string \<Rightarrow> bool \<Rightarrow> CharTable" where
  "CharTable_of_str str check_zero =
     (let table = replicate 256 False;
          table = (if check_zero then table[0 := True] else table)
      in CharTable_scan (CHR 0x00) str table)"

definition CharTable_union :: "CharTable \<Rightarrow> CharTable \<Rightarrow> CharTable" where
  "CharTable_union first second = map (\<lambda>i. first ! i \<or> second ! i) [0..<256]"

definition CharTable_union3 :: "CharTable \<Rightarrow> CharTable \<Rightarrow> CharTable \<Rightarrow> CharTable" where
  "CharTable_union3 first second third = map (\<lambda>i. first ! i \<or> second ! i \<or> third ! i) [0..<256]"

definition CharTable_of_predicate :: "(nat \<Rightarrow> bool) \<Rightarrow> CharTable" where
  "CharTable_of_predicate predicate = map predicate [0..<256]"

definition CharTable_owned :: "CharTable \<Rightarrow> char \<Rightarrow> bool" where
  "CharTable_owned table ch = table ! of_char ch"

text \<open>\<^verbatim>\<open>isspace\<close> of the C library in the C locale.\<close>

definition isspace :: "nat \<Rightarrow> bool" where
  "isspace n \<longleftrightarrow> n = 32 \<or> 9 \<le> n \<and> n \<le> 13"

definition ALPHA :: CharTable where "ALPHA = CharTable_of_str ''A-Za-z'' False"
definition NUMBER :: CharTable where "NUMBER = CharTable_of_str ''0-9'' False"
definition ALPHA_NUM :: CharTable where "ALPHA_NUM = CharTable_union ALPHA NUMBER"
definition OCTAL_NUMBER :: CharTable where "OCTAL_NUMBER = CharTable_of_str ''0-7'' False"
definition HEX_NUMBER :: CharTable where "HEX_NUMBER = CharTable_of_str ''0-9A-Fa-f'' False"
definition SPACE :: CharTable where "SPACE = CharTable_of_predicate isspace"

text \<open>Searching a range; the result is the distance from the start of the range.\<close>

fun Category_find_owned :: "(char \<Rightarrow> bool) \<Rightarrow> string \<Rightarrow> nat" where
  "Category_find_owned owned [] = 0"
| "Category_find_owned owned (c # str) = (if owned c then 0 else Suc (Category_find_owned owned str))"

fun Category_find_nonowned :: "(char \<Rightarrow> bool) \<Rightarrow> string \<Rightarrow> nat" where
  "Category_find_nonowned owned [] = 0"
| "Category_find_nonowned owned (c # str) = (if \<not> owned c then 0 else Suc (Category_find_nonowned owned str))"

text \<open>Searching backwards from \<open>pos\<close>: nothing found is \<open>NOT_FOUND\<close>, the position where it began.\<close>

fun Category_rfind :: "(char \<Rightarrow> bool) \<Rightarrow> string \<Rightarrow> nat \<Rightarrow> nat \<Rightarrow> nat" where
  "Category_rfind wanted str NOT_FOUND 0 = NOT_FOUND"
| "Category_rfind wanted str NOT_FOUND (Suc pos) =
     (if wanted (str ! pos) then pos else Category_rfind wanted str NOT_FOUND pos)"

definition Category_rfind_owned :: "(char \<Rightarrow> bool) \<Rightarrow> string \<Rightarrow> nat \<Rightarrow> nat" where
  "Category_rfind_owned owned str pos = Category_rfind owned str pos pos"

definition Category_rfind_nonowned :: "(char \<Rightarrow> bool) \<Rightarrow> string \<Rightarrow> nat \<Rightarrow> nat" where
  "Category_rfind_nonowned owned str pos = Category_rfind (\<lambda>c. \<not> owned c) str pos pos"

function flatten_loop :: "(char \<Rightarrow> bool) \<Rightarrow> string \<Rightarrow> string \<Rightarrow> string" where
  "flatten_loop owned replacement first =
     (if first = [] then []
      else let current = Category_find_owned owned first
           in take current first
              @ (if current = length first then []
                 else replacement @ flatten_loop owned replacement
                        (drop (Category_find_nonowned owned (drop current first)) (drop current first))))"
  by pat_completeness auto

lemma find_owned_takeWhile: "Category_find_owned owned s = length (takeWhile (\<lambda>c. \<not> owned c) s)"
  by (induction s) auto

lemma find_nonowned_takeWhile: "Category_find_nonowned owned s = length (takeWhile owned s)"
  by (induction s) auto

lemma drop_find_owned: "drop (Category_find_owned owned s) s = dropWhile (\<lambda>c. \<not> owned c) s"
  by (induction s) auto

lemma drop_find_nonowned: "drop (Category_find_nonowned owned s) s = dropWhile owned s"
  by (induction s) auto

lemma find_owned_length: "Category_find_owned owned s = length s \<longleftrightarrow> dropWhile (\<lambda>c. \<not> owned c) s = []"
  by (induction s) auto

lemma dropWhile_shrinks: "dropWhile Q s \<noteq> [] \<Longrightarrow> (\<And>c. Q c = (\<not> P c)) \<Longrightarrow> length (dropWhile P (dropWhile Q s)) < length s"
proof (induction s)
  case (Cons a s)
  then show ?case
    by (auto simp: le_imp_less_Suc length_dropWhile_le)
qed simp

termination flatten_loop
  by (relation "measure (\<lambda>(_, _, first). length first)")
    (auto simp: drop_find_owned drop_find_nonowned find_owned_length intro: dropWhile_shrinks)

declare flatten_loop.simps [simp del]

definition flatten :: "(char \<Rightarrow> bool) \<Rightarrow> string \<Rightarrow> string \<Rightarrow> string" where
  "flatten to_replace str replacement = flatten_loop to_replace replacement str"

section \<open>Hexadecimal digits\<close>

definition HEX_DIGITS :: string where "HEX_DIGITS = ''0123456789ABCDEF''"

definition convert :: "u8 \<Rightarrow> char" where
  "convert ch = char_of (unat ch)"

definition hex_to_int :: "char \<Rightarrow> u8" where
  "hex_to_int ch = (if schar ch \<le> 57 then byte ch - 48 else (byte ch AND 0x0F) + 9)"

definition hex_to_char :: "char \<Rightarrow> char \<Rightarrow> char" where
  "hex_to_char major minor = convert (push_bit 4 (hex_to_int major) OR hex_to_int minor)"

text \<open>An odd number of digits fails the assertion: no result.\<close>

fun hex_to_buf :: "string \<Rightarrow> string option" where
  "hex_to_buf [] = Some []"
| "hex_to_buf [c] = None"
| "hex_to_buf (a # b # data) = map_option ((#) (hex_to_char a b)) (hex_to_buf data)"

section \<open>Integers and their text\<close>

record int_type =
  is_signed :: bool
  value_bits :: nat

definition numeric_max :: "int_type \<Rightarrow> int" where
  "numeric_max ty = 2 ^ value_bits ty - 1"

definition numeric_min :: "int_type \<Rightarrow> int" where
  "numeric_min ty = (if is_signed ty then - (2 ^ value_bits ty) else 0)"

text \<open>The digits are produced least significant first and then reversed in place.\<close>

fun convert_loop :: "nat \<Rightarrow> string" where
  "convert_loop value =
     digit_char (value mod 10) # (if value div 10 = 0 then [] else convert_loop (value div 10))"

declare convert_loop.simps [simp del]

definition IntToStr_convert_unsigned :: "nat \<Rightarrow> string" where
  "IntToStr_convert_unsigned value = rev (convert_loop value)"

text \<open>The empty text is the failure, as the length 0 is in the code.\<close>

definition IntToStr_convert_signed :: "int_type \<Rightarrow> int \<Rightarrow> string" where
  "IntToStr_convert_signed ty value =
     (if value < - numeric_max ty then []
      else if value < 0 then CHR ''-'' # IntToStr_convert_unsigned (nat (- value))
      else IntToStr_convert_unsigned (nat value))"

definition digits10 :: "int_type \<Rightarrow> nat" where
  "digits10 ty = length (show_nat (2 ^ value_bits ty)) - 1"

definition int_to_str :: "int_type \<Rightarrow> int \<Rightarrow> nat \<Rightarrow> string" where
  "int_to_str ty value buf_size =
     (if buf_size < digits10 ty + 3 then []
      else if is_signed ty then IntToStr_convert_signed ty value
      else IntToStr_convert_unsigned (nat value))"

definition char_digit :: "char \<Rightarrow> nat" where
  "char_digit c = nat ((of_char c - 48) mod 256)"

fun str_to_int_negative :: "int_type \<Rightarrow> string \<Rightarrow> int \<Rightarrow> int option" where
  "str_to_int_negative ty [] value = Some value"
| "str_to_int_negative ty (c # src) value =
     (let ch = char_digit c; LIMIT = numeric_max ty div 10
      in if ch > 9 \<or> value < - LIMIT
            \<or> value = - LIMIT \<and> int ch > - (numeric_min ty + LIMIT * 10) then None
         else str_to_int_negative ty src (value * 10 - int ch))"

fun str_to_int_positive :: "int_type \<Rightarrow> string \<Rightarrow> int \<Rightarrow> int option" where
  "str_to_int_positive ty [] value = Some value"
| "str_to_int_positive ty (c # src) value =
     (let ch = char_digit c; LIMIT = numeric_max ty div 10
      in if ch > 9 \<or> value > LIMIT \<or> value = LIMIT \<and> int ch > numeric_max ty - LIMIT * 10 then None
         else str_to_int_positive ty src (value * 10 + int ch))"

definition str_to_int :: "int_type \<Rightarrow> string \<Rightarrow> int option" where
  "str_to_int ty str =
     (case str of
        [] \<Rightarrow> None
      | c # src \<Rightarrow>
          if c = CHR ''-'' then
            if \<not> is_signed ty then None
            else if src = [] then None else str_to_int_negative ty src 0
          else if c = CHR ''+'' then
            if src = [] then None else str_to_int_positive ty src 0
          else str_to_int_positive ty str 0)"

section \<open>Lemmas\<close>

text \<open>A statement about every byte is checked on the 256 of them.\<close>

lemma of_char_less [simp]: "(of_char c :: nat) < 256"
  using range_nat_of_char by (metis atLeastLessThan_iff rangeI)

lemma all_chars: "(\<forall>c::char. P c) \<longleftrightarrow> list_all (\<lambda>n. P (char_of n)) [0..<256]"
proof
  assume "list_all (\<lambda>n. P (char_of n)) [0..<256]"
  then have "P (char_of (of_char c :: nat))" for c
    unfolding list_all_iff by (metis atLeastLessThan_iff of_char_less set_upt zero_le)
  then show "\<forall>c. P c" by simp
qed (simp add: list_all_iff)

lemma to_lower_eq:
  "to_lower c = (if 65 \<le> (of_char c :: nat) \<and> (of_char c :: nat) < 91 then char_of (of_char c + 32 :: nat) else c)"
  using of_char_less [of c]
  by (auto simp: to_lower_def ASCII_TOLOWER_TABLE_def nth_append simp del: of_char_less upt_rec_numeral)

lemma to_upper_eq:
  "to_upper c = (if 97 \<le> (of_char c :: nat) \<and> (of_char c :: nat) < 123 then char_of (of_char c - 32 :: nat) else c)"
  using of_char_less [of c]
  by (auto simp: to_upper_def ASCII_TOUPPER_TABLE_def nth_append simp del: of_char_less upt_rec_numeral)

lemma NUMBER_table: "NUMBER = map (\<lambda>n. 48 \<le> n \<and> n < 58) [0..<256]"
  by code_simp

lemma NUMBER_owned [simp]: "CharTable_owned NUMBER c = is_digit c"
  by (simp add: CharTable_owned_def NUMBER_table is_digit_def del: upt_rec_numeral)

lemma SPACE_owned [simp]: "CharTable_owned SPACE c = isspace (of_char c)"
  by (simp add: CharTable_owned_def SPACE_def CharTable_of_predicate_def del: upt_rec_numeral)

lemma hex_to_int_HEX_DIGITS: "k < 16 \<Longrightarrow> hex_to_int (HEX_DIGITS ! k) = of_nat k"
proof -
  assume "k < 16"
  moreover have "list_all (\<lambda>k. hex_to_int (HEX_DIGITS ! k) = of_nat k) [0..<16]" by code_simp
  ultimately show ?thesis unfolding list_all_iff by (metis atLeastLessThan_iff set_upt zero_le)
qed

lemma nibbles_or: "push_bit 4 (drop_bit 4 n) OR take_bit 4 n = (n :: nat)"
  by (rule bit_eqI) (auto simp: bit_simps)

lemma hex_to_char_HEX_DIGITS:
  "hex_to_char (HEX_DIGITS ! (of_char c div 16)) (HEX_DIGITS ! (of_char c mod 16)) = c"
proof -
  let ?n = "of_char c :: nat"
  have "?n div 16 < 16" using of_char_less [of c] by (simp add: less_mult_imp_div_less)
  then have "hex_to_char (HEX_DIGITS ! (?n div 16)) (HEX_DIGITS ! (?n mod 16))
      = convert (push_bit 4 (of_nat (?n div 16)) OR of_nat (?n mod 16))"
    by (simp add: hex_to_char_def hex_to_int_HEX_DIGITS)
  also have "push_bit 4 (of_nat (?n div 16)) OR of_nat (?n mod 16) = (of_nat (push_bit 4 (?n div 16) OR ?n mod 16) :: u8)"
    by (simp add: of_nat_or_eq of_nat_push_bit)
  also have "push_bit 4 (?n div 16) OR ?n mod 16 = ?n"
    using nibbles_or [of ?n] by (simp add: drop_bit_eq_div take_bit_eq_mod)
  finally show ?thesis by (simp add: convert_def unsigned_of_nat take_bit_nat_eq_self)
qed

lemma char_digit_eq:
  "char_digit c = (if 48 \<le> (of_char c :: nat) then of_char c - 48 else of_char c + 208)"
proof -
  obtain n where n: "n = (of_char c :: nat)" "n < 256" by simp
  have "(of_char c - 48 :: int) = int n - 48" by (simp only: n(1) of_nat_of_char)
  moreover have "(int n - 48) mod 256 = (if 48 \<le> n then int n - 48 else int n + 208)"
    using n(2) int_mod_pos_eq [of "int n - 48" 256 "-1" "int n + 208"] by auto
  ultimately have "char_digit c = (if 48 \<le> n then n - 48 else n + 208)"
    by (auto simp: char_digit_def nat_diff_distrib nat_add_distrib)
  then show ?thesis by (simp only: n(1))
qed

lemma char_digit_le: "char_digit c \<le> 9 \<longleftrightarrow> is_digit c"
  by (auto simp: char_digit_eq is_digit_def)

lemma char_digit_val [simp]: "is_digit c \<Longrightarrow> char_digit c = digit_val c"
  by (auto simp: char_digit_eq is_digit_def digit_val_def)

subsection \<open>Integers and their text\<close>

lemma convert_loop_show_nat: "rev (convert_loop n) = show_nat n"
proof (induction n rule: convert_loop.induct)
  case (1 n)
  then show ?case
    using div_greater_zero_iff [of n 10]
    by (cases "n < 10") (simp_all add: convert_loop.simps [of n] show_nat.simps [of n] del: div_greater_zero_iff)
qed

lemma power_two_mod_ten: "(2 :: int) ^ k mod 10 \<noteq> 0"
proof (induction k)
  case (Suc k)
  have "x mod 10 \<noteq> 0 \<Longrightarrow> even x \<or> x = 1 \<Longrightarrow> 2 * x mod 10 \<noteq> 0" for x :: int by presburger
  from this [OF Suc] show ?case by (cases k) simp_all
qed simp

text \<open>Reading one more digit succeeds exactly when the value stays in the range of the type.\<close>

lemma positive_step:
  assumes "0 \<le> value" "value \<le> numeric_max ty" "ch \<le> 9"
  shows "(value > numeric_max ty div 10 \<or> value = numeric_max ty div 10 \<and> int ch > numeric_max ty - numeric_max ty div 10 * 10)
    \<longleftrightarrow> value * 10 + int ch > numeric_max ty"
proof -
  define q r where "q = numeric_max ty div 10" and "r = numeric_max ty mod 10"
  then have M: "numeric_max ty = q * 10 + r" "0 \<le> r" "r < 10" by simp_all
  have "(value > q \<or> value = q \<and> int ch > numeric_max ty - q * 10) \<longleftrightarrow> value * 10 + int ch > numeric_max ty"
    using M assms(3) by (cases q "value" rule: linorder_cases) auto
  then show ?thesis by (simp only: q_def)
qed

lemma negative_step:
  assumes "value \<le> 0" "is_signed ty" "ch \<le> 9"
  shows "(value < - (numeric_max ty div 10)
      \<or> value = - (numeric_max ty div 10) \<and> int ch > - (numeric_min ty + numeric_max ty div 10 * 10))
    \<longleftrightarrow> value * 10 - int ch < numeric_min ty"
proof -
  define q r where "q = numeric_max ty div 10" and "r = numeric_max ty mod 10"
  have min: "numeric_min ty = - numeric_max ty - 1" "(numeric_max ty + 1) mod 10 \<noteq> 0"
    using assms(2) power_two_mod_ten by (simp_all add: numeric_max_def numeric_min_def)
  have M: "numeric_max ty = q * 10 + r" "0 \<le> r" "r < 10" by (simp_all add: q_def r_def)
  then have "r \<noteq> 9" using min(2) by auto
  then have "(value < - q \<or> value = - q \<and> int ch > - (numeric_min ty + q * 10)) \<longleftrightarrow> value * 10 - int ch < numeric_min ty"
    using M min(1) assms(3) by (cases "- q" "value" rule: linorder_cases) auto
  then show ?thesis by (simp only: q_def)
qed

lemma scaled_ge:
  fixes v :: int
  assumes "0 \<le> v"
  shows "v \<le> v * 10 ^ n + int x"
proof -
  have "v * 1 \<le> v * 10 ^ n" using assms by (intro mult_left_mono) simp_all
  then show ?thesis by simp
qed

lemma str_to_int_positive_iff:
  assumes "0 \<le> v" "v \<le> numeric_max ty"
  shows "str_to_int_positive ty cs v = Some r \<longleftrightarrow>
    (\<forall>c\<in>set cs. is_digit c) \<and> r = v * 10 ^ length cs + int (digits_val cs) \<and> r \<le> numeric_max ty"
  using assms
proof (induction cs arbitrary: v)
  case Nil
  then show ?case by auto
next
  case (Cons c cs)
  show ?case
  proof (cases "is_digit c")
    case True
    define w where "w = v * 10 + int (digit_val c)"
    have digit: "char_digit c = digit_val c" "digit_val c \<le> 9" "\<not> digit_val c > 9"
      using True digit_val_less [OF True] by (auto simp del: digit_val_less)
    have step: "str_to_int_positive ty (c # cs) v
        = (if w > numeric_max ty then None else str_to_int_positive ty cs w)"
      using positive_step [OF Cons.prems digit(2)] digit by (simp add: Let_def w_def)
    have r: "v * 10 ^ length (c # cs) + int (digits_val (c # cs)) = w * 10 ^ length cs + int (digits_val cs)"
      by (simp add: w_def digits_val_Cons algebra_simps)
    have "0 \<le> w" using Cons.prems by (simp add: w_def)
    then show ?thesis
      using Cons.IH [of w] scaled_ge [of w "length cs" "digits_val cs"] True
      unfolding step r by auto
  next
    case False
    then show ?thesis using char_digit_le [of c] by (simp add: Let_def)
  qed
qed

lemma str_to_int_negative_iff:
  assumes "v \<le> 0" "numeric_min ty \<le> v" "is_signed ty"
  shows "str_to_int_negative ty cs v = Some r \<longleftrightarrow>
    (\<forall>c\<in>set cs. is_digit c) \<and> r = v * 10 ^ length cs - int (digits_val cs) \<and> numeric_min ty \<le> r"
  using assms
proof (induction cs arbitrary: v)
  case Nil
  then show ?case by auto
next
  case (Cons c cs)
  show ?case
  proof (cases "is_digit c")
    case True
    define w where "w = v * 10 - int (digit_val c)"
    have digit: "char_digit c = digit_val c" "digit_val c \<le> 9" "\<not> digit_val c > 9"
      using True digit_val_less [OF True] by (auto simp del: digit_val_less)
    have step: "str_to_int_negative ty (c # cs) v
        = (if w < numeric_min ty then None else str_to_int_negative ty cs w)"
      using negative_step [OF Cons.prems(1,3) digit(2)] digit by (simp add: Let_def w_def)
    have r: "v * 10 ^ length (c # cs) - int (digits_val (c # cs)) = w * 10 ^ length cs - int (digits_val cs)"
      by (simp add: w_def digits_val_Cons algebra_simps)
    have "w \<le> 0" using Cons.prems by (simp add: w_def)
    then show ?thesis
      using Cons.IH [of w] scaled_ge [of "- w" "length cs" "digits_val cs"] True Cons.prems(3)
      unfolding step r by auto
  next
    case False
    then show ?thesis using char_digit_le [of c] by (simp add: Let_def)
  qed
qed

lemma numeric_range: "0 \<le> numeric_max ty" "numeric_min ty \<le> 0"
  by (simp_all add: numeric_max_def numeric_min_def)

lemma not_digit_signs [simp]: "\<not> is_digit CHR ''-''" "\<not> is_digit CHR ''+''"
  by (simp_all add: is_digit_def)

lemma show_nat_not_sign: "show_nat n = c # cs \<Longrightarrow> c \<noteq> CHR ''-'' \<and> c \<noteq> CHR ''+''"
  using show_nat_digits [of c n] not_digit_signs by (metis list.set_intros(1))

lemma str_to_int_show_nat:
  assumes "int n \<le> numeric_max ty"
  shows "str_to_int ty (show_nat n) = Some (int n)"
proof -
  have "str_to_int_positive ty (show_nat n) 0 = Some (int n)"
    using str_to_int_positive_iff [of 0 ty "show_nat n"] assms numeric_range [of ty] by auto
  then show ?thesis
    using show_nat_nonempty [of n] show_nat_not_sign [of n]
    by (auto simp: str_to_int_def split: list.split simp del: str_to_int_positive.simps show_nat_nonempty)
qed

lemma str_to_int_minus_show_nat:
  assumes "numeric_min ty \<le> - int n" "is_signed ty"
  shows "str_to_int ty (CHR ''-'' # show_nat n) = Some (- int n)"
  using str_to_int_negative_iff [of 0 ty "show_nat n"] assms numeric_range [of ty]
  by (auto simp: str_to_int_def)

lemma Caseless_equal_loop_iff:
  "length cl = length str \<Longrightarrow> Caseless_equal_loop cl str \<longleftrightarrow> map to_lower cl = map to_lower str"
  by (induction cl str rule: Caseless_equal_loop.induct) auto

lemma Caseless_equal_iff: "Caseless_equal cl str \<longleftrightarrow> map to_lower cl = map to_lower str"
  by (auto simp: Caseless_equal_def Caseless_equal_loop_iff dest: map_eq_imp_length_eq)

lemma Caseless_start_append: "map to_lower cl = map to_lower w \<Longrightarrow> Caseless_start cl (w @ rest)"
  by (auto simp: Caseless_start_def Caseless_equal_iff dest: map_eq_imp_length_eq)

lemma schar_inj [simp]: "schar c = schar d \<longleftrightarrow> c = d"
proof
  assume "schar c = schar d"
  moreover have "(of_char c :: int) < 256" "(of_char d :: int) < 256" "0 \<le> (of_char c :: int)" "0 \<le> (of_char d :: int)"
    using of_char_less [of c] of_char_less [of d] by (metis of_nat_0_le_iff of_nat_less_numeral_iff of_nat_of_char)+
  ultimately have "(of_char c :: int) = of_char d" by (simp add: schar_def split: if_splits)
  then show "c = d" by (metis char_of_char)
qed simp

lemma Caseless_compare_zero_iff: "Caseless_compare cl str = 0 \<longleftrightarrow> map to_lower cl = map to_lower str"
  by (induction cl str rule: Caseless_compare.induct) (auto simp: Let_def)

lemma Caseless_compare_swap: "sgn (Caseless_compare str cl) = - sgn (Caseless_compare cl str)"
  by (induction cl str rule: Caseless_compare.induct) (auto simp: Let_def sgn_if split: if_splits)

subsection \<open>Flattening\<close>

lemma length_dropWhile_less_Suc [termination_simp]: "length (dropWhile P s) < Suc (length s)"
  by (simp add: le_imp_less_Suc length_dropWhile_le)

text \<open>What flattening means: each maximal run of owned characters becomes one replacement.\<close>

fun collapse :: "(char \<Rightarrow> bool) \<Rightarrow> string \<Rightarrow> string \<Rightarrow> string" where
  "collapse owned r [] = []"
| "collapse owned r (c # s) = (if owned c then r @ collapse owned r (dropWhile owned s) else c # collapse owned r s)"

lemma collapse_takeWhile:
  "collapse owned r s = takeWhile (\<lambda>c. \<not> owned c) s @ collapse owned r (dropWhile (\<lambda>c. \<not> owned c) s)"
  by (induction s) auto

lemma take_find_owned: "take (Category_find_owned owned s) s = takeWhile (\<lambda>c. \<not> owned c) s"
  by (induction s) auto

lemma flatten_loop_collapse: "flatten_loop owned r s = collapse owned r s"
proof (induction owned r s rule: flatten_loop.induct)
  case (1 owned r s)
  show ?case
  proof (cases "dropWhile (\<lambda>c. \<not> owned c) s")
    case Nil
    then show ?thesis
      by (subst flatten_loop.simps, subst collapse_takeWhile)
        (simp add: take_find_owned find_owned_length Nil Let_def del: dropWhile_eq_Nil_conv)
  next
    case (Cons c rest)
    then have c: "owned c" by (metis (mono_tags) dropWhile_eq_Cons_conv)
    have s: "s \<noteq> []" "Category_find_owned owned s \<noteq> length s" using Cons by (auto simp: find_owned_length)
    have "flatten_loop owned r (dropWhile owned (c # rest)) = collapse owned r (dropWhile owned (c # rest))"
      using "1.IH" [OF s(1) refl s(2)] by (simp only: drop_find_owned drop_find_nonowned Cons)
    then show ?thesis
      using c s Cons
      by (subst flatten_loop.simps, subst collapse_takeWhile)
        (simp add: take_find_owned drop_find_owned drop_find_nonowned Let_def)
  qed
qed

lemma length_collapse: "length (collapse owned r s) \<le> length s * (if r = [] then 1 else length r)"
proof (induction owned r s rule: collapse.induct)
  case (2 owned r c s)
  have "length (dropWhile owned s) * (if r = [] then 1 else length r) \<le> length s * (if r = [] then 1 else length r)"
    by (intro mult_right_mono length_dropWhile_le) simp
  with 2 show ?case by (cases r) (auto simp: Suc_le_eq trans_le_add1)
qed simp

lemma filter_dropWhile_owned: "filter (\<lambda>c. \<not> owned c) (dropWhile owned s) = filter (\<lambda>c. \<not> owned c) s"
  by (induction s) auto

lemma filter_collapse:
  "\<forall>c\<in>set r. owned c \<Longrightarrow> filter (\<lambda>c. \<not> owned c) (collapse owned r s) = filter (\<lambda>c. \<not> owned c) s"
  by (induction owned r s rule: collapse.induct) (auto simp: filter_dropWhile_owned)

lemma dropWhile_collapse:
  "dropWhile owned (collapse owned [r] (dropWhile owned s)) = collapse owned [r] (dropWhile owned s)"
  by (induction s) auto

lemma collapse_idem: "owned r \<Longrightarrow> collapse owned [r] (collapse owned [r] s) = collapse owned [r] s"
proof (induction owned "[r]" s rule: collapse.induct)
  case (2 owned c s)
  then show ?case by (simp add: dropWhile_collapse)
qed simp

section \<open>Properties\<close>

text \<open>
  (C19) Reading an integer succeeds exactly on an optional sign, a minus only for a signed type,
  followed by at least one digit and nothing else, when the number fits the type; the result is that
  number. Overflow is detected before it happens, at both ends of the range.
\<close>

theorem str_to_int_correct:
  "str_to_int ty str = Some v \<longleftrightarrow>
     (\<exists>ds. ds \<noteq> [] \<and> (\<forall>c\<in>set ds. is_digit c)
        \<and> (str = ds \<and> v = int (digits_val ds) \<or> str = CHR ''+'' # ds \<and> v = int (digits_val ds)
           \<or> str = CHR ''-'' # ds \<and> is_signed ty \<and> v = - int (digits_val ds))
        \<and> numeric_min ty \<le> v \<and> v \<le> numeric_max ty)"
proof (cases str)
  case (Cons c src)
  note range = numeric_range [of ty]
  have pos: "str_to_int_positive ty ds 0 = Some v \<longleftrightarrow>
      (\<forall>c\<in>set ds. is_digit c) \<and> v = int (digits_val ds) \<and> numeric_min ty \<le> v \<and> v \<le> numeric_max ty" for ds
    using str_to_int_positive_iff [of 0 ty ds v] range by auto
  have neg: "str_to_int_negative ty ds 0 = Some v \<longleftrightarrow>
      (\<forall>c\<in>set ds. is_digit c) \<and> v = - int (digits_val ds) \<and> numeric_min ty \<le> v \<and> v \<le> numeric_max ty"
    if "is_signed ty" for ds
    using str_to_int_negative_iff [of 0 ty ds v] range that by auto
  consider "c = CHR ''-''" | "c = CHR ''+''" | "c \<noteq> CHR ''-''" "c \<noteq> CHR ''+''" by blast
  then show ?thesis
    by cases (use Cons in \<open>auto simp: str_to_int_def pos neg conj_disj_distribL conj_disj_distribR ex_disj_distrib
        simp del: str_to_int_positive.simps str_to_int_negative.simps\<close>)
qed (simp add: str_to_int_def)

theorem str_to_int_correct_witness:
  "str_to_int \<lparr>is_signed = True, value_bits = 7\<rparr> ''-128'' = Some (- 128)"
  unfolding str_to_int_correct
  by (rule exI [of _ "''128''"]) (simp add: is_digit_def digits_val_def digit_val_def numeric_min_def numeric_max_def)

text \<open>
  (C23) An integer printed into a large enough buffer is read back as itself, for every value of the
  type but the smallest of a signed type, for which printing reports failure.
\<close>

theorem int_to_str_roundtrip:
  assumes "numeric_min ty \<le> v" "v \<le> numeric_max ty" "digits10 ty + 3 \<le> buf_size"
  shows "if is_signed ty \<and> v = numeric_min ty then int_to_str ty v buf_size = []
    else int_to_str ty v buf_size \<noteq> [] \<and> str_to_int ty (int_to_str ty v buf_size) = Some v"
proof (cases "is_signed ty \<and> v < 0")
  case True
  then have "v < - numeric_max ty \<longleftrightarrow> v = numeric_min ty"
    using assms(1) by (auto simp: numeric_max_def numeric_min_def)
  then show ?thesis
    using True assms str_to_int_minus_show_nat [of ty "nat (- v)"]
    by (auto simp: int_to_str_def IntToStr_convert_signed_def IntToStr_convert_unsigned_def convert_loop_show_nat)
next
  case False
  then have "0 \<le> v" "\<not> v < - numeric_max ty" "is_signed ty \<longrightarrow> v \<noteq> numeric_min ty"
    using assms numeric_range [of ty] by (auto simp: numeric_min_def split: if_splits)
  then show ?thesis
    using False assms str_to_int_show_nat [of "nat v" ty]
    by (auto simp: int_to_str_def IntToStr_convert_signed_def IntToStr_convert_unsigned_def convert_loop_show_nat)
qed

theorem int_to_str_roundtrip_witness:
  "int_to_str \<lparr>is_signed = True, value_bits = 7\<rparr> (- 128) 64 = []
   \<and> str_to_int \<lparr>is_signed = True, value_bits = 7\<rparr> (int_to_str \<lparr>is_signed = True, value_bits = 7\<rparr> (- 127) 64) = Some (- 127)"
proof -
  have d: "digits10 \<lparr>is_signed = True, value_bits = 7\<rparr> + 3 \<le> 64" by code_simp
  have ty: "numeric_min \<lparr>is_signed = True, value_bits = 7\<rparr> = - 128" "numeric_max \<lparr>is_signed = True, value_bits = 7\<rparr> = 127"
    by (simp_all add: numeric_min_def numeric_max_def)
  show ?thesis
    using int_to_str_roundtrip [OF _ _ d, of "- 128"] int_to_str_roundtrip [OF _ _ d, of "- 127"] unfolding ty
    by simp
qed

text \<open>
  (C24) Flattening turns every maximal run of the replaced characters into one replacement, and what
  it writes fits the buffer it reserved. With a replacement made of replaced characters the other
  characters stay as they are, and flattening twice with a single one is flattening once.
\<close>

theorem flatten_correct:
  "flatten owned s r = collapse owned r s
   \<and> length (flatten owned s r) \<le> length s * (if r = [] then 1 else length r)
   \<and> ((\<forall>c\<in>set r. owned c) \<longrightarrow> filter (\<lambda>c. \<not> owned c) (flatten owned s r) = filter (\<lambda>c. \<not> owned c) s)
   \<and> (owned x \<longrightarrow> flatten owned (flatten owned s [x]) [x] = flatten owned s [x])"
  by (simp add: flatten_def flatten_loop_collapse length_collapse filter_collapse collapse_idem)

theorem flatten_correct_witness:
  "flatten (\<lambda>c. c = CHR ''x'') ''axxb'' ''x'' = ''axb''
   \<and> flatten (\<lambda>c. c = CHR ''x'') ''axb'' ''x'' = ''axb''"
  using flatten_correct [of "\<lambda>c. c = CHR ''x''" "''axxb''" "''x''" "CHR ''x''"] by auto

text \<open>
  Comparing without case finds two strings equal exactly when they agree after conversion to
  lower case, in the same cases as testing equality, and swapping the strings inverts the result.
\<close>

theorem Caseless_correct:
  "(Caseless_compare cl str = 0 \<longleftrightarrow> to_lower_range cl = to_lower_range str)
   \<and> (Caseless_equal cl str \<longleftrightarrow> to_lower_range cl = to_lower_range str)
   \<and> sgn (Caseless_compare str cl) = - sgn (Caseless_compare cl str)
   \<and> (Caseless_start cl str \<longleftrightarrow> (\<exists>w rest. str = w @ rest \<and> to_lower_range w = to_lower_range cl))"
proof -
  have range: "to_lower_range s = map to_lower s" for s by (induction s) simp_all
  have "Caseless_start cl str \<longleftrightarrow> (\<exists>w rest. str = w @ rest \<and> map to_lower w = map to_lower cl)"
  proof
    assume "Caseless_start cl str"
    then have "str = take (length cl) str @ drop (length cl) str" "map to_lower (take (length cl) str) = map to_lower cl"
      by (simp_all add: Caseless_start_def Caseless_equal_iff)
    then show "\<exists>w rest. str = w @ rest \<and> map to_lower w = map to_lower cl" by blast
  qed (metis Caseless_start_append)
  then show ?thesis
    using Caseless_compare_swap [of str cl] by (simp add: range Caseless_compare_zero_iff Caseless_equal_iff)
qed

end
