(* ===== verification/Time_Format.thy ===== *)
theory Time_Format
  imports Calendar Ascii
begin

text \<open>
  Times as text, from src/src/Generics/Time.cpp and Time.hpp: the format language of \<^verbatim>\<open>to_str_\<close> and
  \<^verbatim>\<open>from_str_\<close>, the fixed formats of \<^verbatim>\<open>str\<close> and of the stream operators, and the names of months and
  week days.

  A formatting result is \<open>Inl FmtFailed\<close> where the code returns the length 0, and
  \<open>Inl FmtUndefined\<close> where it would read a table out of range. \<open>printf\<close>, \<open>scanf\<close> and stream
  extraction are modelled for the conversions that are used.
\<close>

named_theorems format_simps \<open>evaluation of formatting and parsing\<close>

section \<open>Names\<close>

definition DAYS_short :: "string list" where
  "DAYS_short = [''Sun'', ''Mon'', ''Tue'', ''Wed'', ''Thu'', ''Fri'', ''Sat'']"

definition DAYS_FULL :: "string list" where
  "DAYS_FULL = [''Sunday'', ''Monday'', ''Tuesday'', ''Wednesday'', ''Thursday'', ''Friday'', ''Saturday'']"

definition MONTHS_short :: "string list" where
  "MONTHS_short = [''Jan'', ''Feb'', ''Mar'', ''Apr'', ''May'', ''Jun'', ''Jul'', ''Aug'', ''Sep'', ''Oct'', ''Nov'', ''Dec'']"

definition MONTHS_FULL :: "string list" where
  "MONTHS_FULL = [''January'', ''February'', ''March'', ''April'', ''May'', ''June'', ''July'',
     ''August'', ''September'', ''October'', ''November'', ''December'']"

text \<open>The first index below \<open>n\<close> that satisfies the test, or \<open>n\<close>: the search loops over the tables.\<close>

function first_index :: "(nat \<Rightarrow> bool) \<Rightarrow> nat \<Rightarrow> nat \<Rightarrow> nat" where
  "first_index P i n = (if i < n then if P i then i else first_index P (Suc i) n else n)"
  by pat_completeness auto

termination first_index
  by (relation "measure (\<lambda>(_, i, n). n - i)") auto

declare first_index.simps [simp del]

definition Time_month_of_name :: "string \<Rightarrow> time_error + nat" where
  "Time_month_of_name mon =
     (if mon = [] then Inl InvalidArgument
      else let i = first_index (\<lambda>i. Caseless_equal (MONTHS_short ! i) mon) 0 12
           in if i < 12 then Inr i else Inl InvalidArgument)"

definition Time_month_name :: "nat \<Rightarrow> time_error + string" where
  "Time_month_name month = (if month > 11 then Inl InvalidArgument else Inr (MONTHS_short ! month))"

definition Time_week_day_of_name :: "string \<Rightarrow> time_error + nat" where
  "Time_week_day_of_name day =
     (if day = [] then Inl InvalidArgument
      else let i = first_index (\<lambda>i. Caseless_equal (DAYS_short ! i) day \<or> Caseless_equal (DAYS_FULL ! i) day) 0 7
           in if i < 7 then Inr i else Inl InvalidArgument)"

definition Time_week_day_name :: "nat \<Rightarrow> time_error + string" where
  "Time_week_day_name day = (if day > 6 then Inl InvalidArgument else Inr (DAYS_short ! day))"

section \<open>Parsing by a format\<close>

definition check_name :: "string \<Rightarrow> string \<Rightarrow> string option" where
  "check_name src cl = (if Caseless_start cl src then Some (drop (length cl) src) else None)"

definition check_names :: "string \<Rightarrow> string \<Rightarrow> string \<Rightarrow> string option" where
  "check_names src cl1 cl2 =
     (case check_name src cl1 of Some rest \<Rightarrow> Some rest | None \<Rightarrow> check_name src cl2)"

text \<open>The digits left to read, the number and the rest; it is entered at a digit.\<close>

fun read_number_loop :: "nat \<Rightarrow> int \<Rightarrow> string \<Rightarrow> nat \<times> int \<times> string" where
  "read_number_loop (Suc left) number (c # src) =
     (let number = number * 10 + (of_char c - 48)
      in if left \<noteq> 0 \<and> src \<noteq> [] \<and> CharTable_owned NUMBER (hd src) then read_number_loop left number src
         else (left, number, src))"
| "read_number_loop left number src = (left, number, src)"

definition read_number :: "nat \<Rightarrow> string \<Rightarrow> bool \<Rightarrow> (int \<times> string) option" where
  "read_number SIZE src strict =
     (if src = [] \<or> \<not> CharTable_owned NUMBER (hd src) \<or> strict \<and> length src < SIZE then None
      else case read_number_loop (min SIZE (length src)) 0 src of
             (left, number, src) \<Rightarrow> if \<not> strict \<or> left = 0 then Some (number, src) else None)"

definition read_field ::
    "nat \<Rightarrow> string \<Rightarrow> bool \<Rightarrow> (int \<Rightarrow> bool) \<Rightarrow> (int \<Rightarrow> ExtendedTime) \<Rightarrow> string \<Rightarrow> string + (ExtendedTime \<times> string)" where
  "read_field SIZE v strict ok upd err =
     (case read_number SIZE v strict of
        Some (n, v) \<Rightarrow> if ok n then Inr (upd n, v) else Inl err
      | None \<Rightarrow> Inl err)"

definition read_name ::
    "string list \<Rightarrow> string list \<Rightarrow> nat \<Rightarrow> string \<Rightarrow> (nat \<times> string) option" where
  "read_name full short n v =
     (let i = first_index (\<lambda>i. check_names v (full ! i) (short ! i) \<noteq> None) 0 n
      in if i = n then None else map_option (Pair i) (check_names v (full ! i) (short ! i)))"

definition from_str_directive ::
    "bool \<Rightarrow> ExtendedTime \<Rightarrow> string \<Rightarrow> char \<Rightarrow> string + (ExtendedTime \<times> string)" where
  "from_str_directive strict t v d =
     (if d = CHR ''%'' then
        (if v = [] \<or> hd v \<noteq> CHR ''%'' then Inl ''% sign is expected but not found'' else Inr (t, tl v))
      else if d = CHR ''a'' \<or> d = CHR ''A'' then
        (case read_name DAYS_FULL DAYS_short 7 v of
           None \<Rightarrow> Inl ''weekday name is expected but not found'' | Some (_, v) \<Rightarrow> Inr (t, v))
      else if d = CHR ''b'' \<or> d = CHR ''B'' \<or> d = CHR ''h'' then
        (case read_name MONTHS_FULL MONTHS_short 12 v of
           None \<Rightarrow> Inl ''month name is expected but not found'' | Some (m, v) \<Rightarrow> Inr (t\<lparr>tm_mon := int m\<rparr>, v))
      else if d = CHR ''d'' \<or> d = CHR ''e'' then
        read_field 2 v strict (\<lambda>n. \<not> (n < 1 \<or> n > 31)) (\<lambda>n. t\<lparr>tm_mday := n\<rparr>) ''day of month expected but not found''
      else if d = CHR ''H'' then
        read_field 2 v strict (\<lambda>n. \<not> n > 23) (\<lambda>n. t\<lparr>tm_hour := n\<rparr>) ''hours expected but not found''
      else if d = CHR ''m'' then
        read_field 2 v strict (\<lambda>n. \<not> (n < 1 \<or> n > 12)) (\<lambda>n. t\<lparr>tm_mon := n - 1\<rparr>) ''month number expected but not found''
      else if d = CHR ''M'' then
        read_field 2 v strict (\<lambda>n. \<not> n > 59) (\<lambda>n. t\<lparr>tm_min := n\<rparr>) ''minutes expected but not found''
      else if d = CHR ''q'' then
        read_field 6 v strict (\<lambda>n. \<not> n \<ge> USEC_MAX) (\<lambda>n. t\<lparr>tm_usec := n\<rparr>) ''microseconds expected but not found''
      else if d = CHR ''S'' then
        read_field 2 v strict (\<lambda>n. \<not> n > 59) (\<lambda>n. t\<lparr>tm_sec := n\<rparr>) ''seconds expected but not found''
      else if d = CHR ''Y'' then
        read_field 4 v strict (\<lambda>n. \<not> n < 1970) (\<lambda>n. t\<lparr>tm_year := n - 1900\<rparr>) ''year expected but not found''
      else Inl ''unknown format specifier'')"

text \<open>What is left of the value after the format is exhausted is ignored.\<close>

fun from_str_impl :: "bool \<Rightarrow> ExtendedTime \<Rightarrow> string \<Rightarrow> string \<Rightarrow> string + ExtendedTime" where
  "from_str_impl strict t v [] = Inr t"
| "from_str_impl strict t v (f # format) =
     (if f = CHR ''%'' then
        (case format of
           [] \<Rightarrow> Inl ''unknown format specifier''
         | d # format \<Rightarrow>
             (case from_str_directive strict t v d of
                Inl err \<Rightarrow> Inl err | Inr (t, v) \<Rightarrow> from_str_impl strict t v format))
      else if \<not> strict \<and> CharTable_owned SPACE f then
        from_str_impl strict t (dropWhile (CharTable_owned SPACE) v) format
      else if v = [] \<or> hd v \<noteq> f then Inl ''character is expected but not found''
      else from_str_impl strict t (tl v) format)"

text \<open>The time is parsed in GMT starting from the epoch. A null format is \<open>None\<close>.\<close>

definition Time_set_str :: "string \<Rightarrow> string option \<Rightarrow> bool \<Rightarrow> (time_error + timeval) option" where
  "Time_set_str v format strict =
     (case format of
        None \<Rightarrow> Some (Inl InvalidArgument)
      | Some format \<Rightarrow>
          (case from_str_impl strict (tm_extend (time_to_gm 0) 0 TZ_GMT) v format of
             Inl err \<Rightarrow> Some (Inl TimeException)
           | Inr time \<Rightarrow> map_option Inr (ExtendedTime_to_Time (\<lambda>_. None) time)))"

definition Time_set_f :: "string \<Rightarrow> bool \<Rightarrow> (time_error + timeval) option" where
  "Time_set_f v strict = Time_set_str v (Some ''%Y-%m-%d'') strict"

definition Time_set_ft :: "string \<Rightarrow> bool \<Rightarrow> (time_error + timeval) option" where
  "Time_set_ft v strict = Time_set_str v (Some ''%Y-%m-%d %H:%M:%S'') strict"

section \<open>Formatting\<close>

datatype fmt_error = FmtFailed | FmtUndefined

type_synonym mktime_fn = "tm \<Rightarrow> (int \<times> tm) option"

abbreviation int_ty :: int_type where "int_ty \<equiv> \<lparr>is_signed = True, value_bits = 31\<rparr>"
abbreviation time_ty :: int_type where "time_ty \<equiv> \<lparr>is_signed = True, value_bits = 63\<rparr>"

definition add_str :: "string \<Rightarrow> nat \<Rightarrow> string \<Rightarrow> fmt_error + string" where
  "add_str str buf_size src = (if length str + length src > buf_size then Inl FmtFailed else Inr (str @ src))"

definition add_num :: "int_type \<Rightarrow> string \<Rightarrow> nat \<Rightarrow> int \<Rightarrow> fmt_error + string" where
  "add_num ty str buf_size number =
     (let buf = int_to_str ty number 64 in if buf = [] then Inl FmtFailed else add_str str buf_size buf)"

text \<open>The digits are stored from the last one on; a negative number gives the characters below \<^verbatim>\<open>'0'\<close>.\<close>

primrec num_buf :: "nat \<Rightarrow> int \<Rightarrow> string" where
  "num_buf 0 number = []"
| "num_buf (Suc i) number = num_buf i (number sdiv 10) @ [char_of (nat ((number smod 10 + 48) mod 256))]"

definition add_num_fixed :: "nat \<Rightarrow> string \<Rightarrow> nat \<Rightarrow> int \<Rightarrow> fmt_error + string" where
  "add_num_fixed SIZE str buf_size number = add_str str buf_size (num_buf SIZE number)"

definition add_name :: "string list \<Rightarrow> int \<Rightarrow> string \<Rightarrow> nat \<Rightarrow> fmt_error + string" where
  "add_name names i str buf_size =
     (if 0 \<le> i \<and> i < int (length names) then add_str str buf_size (names ! nat i) else Inl FmtUndefined)"

definition add_zone :: "mktime_fn \<Rightarrow> ExtendedTime \<Rightarrow> string \<Rightarrow> nat \<Rightarrow> fmt_error + string" where
  "add_zone mktime t str buf_size =
     (if timezone t = TZ_GMT then add_str str buf_size ''+0000''
      else case mktime (tm.truncate t) of
             None \<Rightarrow> Inl FmtFailed
           | Some (sec, tmp) \<Rightarrow>
               if sec = -1 then Inl FmtFailed
               else let diff = tm_gmtoff tmp;
                        SIGN = (if diff < 0 then CHR ''-'' else CHR ''+'');
                        diff = (if diff < 0 then - diff else diff)
                    in result_bind (add_str str buf_size [SIGN])
                         (\<lambda>str. let diff = diff sdiv 60
                                in add_num_fixed 4 str buf_size (diff sdiv 60 * 100 + diff smod 60)))"

text \<open>Every conversion but \<^verbatim>\<open>%F\<close> and \<^verbatim>\<open>%T\<close>.\<close>

definition to_str_directive :: "mktime_fn \<Rightarrow> ExtendedTime \<Rightarrow> nat \<Rightarrow> string \<Rightarrow> char \<Rightarrow> fmt_error + string" where
  "to_str_directive mktime t buf_size str d =
     (if d = CHR ''%'' then (if buf_size = length str then Inl FmtFailed else Inr (str @ ''%''))
      else if d = CHR ''a'' then add_name DAYS_short (tm_wday t) str buf_size
      else if d = CHR ''A'' then add_name DAYS_FULL (tm_wday t) str buf_size
      else if d = CHR ''b'' \<or> d = CHR ''h'' then add_name MONTHS_short (tm_mon t) str buf_size
      else if d = CHR ''B'' then add_name MONTHS_FULL (tm_mon t) str buf_size
      else if d = CHR ''d'' then add_num_fixed 2 str buf_size (tm_mday t)
      else if d = CHR ''e'' then
        (let x = tm_mday t sdiv 10
         in add_str str buf_size [if x \<noteq> 0 then char_of (nat ((x + 48) mod 256)) else CHR '' '',
              char_of (nat ((tm_mday t smod 10 + 48) mod 256))])
      else if d = CHR ''H'' then add_num_fixed 2 str buf_size (tm_hour t)
      else if d = CHR ''k'' then add_num int_ty str buf_size (tm_hour t)
      else if d = CHR ''m'' then add_num_fixed 2 str buf_size (tm_mon t + 1)
      else if d = CHR ''M'' then add_num_fixed 2 str buf_size (tm_min t)
      else if d = CHR ''q'' then add_num_fixed 6 str buf_size (tm_usec t)
      else if d = CHR ''s'' then
        (case ExtendedTime_to_Time mktime t of
           None \<Rightarrow> Inl FmtUndefined | Some time \<Rightarrow> add_num time_ty str buf_size (tv_sec time))
      else if d = CHR ''S'' then add_num_fixed 2 str buf_size (tm_sec t)
      else if d = CHR ''Y'' then add_num_fixed 4 str buf_size (tm_year t + 1900)
      else if d = CHR ''z'' then add_zone mktime t str buf_size
      else Inl FmtFailed)"

text \<open>
  The result of a nested call is the text it wrote; length 0, which is a failure of the nested call,
  is a failure of the outer one. The nested formats contain no further \<^verbatim>\<open>%F\<close> or \<^verbatim>\<open>%T\<close>.
\<close>

function to_str_impl :: "mktime_fn \<Rightarrow> ExtendedTime \<Rightarrow> nat \<Rightarrow> string \<Rightarrow> string \<Rightarrow> fmt_error + string" where
  "to_str_impl mktime t buf_size str [] = Inr str"
| "to_str_impl mktime t buf_size str (f # format) =
     (if f = CHR ''%'' then
        (case format of
           [] \<Rightarrow> Inl FmtFailed
         | d # format \<Rightarrow>
             result_bind
               (if d = CHR ''F'' \<or> d = CHR ''T'' then
                  result_bind
                    (to_str_impl mktime t (buf_size - length str) []
                       (if d = CHR ''F'' then ''%Y-%m-%d'' else ''%H:%M:%S''))
                    (\<lambda>res. if res = [] then Inl FmtFailed else Inr (str @ res))
                else to_str_directive mktime t buf_size str d)
               (\<lambda>str. to_str_impl mktime t buf_size str format))
      else if buf_size = length str then Inl FmtFailed
      else to_str_impl mktime t buf_size (str @ [f]) format)"
  by pat_completeness auto

termination to_str_impl
  by (relation "inv_image (less_than <*lex*> less_than)
      (\<lambda>(_, _, _, _, format). (length (filter (\<lambda>c. c = CHR ''F'' \<or> c = CHR ''T'') format), length format))")
    auto

definition ExtendedTime_to_str :: "mktime_fn \<Rightarrow> ExtendedTime \<Rightarrow> nat \<Rightarrow> string \<Rightarrow> string option" where
  "ExtendedTime_to_str mktime t buf_size format =
     (case to_str_impl mktime t buf_size [] format of
        Inr str \<Rightarrow> Some str | Inl FmtFailed \<Rightarrow> Some [] | Inl FmtUndefined \<Rightarrow> None)"

definition ExtendedTime_format :: "mktime_fn \<Rightarrow> ExtendedTime \<Rightarrow> string option \<Rightarrow> (time_error + string) option" where
  "ExtendedTime_format mktime t fmt =
     (case fmt of
        None \<Rightarrow> Some (Inl InvalidArgument)
      | Some fmt \<Rightarrow> map_option (\<lambda>str. if str = [] then Inl TimeException else Inr str)
                      (ExtendedTime_to_str mktime t 256 fmt))"

definition Time_gm_f :: "timeval \<Rightarrow> (time_error + string) option" where
  "Time_gm_f t = ExtendedTime_format (\<lambda>_. None) (Time_get_gm_time t) (Some ''%F'')"

definition Time_gm_ft :: "timeval \<Rightarrow> (time_error + string) option" where
  "Time_gm_ft t = ExtendedTime_format (\<lambda>_. None) (Time_get_gm_time t) (Some ''%F %T'')"

section \<open>The fixed formats\<close>

text \<open>\<^verbatim>\<open>printf\<close> of a nonnegative number with at least \<open>w\<close> digits, and conversion to an unsigned type.\<close>

definition printf_min :: "nat \<Rightarrow> nat \<Rightarrow> string" where
  "printf_min w n = replicate (w - length (show_nat n)) (CHR ''0'') @ show_nat n"

definition to_unsigned :: "nat \<Rightarrow> int \<Rightarrow> nat" where
  "to_unsigned w i = nat (i mod 2 ^ w)"

definition Time_str :: "timeval \<Rightarrow> string" where
  "Time_str t =
     (let p = Time_print t
      in (if sign p < 0 then ''-'' else []) @ show_nat (to_unsigned 64 (integer_part p)) @ '':''
         @ (if fractional_part p < 0 then ''-'' else []) @ printf_min 6 (nat \<bar>fractional_part p\<bar>) @ '' (sec:usec)'')"

definition ExtendedTime_str :: "ExtendedTime \<Rightarrow> string" where
  "ExtendedTime_str t =
     take 26 (take 63
       (printf_min 4 (to_unsigned 32 (tm_year t + 1900)) @ ''-'' @ printf_min 2 (to_unsigned 32 (tm_mon t + 1))
        @ ''-'' @ printf_min 2 (to_unsigned 32 (tm_mday t)) @ ''.'' @ printf_min 2 (to_unsigned 32 (tm_hour t))
        @ '':'' @ printf_min 2 (to_unsigned 32 (tm_min t)) @ '':'' @ printf_min 2 (to_unsigned 32 (tm_sec t))
        @ ''.'' @ printf_min 6 (to_unsigned 32 (tm_usec t))))"

text \<open>The next word of a stream, and what follows it.\<close>

definition stream_word :: "string \<Rightarrow> string \<times> string" where
  "stream_word s =
     (let s = dropWhile (\<lambda>c. isspace (of_char c)) s
      in (takeWhile (\<lambda>c. \<not> isspace (of_char c)) s, dropWhile (\<lambda>c. \<not> isspace (of_char c)) s))"

text \<open>
  Extraction of a \<^verbatim>\<open>long\<close>: the sign and the digits that were found, and the rest of the stream; the
  end of the stream is seen exactly when the rest is empty.
\<close>

definition stream_long :: "string \<Rightarrow> bool \<times> string \<times> string" where
  "stream_long s =
     (let s = dropWhile (\<lambda>c. isspace (of_char c)) s;
          neg = (s \<noteq> [] \<and> hd s = CHR ''-'');
          s = (if s \<noteq> [] \<and> (hd s = CHR ''-'' \<or> hd s = CHR ''+'') then tl s else s)
      in (neg, takeWhile is_digit s, dropWhile is_digit s))"

definition long_value :: "bool \<Rightarrow> string \<Rightarrow> int" where
  "long_value neg ds = (if neg then - int (digits_val ds) else int (digits_val ds))"

definition long_ok :: "bool \<Rightarrow> string \<Rightarrow> bool" where
  "long_ok neg ds \<longleftrightarrow> ds \<noteq> [] \<and> - (2 ^ 63) \<le> long_value neg ds \<and> long_value neg ds < 2 ^ 63"

text \<open>
  Reading an interval. The code does not test for failure of the extractions: after a failed one the
  microseconds are not initialised, and a test that reads them is undefined (\<open>None\<close>); a number with no
  digits at the end is 0.
\<close>

definition Time_read :: "string \<Rightarrow> (time_error + timeval) option" where
  "Time_read istr =
     (let (timestr, istr) = stream_word istr;
          (suffix, istr) = stream_word istr;
          NEGATIVE = (timestr \<noteq> [] \<and> hd timestr = CHR ''-'');
          (neg, ds, rest) = stream_long timestr
      in if \<not> long_ok neg ds then
           (if rest \<noteq> [] \<or> suffix \<noteq> ''(sec:usec)'' then Some (Inl TimeException) else None)
         else let sec = long_value neg ds;
                  rest = dropWhile (\<lambda>c. isspace (of_char c)) rest
              in if rest = [] then (if suffix \<noteq> ''(sec:usec)'' then Some (Inl TimeException) else None)
                 else let (uneg, uds, rest) = stream_long (tl rest);
                          usec = long_value uneg uds
                      in if rest \<noteq> [] \<or> suffix \<noteq> ''(sec:usec)'' \<or> usec < 0 \<or> usec \<ge> USEC_MAX
                         then Some (Inl TimeException)
                         else Some (Inr (if NEGATIVE
                                then Time_mk (- \<bar>sec\<bar> - (if usec \<noteq> 0 then 1 else 0)) (if usec \<noteq> 0 then USEC_MAX - usec else 0)
                                else Time_mk sec usec)))"

text \<open>\<^verbatim>\<open>sscanf\<close> of \<^verbatim>\<open>%<w>lu\<close>: the sign counts for the width, and a minus negates modulo \<open>2^64\<close>.\<close>

definition scan_lu :: "nat \<Rightarrow> string \<Rightarrow> (int \<times> string) option" where
  "scan_lu w s =
     (let s = dropWhile (\<lambda>c. isspace (of_char c)) s;
          signed = (s \<noteq> [] \<and> (hd s = CHR ''-'' \<or> hd s = CHR ''+''));
          neg = (s \<noteq> [] \<and> hd s = CHR ''-'');
          s = (if signed then tl s else s);
          w = (if signed then w - 1 else w);
          ds = takeWhile is_digit (take w s)
      in if ds = [] then None else Some (long_value neg ds mod 2 ^ 64, drop (length ds) s))"

definition scan_char :: "char \<Rightarrow> string \<Rightarrow> string option" where
  "scan_char c s = (case s of [] \<Rightarrow> None | d # s \<Rightarrow> if c = d then Some s else None)"

fun scan_fields :: "(nat \<times> string) list \<Rightarrow> string \<Rightarrow> int list option" where
  "scan_fields [] s = Some []"
| "scan_fields ((w, sep) # fs) s =
     (case scan_lu w s of
        None \<Rightarrow> None
      | Some (n, s) \<Rightarrow>
          (case (if sep = [] then Some s else scan_char (hd sep) s) of
             None \<Rightarrow> None | Some s \<Rightarrow> map_option ((#) n) (scan_fields fs s)))"

text \<open>Conversion of an unsigned number to \<^verbatim>\<open>int\<close>.\<close>

definition to_int32 :: "int \<Rightarrow> int" where
  "to_int32 i = signed_take_bit 31 i"

text \<open>At the end of the stream the time stays as it was.\<close>

definition ExtendedTime_read :: "ExtendedTime \<Rightarrow> string \<Rightarrow> (time_error + ExtendedTime) option" where
  "ExtendedTime_read time istr =
     (let tmstr = fst (stream_word istr)
      in if tmstr = [] then Some (Inr time)
         else case scan_fields [(4, ''-''), (2, ''-''), (2, ''.''), (2, '':''), (2, '':''), (2, ''.''), (6, [])] tmstr of
           Some [year, month, day, hour, minute, sec, usec] \<Rightarrow>
             if year < 1900 \<or> month < 1 \<or> month > 12 \<or> day < 1 \<or> day > 31
                \<or> hour \<ge> 24 \<or> minute \<ge> 60 \<or> sec > 60 \<or> usec \<ge> 1000000
             then Some (Inl TimeException)
             else map_option Inr (ExtendedTime_of_parts (to_int32 year) month day hour minute sec usec)
         | _ \<Rightarrow> Some (Inl TimeException))"

section \<open>Lemmas\<close>

lemma num_buf_pad_digits: "0 \<le> n \<Longrightarrow> num_buf w n = pad_digits w (nat n)"
proof (induction w arbitrary: n)
  case (Suc w)
  have "nat ((n smod 10 + 48) mod 256) = nat n mod 10 + 48"
    using Suc.prems by (simp add: nat_mod_distrib nat_add_distrib)
  with Suc show ?case by (simp add: digit_char_def nat_div_distrib)
qed simp

lemma of_char_digit: "is_digit c \<Longrightarrow> (of_char c - 48 :: int) = int (digit_val c)"
  unfolding is_digit_def digit_val_def by (simp add: of_nat_diff of_nat_of_char)

lemma read_number_loop_digits:
  assumes "\<forall>c\<in>set ds. is_digit c" "ds \<noteq> []"
  shows "read_number_loop (length ds) number (ds @ rest) = (0, number * 10 ^ length ds + int (digits_val ds), rest)"
  using assms
proof (induction ds arbitrary: number)
  case (Cons c ds)
  then show ?case
    by (cases "ds = []")
      (auto simp: Let_def of_char_digit digits_val_Cons algebra_simps neq_Nil_conv)
qed simp

lemma read_number_pad:
  assumes "0 < w"
  shows "read_number w (pad_digits w n @ rest) strict = Some (int (n mod 10 ^ w), rest)"
proof -
  have "pad_digits w n \<noteq> []" using assms by simp
  then have "is_digit (hd (pad_digits w n))" by (metis list.set_sel(1) pad_digits_digits)
  with \<open>pad_digits w n \<noteq> []\<close> show ?thesis
    using read_number_loop_digits [of "pad_digits w n" 0 rest] by (simp add: read_number_def)
qed

lemma read_field_pad [format_simps]:
  assumes "0 < w"
  shows "read_field w (pad_digits w n @ rest) strict ok upd err =
    (if ok (int (n mod 10 ^ w)) then Inr (upd (int (n mod 10 ^ w)), rest) else Inl err)"
    "read_field w (pad_digits w n) strict ok upd err =
    (if ok (int (n mod 10 ^ w)) then Inr (upd (int (n mod 10 ^ w)), []) else Inl err)"
  using assms read_number_pad [of w n rest] read_number_pad [of w n "[]"] by (simp_all add: read_field_def)

lemma gm_to_time_cong:
  "tm_year a = tm_year b \<Longrightarrow> tm_mon a = tm_mon b \<Longrightarrow> tm_mday a = tm_mday b \<Longrightarrow> tm_hour a = tm_hour b
   \<Longrightarrow> tm_min a = tm_min b \<Longrightarrow> tm_sec a = tm_sec b \<Longrightarrow> gm_to_time a = gm_to_time b"
  by (simp add: gm_to_time_def Let_def)

lemma add_str_ok [format_simps]: "length str + length src \<le> n \<Longrightarrow> add_str str n src = Inr (str @ src)"
  by (simp add: add_str_def)

lemma add_num_fixed_ok [format_simps]:
  "0 \<le> number \<Longrightarrow> length str + w \<le> n \<Longrightarrow> add_num_fixed w str n number = Inr (str @ pad_digits w (nat number))"
  by (simp add: add_num_fixed_def num_buf_pad_digits add_str_ok)

definition date_text :: "ExtendedTime \<Rightarrow> string" where
  "date_text t = pad_digits 4 (nat (tm_year t + 1900)) @ ''-'' @ pad_digits 2 (nat (tm_mon t + 1))
     @ ''-'' @ pad_digits 2 (nat (tm_mday t))"

definition clock_text :: "ExtendedTime \<Rightarrow> string" where
  "clock_text t = pad_digits 2 (nat (tm_hour t)) @ '':'' @ pad_digits 2 (nat (tm_min t))
     @ '':'' @ pad_digits 2 (nat (tm_sec t))"

lemma length_texts [simp]: "length (date_text t) = 10" "length (clock_text t) = 8"
  by (simp_all add: date_text_def clock_text_def)

lemma texts_nonempty [simp]: "date_text t \<noteq> []" "clock_text t \<noteq> []"
  using length_texts [of t] by (metis length_0_conv zero_neq_numeral)+

lemma to_str_F:
  assumes "tm_ok t" "length str + 10 \<le> n"
  shows "to_str_impl mktime t (n - length str) [] ''%Y-%m-%d'' = Inr (date_text t)"
  using assms by (auto simp: to_str_directive_def add_num_fixed_ok date_text_def tm_ok_def)

lemma to_str_T:
  assumes "tm_ok t" "length str + 8 \<le> n"
  shows "to_str_impl mktime t (n - length str) [] ''%H:%M:%S'' = Inr (clock_text t)"
  using assms by (auto simp: to_str_directive_def add_num_fixed_ok clock_text_def tm_ok_def)

lemma format_F: "tm_ok t \<Longrightarrow> ExtendedTime_format mktime t (Some ''%F'') = Some (Inr (date_text t))"
  using to_str_F [of t "[]" 256 mktime] by (simp add: ExtendedTime_format_def ExtendedTime_to_str_def)

lemma format_FT:
  "tm_ok t \<Longrightarrow> ExtendedTime_format mktime t (Some ''%F %T'') = Some (Inr (date_text t @ '' '' @ clock_text t))"
  using to_str_F [of t "[]" 256 mktime] to_str_T [of t "date_text t @ '' ''" 256 mktime]
  by (simp add: ExtendedTime_format_def ExtendedTime_to_str_def)

lemma isspace_simps [simp]: "\<not> isspace 45" "\<not> isspace 58" "isspace 32"
  by (simp_all add: isspace_def)

lemma not_isspace_pad: "w > 0 \<Longrightarrow> \<not> isspace (of_char (hd (pad_digits w n)))"
  using pad_digits_digits [of "hd (pad_digits w n)" w n] by (auto simp: is_digit_def isspace_def)

lemma dropWhile_space_pad:
  assumes "0 < w"
  shows "dropWhile (\<lambda>c. isspace (of_char c)) (pad_digits w n @ s) = pad_digits w n @ s"
  using not_isspace_pad [OF assms, of n] length_pad_digits [of w n] assms
  by (cases "pad_digits w n") auto

lemma month_length_le: "0 \<le> m \<Longrightarrow> m < 12 \<Longrightarrow> month_length leap m \<le> 31"
proof -
  assume "0 \<le> m" "m < 12"
  then have "nat m \<in> set [0..<12]" by auto
  moreover have "list_all (\<lambda>k. list_all (\<lambda>leap. month_length leap (int k) \<le> 31) [True, False]) [0..<12]" by code_simp
  ultimately have "month_length leap (int (nat m)) \<le> 31"
    unfolding list_all_iff by (cases leap) (auto simp del: int_nat_eq)
  with \<open>0 \<le> m\<close> show ?thesis by simp
qed

text \<open>Parsing the printed date and clock sets exactly their fields.\<close>

lemma fields_small:
  assumes "tm_ok t" "tm_year t + 1900 \<le> 9999"
  shows "nat (tm_year t + 1900) mod 10 ^ 4 = nat (tm_year t + 1900)" "nat (tm_mon t + 1) mod 10 ^ 2 = nat (tm_mon t + 1)"
    "nat (tm_mday t) mod 10 ^ 2 = nat (tm_mday t)" "nat (tm_hour t) mod 10 ^ 2 = nat (tm_hour t)"
    "nat (tm_min t) mod 10 ^ 2 = nat (tm_min t)" "nat (tm_sec t) mod 10 ^ 2 = nat (tm_sec t)" "tm_mday t \<le> 31"
  using assms month_length_le [of "tm_mon t" "leap_year (tm_year t - 70)"] by (auto simp: tm_ok_def)

lemma parse_date:
  assumes "tm_ok t" "tm_year t + 1900 \<le> 9999"
  shows "from_str_impl strict t0 (date_text t @ rest) (''%Y-%m-%d'' @ format) =
    from_str_impl strict (t0\<lparr>tm_year := tm_year t, tm_mon := tm_mon t, tm_mday := tm_mday t\<rparr>) rest format"
  using assms fields_small [OF assms]
  by (simp add: date_text_def from_str_directive_def read_field_pad tm_ok_def isspace_simps)

lemma parse_clock:
  assumes "tm_ok t" "tm_year t + 1900 \<le> 9999"
  shows "from_str_impl strict t0 (clock_text t @ rest) (''%H:%M:%S'' @ format) =
    from_str_impl strict (t0\<lparr>tm_hour := tm_hour t, tm_min := tm_min t, tm_sec := tm_sec t\<rparr>) rest format"
  using assms fields_small [OF assms]
  by (simp add: clock_text_def from_str_directive_def read_field_pad tm_ok_def)

lemma add_str_length: "add_str str n src = Inr s \<Longrightarrow> length s \<le> n"
  by (auto simp: add_str_def split: if_splits)

lemma add_num_length: "add_num ty str n number = Inr s \<Longrightarrow> length s \<le> n"
  by (auto simp: add_num_def Let_def dest: add_str_length split: if_splits)

lemma to_str_directive_length:
  assumes "to_str_directive mktime t n str d = Inr s" "length str \<le> n"
  shows "length s \<le> n"
  using assms unfolding to_str_directive_def add_name_def add_num_fixed_def add_zone_def
  by (auto simp: Let_def result_bind_def dest: add_str_length add_num_length
      split: if_splits option.splits prod.splits sum.splits)

lemma to_str_impl_length:
  "to_str_impl mktime t n str format = Inr s \<Longrightarrow> length str \<le> n \<Longrightarrow> length s \<le> n"
proof (induction mktime t n str format arbitrary: s rule: to_str_impl.induct)
  case (2 mktime t n str f format)
  note eq = "2.prems"(1) [unfolded to_str_impl.simps(2)]
  show ?case
  proof (cases "f = CHR ''%''")
    case True
    then obtain d format' where d: "format = d # format'"
      using eq by (cases format) auto
    let ?F = "if d = CHR ''F'' then ''%Y-%m-%d'' else ''%H:%M:%S''"
    let ?r = "if d = CHR ''F'' \<or> d = CHR ''T'' then
                  result_bind (to_str_impl mktime t (n - length str) [] ?F)
                    (\<lambda>res. if res = [] then Inl FmtFailed else Inr (str @ res))
                else to_str_directive mktime t n str d"
    have "result_bind ?r (\<lambda>str. to_str_impl mktime t n str format') = Inr s"
      using eq unfolding True d by (simp only: if_True list.case refl)
    then obtain str' where str': "?r = Inr str'" "to_str_impl mktime t n str' format' = Inr s"
      unfolding result_bind_eq_Inr by blast
    have "length str' \<le> n"
    proof (cases "d = CHR ''F'' \<or> d = CHR ''T''")
      case FT: True
      have "result_bind (to_str_impl mktime t (n - length str) [] ?F)
          (\<lambda>res. if res = [] then Inl FmtFailed else Inr (str @ res)) = Inr str'"
        using str'(1) by (simp only: FT if_True)
      then obtain res where res: "to_str_impl mktime t (n - length str) [] ?F = Inr res" "str' = str @ res"
        unfolding result_bind_eq_Inr by (metis Inl_Inr_False Inr_inject)
      show ?thesis using "2.IH"(1) [OF True d FT res(1)] res(2) "2.prems"(2) by simp
    next
      case False
      then have "to_str_directive mktime t n str d = Inr str'" using str'(1) by (simp only: if_False)
      then show ?thesis using "2.prems"(2) by (rule to_str_directive_length)
    qed
    then show ?thesis using "2.IH"(2) [OF True d str'(2)] by simp
  next
    case False
    then show ?thesis using eq "2.prems"(2) "2.IH"(3) [OF False] by (auto split: if_splits)
  qed
qed simp

lemma read_number_loop_nonneg:
  "0 \<le> number \<Longrightarrow> (src \<noteq> [] \<Longrightarrow> is_digit (hd src)) \<Longrightarrow> 0 \<le> fst (snd (read_number_loop left number src))"
  by (induction left number src rule: read_number_loop.induct) (auto simp: Let_def of_char_digit)

lemma read_field_Inr:
  assumes "read_field w v strict ok upd err = Inr (t, v')"
  shows "\<exists>n. 0 \<le> n \<and> ok n \<and> t = upd n"
  using assms read_number_loop_nonneg [of 0 v "min w (length v)"]
  by (auto simp: read_field_def read_number_def split: option.splits if_splits prod.splits)

lemma first_index_le: "i \<le> n \<Longrightarrow> i \<le> first_index P i n \<and> first_index P i n \<le> n"
  by (induction P i n rule: first_index.induct) (subst (1 2) first_index.simps, auto)

lemma read_name_Some: "read_name full short n v = Some (i, v') \<Longrightarrow> i < n"
  using first_index_le [of 0 n "\<lambda>i. check_names v (full ! i) (short ! i) \<noteq> None"]
  by (auto simp: read_name_def Let_def split: if_splits)

text \<open>The month stays in the range of the table whatever is parsed.\<close>

definition month_ok :: "ExtendedTime \<Rightarrow> bool" where
  "month_ok t \<longleftrightarrow> 0 \<le> tm_mon t \<and> tm_mon t < 12 \<and> timezone t = TZ_GMT"

lemma month_ok_upd [simp]:
  "month_ok (t\<lparr>tm_mday := n\<rparr>) = month_ok t" "month_ok (t\<lparr>tm_hour := n\<rparr>) = month_ok t"
  "month_ok (t\<lparr>tm_min := n\<rparr>) = month_ok t" "month_ok (t\<lparr>tm_sec := n\<rparr>) = month_ok t"
  "month_ok (t\<lparr>tm_usec := n\<rparr>) = month_ok t" "month_ok (t\<lparr>tm_year := n\<rparr>) = month_ok t"
  by (simp_all add: month_ok_def)

lemma month_ok_set: "month_ok t \<Longrightarrow> 0 \<le> m \<Longrightarrow> m < 12 \<Longrightarrow> month_ok (t\<lparr>tm_mon := m\<rparr>)"
  by (simp add: month_ok_def)

definition keeps_month :: "string + ExtendedTime \<times> string \<Rightarrow> bool" where
  "keeps_month r \<longleftrightarrow> (\<forall>t v. r = Inr (t, v) \<longrightarrow> month_ok t)"

lemma keeps_month_if: "keeps_month x \<Longrightarrow> keeps_month y \<Longrightarrow> keeps_month (if b then x else y)"
  by simp

lemma keeps_month_read_field:
  assumes "\<And>n. 0 \<le> n \<Longrightarrow> ok n \<Longrightarrow> month_ok (upd n)"
  shows "keeps_month (read_field w v strict ok upd err)"
  using read_field_Inr [of w v strict ok upd err] assms unfolding keeps_month_def by blast

lemma from_str_directive_month: "month_ok t \<Longrightarrow> keeps_month (from_str_directive strict t v d)"
  unfolding from_str_directive_def
  by (intro keeps_month_if keeps_month_read_field)
    (auto simp: keeps_month_def dest!: read_name_Some intro!: month_ok_set split: option.splits)

lemma from_str_impl_month:
  assumes "from_str_impl strict t v format = Inr t'" "month_ok t"
  shows "month_ok t'"
  using assms
proof (induction strict t v format rule: from_str_impl.induct)
  case (2 strict t v f format)
  show ?case
  proof (cases "f = CHR ''%''")
    case True
    then obtain d format' t'' v'' where d: "format = d # format'" "from_str_directive strict t v d = Inr (t'', v'')"
      "from_str_impl strict t'' v'' format' = Inr t'"
      using "2.prems"(1) by (auto split: list.splits sum.splits)
    have "month_ok t''"
      using from_str_directive_month [OF "2.prems"(2), of strict v d] d(2) by (simp add: keeps_month_def)
    with d show ?thesis by (intro "2.IH"(1) [OF True d(1) d(2) refl])
  next
    case False
    then show ?thesis using "2.prems" "2.IH"(2,3) by (auto split: if_splits)
  qed
qed simp

lemma tm_extend_sel [simp]:
  "tm_year (tm_extend et usec tz) = tm_year et" "tm_mon (tm_extend et usec tz) = tm_mon et"
  "tm_mday (tm_extend et usec tz) = tm_mday et" "tm_hour (tm_extend et usec tz) = tm_hour et"
  "tm_min (tm_extend et usec tz) = tm_min et" "tm_sec (tm_extend et usec tz) = tm_sec et"
  "tm_wday (tm_extend et usec tz) = tm_wday et"
  by (simp_all add: tm_extend_def tm.extend_def)

lemma tm_truncate_sel [simp]:
  "tm_year (tm.truncate t) = tm_year t" "tm_mon (tm.truncate t) = tm_mon t"
  "tm_mday (tm.truncate t) = tm_mday t" "tm_hour (tm.truncate t) = tm_hour t"
  "tm_min (tm.truncate t) = tm_min t" "tm_sec (tm.truncate t) = tm_sec t"
  by (simp_all add: tm.truncate_def)

lemma set_fields:
  assumes "from_str_impl strict (tm_extend (time_to_gm 0) 0 TZ_GMT) v format = Inr t"
    "timezone t = TZ_GMT" "tm_usec t = 0" "gm_to_time (tm.truncate t) = Some s"
  shows "Time_set_str v (Some format) strict = Some (Inr (Time_mk s 0))"
  using assms by (simp add: Time_set_str_def ExtendedTime_to_Time_def)

lemma parse_space:
  "from_str_impl strict t ('' '' @ clock_text g @ rest) ('' '' @ format) = from_str_impl strict t (clock_text g @ rest) format"
proof -
  have "CharTable_owned SPACE = (\<lambda>c. isspace (of_char c))" by (simp add: fun_eq_iff)
  then show ?thesis by (simp add: clock_text_def dropWhile_space_pad)
qed

lemma parse_date_clock:
  assumes "tm_ok t" "tm_year t + 1900 \<le> 9999"
  shows "from_str_impl strict t0 (date_text t @ '' '' @ clock_text t) ''%Y-%m-%d %H:%M:%S'' =
    Inr (t0\<lparr>tm_year := tm_year t, tm_mon := tm_mon t, tm_mday := tm_mday t,
      tm_hour := tm_hour t, tm_min := tm_min t, tm_sec := tm_sec t\<rparr>)"
proof -
  have "from_str_impl strict t0 (date_text t @ '' '' @ clock_text t @ []) (''%Y-%m-%d'' @ '' '' @ ''%H:%M:%S'' @ []) =
    Inr (t0\<lparr>tm_year := tm_year t, tm_mon := tm_mon t, tm_mday := tm_mday t,
      tm_hour := tm_hour t, tm_min := tm_min t, tm_sec := tm_sec t\<rparr>)"
    by (simp only: parse_date [OF assms] parse_space parse_clock [OF assms] from_str_impl.simps(1))
  then show ?thesis by (simp only: append.simps append_Nil2)
qed

lemma digit_char_0: "digit_char 0 = CHR ''0''"
  by code_simp

lemma pad_digits_0: "pad_digits w 0 = replicate w (CHR ''0'')"
  by (induction w) (simp_all add: digit_char_0 replicate_append_same)

lemma printf_min_pad: "0 < w \<Longrightarrow> n < 10 ^ w \<Longrightarrow> printf_min w n = pad_digits w n"
proof (induction w arbitrary: n)
  case (Suc w)
  show ?case
  proof (cases "n < 10")
    case True
    then show ?thesis by (simp add: printf_min_def show_nat.simps [of n] pad_digits_0)
  next
    case False
    with Suc have "0 < w" "n div 10 < 10 ^ w" by (cases w; auto simp: less_mult_imp_div_less)+
    with Suc.IH False show ?thesis by (simp add: printf_min_def show_nat.simps [of n])
  qed
qed simp

lemma is_digit_not_space [simp]: "is_digit c \<Longrightarrow> \<not> isspace (of_char c)"
  by (auto simp: is_digit_def isspace_def)

lemma not_digit_colon: "\<not> is_digit CHR '':''"
  by (simp add: is_digit_def)

lemma span_digits:
  assumes "\<forall>c\<in>set ds. is_digit c" "rest = [] \<or> \<not> is_digit (hd rest)"
  shows "takeWhile is_digit (ds @ rest) = ds" "dropWhile is_digit (ds @ rest) = rest"
  using assms by (cases rest; simp add: takeWhile_append dropWhile_append takeWhile_eq_all_conv dropWhile_eq_Nil_conv)+

lemma stream_long_digits:
  assumes "\<forall>c\<in>set ds. is_digit c" "ds \<noteq> []" "rest = [] \<or> \<not> is_digit (hd rest)"
  shows "stream_long (ds @ rest) = (False, ds, rest)" "stream_long (CHR ''-'' # ds @ rest) = (True, ds, rest)"
proof -
  obtain c cs where ds: "ds = c # cs" using assms(2) by (cases ds) auto
  then have "is_digit c" using assms(1) by simp
  then have "c \<noteq> CHR ''-''" "c \<noteq> CHR ''+''" "\<not> isspace (of_char c)" using not_digit_signs by auto
  then show "stream_long (ds @ rest) = (False, ds, rest)" "stream_long (CHR ''-'' # ds @ rest) = (True, ds, rest)"
    using span_digits [OF assms(1,3)] by (auto simp: stream_long_def Let_def ds)
qed

lemma stream_word_ok:
  assumes "w \<noteq> []" "\<forall>c\<in>set w. \<not> isspace (of_char c)"
  shows "stream_word (w @ CHR '' '' # r) = (w, CHR '' '' # r)" "stream_word (CHR '' '' # w) = (w, [])" "stream_word w = (w, [])"
  using assms
  by (cases w; simp add: stream_word_def Let_def takeWhile_append dropWhile_append takeWhile_eq_all_conv dropWhile_eq_Nil_conv)+

lemma Time_read_text:
  assumes "integer < 2 ^ 63" "fraction < 10 ^ 6"
  shows "Time_read ((if neg then ''-'' else []) @ show_nat integer @ '':'' @ pad_digits 6 fraction @ '' (sec:usec)'')
    = Some (Inr (if neg then Time_mk (- int integer - (if fraction \<noteq> 0 then 1 else 0)) (if fraction \<noteq> 0 then USEC_MAX - int fraction else 0)
                 else Time_mk (int integer) (int fraction)))"
proof -
  let ?w = "(if neg then ''-'' else []) @ show_nat integer @ '':'' @ pad_digits 6 fraction"
  have word: "?w \<noteq> []" "\<forall>c\<in>set ?w. \<not> isspace (of_char c)"
    by (auto dest!: show_nat_digits pad_digits_digits is_digit_not_space)
  have words: "stream_word (?w @ '' (sec:usec)'') = (?w, '' (sec:usec)'')" "stream_word '' (sec:usec)'' = (''(sec:usec)'', [])"
    using stream_word_ok(1) [OF word, of "''(sec:usec)''"] stream_word_ok(2) [of "''(sec:usec)''"]
    by (simp_all add: isspace_def)
  have head: "?w \<noteq> [] \<and> hd ?w = CHR ''-'' \<longleftrightarrow> neg"
    using show_nat_not_sign [of integer] show_nat_nonempty [of integer]
    by (cases "show_nat integer") (auto simp del: show_nat_nonempty)
  have long: "stream_long ?w = (neg, show_nat integer, '':'' @ pad_digits 6 fraction)"
    "stream_long (pad_digits 6 fraction) = (False, pad_digits 6 fraction, [])"
    using stream_long_digits [of "show_nat integer" "'':'' @ pad_digits 6 fraction"]
      stream_long_digits(1) [of "pad_digits 6 fraction" "[]"]
    by (auto simp: not_digit_colon)
  have ok: "long_ok neg (show_nat integer)" "long_value False (pad_digits 6 fraction) = int fraction"
    "long_value neg (show_nat integer) = (if neg then - int integer else int integer)"
    using assms by (auto simp: long_ok_def long_value_def)
  obtain w where w: "?w = w" by blast
  note facts = words [unfolded w] head [unfolded w] long [unfolded w]
  have "Time_read (w @ '' (sec:usec)'') = Some (Inr (if neg then Time_mk (- int integer - (if fraction \<noteq> 0 then 1 else 0)) (if fraction \<noteq> 0 then USEC_MAX - int fraction else 0)
                 else Time_mk (int integer) (int fraction)))"
    using assms(2) facts(3) ok
    by (cases neg) (auto simp: Time_read_def facts Let_def USEC_MAX_def)
  then show ?thesis by (simp flip: w)
qed

lemma scan_lu_pad:
  assumes "0 < w" "n < 10 ^ w" "w \<le> 6"
  shows "scan_lu w (pad_digits w n @ rest) = Some (int n, rest)"
proof -
  have hd: "is_digit (hd (pad_digits w n))" using assms(1) by (metis less_irrefl list.set_sel(1) pad_digits_digits pad_digits_eq_Nil)
  then have hd': "hd (pad_digits w n) \<noteq> CHR ''-''" "hd (pad_digits w n) \<noteq> CHR ''+''" using not_digit_signs by metis+
  have "(10 :: nat) ^ w \<le> 10 ^ 6" using assms(3) by (rule power_increasing) simp
  then have "int n mod 2 ^ 64 = int n" using assms(2) by simp
  moreover have tw: "takeWhile is_digit (pad_digits w n) = pad_digits w n" by (simp add: takeWhile_eq_all_conv)
  ultimately show ?thesis
    using assms hd hd' by (simp add: tw scan_lu_def Let_def dropWhile_space_pad long_value_def)
qed

lemma scan_fields_pad:
  assumes "0 < w" "n < 10 ^ w" "w \<le> 6"
  shows "scan_fields ((w, [c]) # fs) (pad_digits w n @ c # rest) = map_option ((#) (int n)) (scan_fields fs rest)"
    "scan_fields [(w, [])] (pad_digits w n) = Some [int n]"
  using scan_lu_pad [OF assms, of "c # rest"] scan_lu_pad [OF assms, of "[]"] by (simp_all add: scan_char_def)

lemma printf_field:
  "0 < w \<Longrightarrow> w \<le> 6 \<Longrightarrow> 0 \<le> i \<Longrightarrow> i < 10 ^ w \<Longrightarrow> printf_min w (to_unsigned 32 i) = pad_digits w (nat i)"
proof -
  assume *: "0 < w" "w \<le> 6" "0 \<le> i" "i < 10 ^ w"
  have "(10 :: int) ^ w \<le> 10 ^ 6" using *(2) by (rule power_increasing) simp
  then have "to_unsigned 32 i = nat i" using * by (simp add: to_unsigned_def)
  moreover have "nat i < 10 ^ w" using * by (simp add: nat_less_iff)
  ultimately show ?thesis using * by (simp add: printf_min_pad)
qed

section \<open>Properties\<close>

text \<open>
  (C18) A moment from 1970 to the end of 9999 printed with date and clock is read back to the second,
  strictly or not; printed with the date only, it is read back as the midnight that begins its day.
\<close>

theorem Time_gm_ft_roundtrip:
  assumes "0 \<le> tv_sec t" "tm_year (time_to_gm (tv_sec t)) + 1900 \<le> 9999"
  shows "\<exists>s d. Time_gm_ft t = Some (Inr s) \<and> Time_set_ft s strict = Some (Inr (Time_mk (tv_sec t) 0))
    \<and> Time_gm_f t = Some (Inr d)
    \<and> Time_set_f d strict = Some (Inr (Time_mk (tv_sec t - tv_sec t mod 86400) 0))"
proof -
  let ?g = "Time_get_gm_time t" and ?e = "tm_extend (time_to_gm 0) 0 TZ_GMT" and ?m = "time_to_gm (tv_sec t)"
  let ?d = "?e\<lparr>tm_year := tm_year ?g, tm_mon := tm_mon ?g, tm_mday := tm_mday ?g\<rparr>"
  let ?f = "?d\<lparr>tm_hour := tm_hour ?g, tm_min := tm_min ?g, tm_sec := tm_sec ?g\<rparr>"
  have m: "tm_ok ?m" using time_to_gm_ok [OF assms(1)] .
  then have ok: "tm_ok ?g" "tm_year ?g + 1900 \<le> 9999"
    using assms(2) by (simp_all add: Time_get_gm_time_def tm_ok_def)
  have sec: "tv_sec t = day_number ?m * 86400 + clock_number ?m"
    using gm_to_time_of_time_to_gm [OF assms(1)] gm_to_time_numbers [OF m] by simp
  have "gm_to_time (tm.truncate ?f) = gm_to_time ?m"
    by (rule gm_to_time_cong) (simp_all add: Time_get_gm_time_def)
  moreover have "from_str_impl strict ?e (date_text ?g @ '' '' @ clock_text ?g) ''%Y-%m-%d %H:%M:%S'' = Inr ?f"
    by (rule parse_date_clock [OF ok])
  ultimately have ft: "Time_set_ft (date_text ?g @ '' '' @ clock_text ?g) strict = Some (Inr (Time_mk (tv_sec t) 0))"
    unfolding Time_set_ft_def using gm_to_time_of_time_to_gm [OF assms(1)] by (intro set_fields) simp_all
  have "gm_to_time (tm.truncate ?d) = Some (day_number ?m * 86400)"
    using m time_to_gm_sel [of 0]
    by (subst gm_to_time_numbers) (simp_all add: tm_ok_def day_number_def clock_number_def Time_get_gm_time_def)
  moreover have "day_number ?m * 86400 = tv_sec t - tv_sec t mod 86400"
  proof -
    have "tv_sec t mod 86400 = (day_number ?m * 86400 + clock_number ?m) mod 86400" by (subst sec) (rule refl)
    with sec show ?thesis using seconds_in_day(2) [of "clock_number ?m" "day_number ?m"] clock_number_bounds [OF m] by linarith
  qed
  moreover have "from_str_impl strict ?e (date_text ?g) ''%Y-%m-%d'' = Inr ?d"
    using parse_date [OF ok, of strict ?e "[]" "[]"] by simp
  ultimately have "Time_set_f (date_text ?g) strict = Some (Inr (Time_mk (tv_sec t - tv_sec t mod 86400) 0))"
    unfolding Time_set_f_def by (intro set_fields) simp_all
  with ft show ?thesis
    using format_F [OF ok(1), of "\<lambda>_. None"] format_FT [OF ok(1), of "\<lambda>_. None"]
    by (simp add: Time_gm_f_def Time_gm_ft_def)
qed

theorem Time_gm_ft_roundtrip_witness:
  "\<exists>s. Time_gm_ft (Time_mk 951868799 7) = Some (Inr s) \<and> Time_set_ft s True = Some (Inr (Time_mk 951868799 0))"
proof -
  have "0 \<le> tv_sec (Time_mk 951868799 7)" "tm_year (time_to_gm (tv_sec (Time_mk 951868799 7))) + 1900 \<le> 9999"
    by code_simp+
  from Time_gm_ft_roundtrip [OF this, of True] show ?thesis by (auto simp: Time_mk_def)
qed

text \<open>
  (C25) A valid time up to the end of 9999 printed in the fixed format of 26 characters is read back
  with the same date, clock and microseconds, in GMT.
\<close>

theorem ExtendedTime_str_roundtrip:
  assumes "tm_ok t" "tm_year t + 1900 \<le> 9999" "0 \<le> tm_usec t" "tm_usec t < 1000000"
  shows "length (ExtendedTime_str t) = 26 \<and>
    (\<exists>n. ExtendedTime_read old (ExtendedTime_str t) = Some (Inr n)
      \<and> tm_year n = tm_year t \<and> tm_mon n = tm_mon t \<and> tm_mday n = tm_mday t
      \<and> tm_hour n = tm_hour t \<and> tm_min n = tm_min t \<and> tm_sec n = tm_sec t
      \<and> tm_usec n = tm_usec t \<and> timezone n = TZ_GMT)"
proof -
  let ?s = "pad_digits 4 (nat (tm_year t + 1900)) @ ''-'' @ pad_digits 2 (nat (tm_mon t + 1))
     @ ''-'' @ pad_digits 2 (nat (tm_mday t)) @ ''.'' @ pad_digits 2 (nat (tm_hour t)) @ '':'' @ pad_digits 2 (nat (tm_min t))
     @ '':'' @ pad_digits 2 (nat (tm_sec t)) @ ''.'' @ pad_digits 6 (nat (tm_usec t))"
  have r: "70 \<le> tm_year t" "0 \<le> tm_mon t" "tm_mon t < 12" "1 \<le> tm_mday t" "tm_mday t \<le> 31" "0 \<le> tm_hour t" "tm_hour t < 24"
    "0 \<le> tm_min t" "tm_min t < 60" "0 \<le> tm_sec t" "tm_sec t < 60"
    using assms fields_small(7) [OF assms(1,2)] by (simp_all add: tm_ok_def)
  have str: "ExtendedTime_str t = ?s"
    using r assms by (simp add: ExtendedTime_str_def printf_field)
  have "\<forall>c\<in>set ?s. \<not> isspace (of_char c)"
    by (auto dest!: pad_digits_digits is_digit_not_space simp: isspace_def)
  then have word: "fst (stream_word ?s) = ?s" using stream_word_ok(3) [of ?s] by simp
  let ?fs = "[(4, ''-''), (2, ''-''), (2, ''.''), (2, '':''), (2, '':''), (2, ''.''), (6, [])]"
  have fields: "scan_fields ?fs ?s = Some [tm_year t + 1900, tm_mon t + 1, tm_mday t, tm_hour t, tm_min t, tm_sec t, tm_usec t]"
    using r assms by (simp add: scan_fields_pad nat_less_iff del: scan_fields.simps)
  let ?p = "tm_zero\<lparr>tm_year := tm_year t, tm_mon := tm_mon t, tm_mday := tm_mday t,
          tm_hour := tm_hour t, tm_min := tm_min t, tm_sec := tm_sec t\<rparr>"
  have ok: "tm_ok ?p" using assms(1) by (simp add: tm_ok_def)
  then obtain s where s: "gm_to_time ?p = Some s" using gm_to_time_ok by blast
  have "to_int32 (tm_year t + 1900) = tm_year t + 1900"
    unfolding to_int32_def using assms r by (simp add: signed_take_bit_int_eq_self)
  moreover obtain s0 where s0: "?s = s0" "s0 \<noteq> []" by simp
  note word [unfolded s0(1)] fields [unfolded s0(1)]
  ultimately have "ExtendedTime_read old s0 = Some (Inr (tm_extend (time_to_gm s) (tm_usec t) TZ_GMT))"
    using r assms s s0(2) by (simp add: ExtendedTime_read_def ExtendedTime_of_parts_def Let_def)
  moreover have "length s0 = 26" by (simp flip: s0(1))
  ultimately show ?thesis
    unfolding str s0(1) using time_to_gm_of_gm_to_time [OF ok s] by simp
qed

theorem ExtendedTime_str_roundtrip_witness:
  "length (ExtendedTime_str (Time_get_gm_time (Time_mk 951868799 7))) = 26
   \<and> (\<exists>n. ExtendedTime_read (Time_get_gm_time (Time_mk 0 0)) (ExtendedTime_str (Time_get_gm_time (Time_mk 951868799 7))) = Some (Inr n)
      \<and> tm_usec n = 7)"
proof -
  let ?t = "Time_get_gm_time (Time_mk 951868799 7)"
  have "tm_ok ?t" "tm_year ?t + 1900 \<le> 9999" "0 \<le> tm_usec ?t" "tm_usec ?t < 1000000" "tm_usec ?t = 7" by code_simp+
  with ExtendedTime_str_roundtrip [of ?t "Time_get_gm_time (Time_mk 0 0)"] show ?thesis by auto
qed



text \<open>
  (C27) No format writes past the buffer it is given, and no text and format make the parser use a
  month outside its table.
\<close>

theorem format_memory_safe:
  "(ExtendedTime_to_str mktime t n format = Some s \<longrightarrow> length s \<le> n) \<and> Time_set_str v f strict \<noteq> None"
proof
  show "ExtendedTime_to_str mktime t n format = Some s \<longrightarrow> length s \<le> n"
    using to_str_impl_length [of mktime t n "[]" format]
    by (auto simp: ExtendedTime_to_str_def split: sum.splits fmt_error.splits)
  have "month_ok (tm_extend (time_to_gm 0) 0 TZ_GMT)"
    using time_to_gm_ok [of 0] by (simp add: month_ok_def tm_ok_def tm_extend_def tm.extend_def)
  then show "Time_set_str v f strict \<noteq> None"
    using from_str_impl_month
    by (fastforce simp: Time_set_str_def ExtendedTime_to_Time_def month_ok_def gm_to_time_def tm.truncate_def Let_def
        split: option.splits sum.splits)
qed

theorem format_memory_safe_witness:
  "ExtendedTime_to_str (\<lambda>_. None) (Time_get_gm_time (Time_mk 0 0)) 12 ''%F''  = Some ''1970-01-01''
   \<and> length ''1970-01-01'' \<le> 12"
proof -
  have "ExtendedTime_to_str (\<lambda>_. None) (Time_get_gm_time (Time_mk 0 0)) 12 ''%F''  = Some ''1970-01-01''"
    by code_simp
  then show ?thesis
    using format_memory_safe [of "\<lambda>_. None" "Time_get_gm_time (Time_mk 0 0)" 12 "''%F''" "''1970-01-01''"] by blast
qed

end
