(* ===== verification/Utf8.thy ===== *)
theory Utf8
  imports Ascii
begin

text \<open>
  UTF-8 text: src/src/String/UTF8Handler.hpp (checking, decoding and encoding of one symbol) and the
  conversions of whole strings in StringManip.cpp and .ipp (\<^verbatim>\<open>utf8_to_wchar\<close>, \<^verbatim>\<open>wchar_to_utf8\<close>,
  \<^verbatim>\<open>utf8_substr\<close>).

  A pointer is the list of the bytes that can be read from it: reading after the end of the list is
  reading outside the memory of the caller, and gives \<open>None\<close>. A \<^verbatim>\<open>wchar_t\<close> is a signed integer of 32
  bits, kept as an \<open>int\<close>; a conversion to \<^verbatim>\<open>char\<close> is \<open>char_of\<close>, which keeps the lowest 8 bits.
\<close>

named_theorems utf8_defs \<open>definitions of the UTF-8 operations on one symbol\<close>

section \<open>One symbol\<close>

definition octet_at :: "string \<Rightarrow> nat \<Rightarrow> (int \<Rightarrow> 'a option) \<Rightarrow> 'a option" where
  "octet_at src i f = (if i < length src then f (of_char (src ! i)) else None)"

definition second_octet_ok :: "int \<Rightarrow> int \<Rightarrow> bool" where
  "second_octet_ok B1 B2 =
     (if B1 = 0xE0 then B2 AND 0xE0 = 0xA0
      else if B1 = 0xED then B2 AND 0xE0 = 0x80
      else if B1 = 0xF0 then B2 \<ge> 0x90 \<and> B2 \<le> 0xBF
      else if B1 = 0xF4 then B2 AND 0xF0 = 0x80
      else if B1 \<le> 0xEF then B2 AND 0xC0 = 0x80
      else B2 AND 0xC0 = 0x80)"

text \<open>The result and the number of octets. The third octet of a sequence of four is not read.\<close>

definition is_correct_utf8_sequence :: "string \<Rightarrow> (bool \<times> nat) option" where
  "is_correct_utf8_sequence src =
     octet_at src 0 (\<lambda>B1.
       if B1 \<le> 0x7F then Some (True, 1)
       else if B1 < 0xC2 \<or> B1 > 0xF4 then Some (False, 0)
       else octet_at src 1 (\<lambda>B2.
         if B1 \<le> 0xDF then
           (if B2 AND 0xC0 = 0x80 then Some (True, 2) else Some (False, 0))
         else if \<not> second_octet_ok B1 B2 then Some (False, 0)
         else if B1 < 0xF0 then
           octet_at src 2 (\<lambda>B. if B AND 0xC0 \<noteq> 0x80 then Some (False, 0) else Some (True, 3))
         else
           octet_at src 3 (\<lambda>B. if B AND 0xC0 \<noteq> 0x80 then Some (False, 0) else Some (True, 4))))"

text \<open>
  The position of the first invalid symbol of a string that ends with a zero octet, or nothing.
  The outer \<open>None\<close> is a read outside of the string.
\<close>

function is_correct_utf8_string :: "string \<Rightarrow> nat \<Rightarrow> nat option option" where
  "is_correct_utf8_string str pos =
     octet_at str 0 (\<lambda>ch.
       if ch = 0 then Some None
       else case is_correct_utf8_sequence str of
              None \<Rightarrow> None
            | Some (ok, octets_count) \<Rightarrow>
                if \<not> ok then Some (Some pos)
                else is_correct_utf8_string (drop octets_count str) (pos + octets_count))"
  by pat_completeness auto

lemma octet_at_Some: "octet_at src i f = Some r \<longleftrightarrow> i < length src \<and> f (of_char (src ! i)) = Some r"
  by (simp add: octet_at_def)

lemma octet_at_cong [fundef_cong]:
  "src = src' \<Longrightarrow> i = i' \<Longrightarrow> (i' < length src' \<Longrightarrow> f (of_char (src' ! i')) = g (of_char (src' ! i')))
   \<Longrightarrow> octet_at src i f = octet_at src' i' g"
  by (simp add: octet_at_def)

lemma is_correct_utf8_sequence_count:
  "is_correct_utf8_sequence src = Some (True, n) \<Longrightarrow> 0 < n \<and> n \<le> 4 \<and> src \<noteq> []"
  by (auto simp: is_correct_utf8_sequence_def octet_at_Some split: if_splits)

definition TRAILING_BYTES_FOR_UTF8 :: "nat list" where
  "TRAILING_BYTES_FOR_UTF8 =
     replicate 128 1 @ replicate 66 0 @ replicate 30 2 @ replicate 16 3
     @ replicate 8 4 @ replicate 4 5 @ replicate 2 6 @ replicate 2 0"

definition get_octet_count :: "char \<Rightarrow> nat" where
  "get_octet_count ch = TRAILING_BYTES_FOR_UTF8 ! of_char ch"

definition FIRST_BYTE_MASKS :: "int list" where
  "FIRST_BYTE_MASKS = [0, 0x7F, 0x1F, 0x0F, 0x07, 0x03, 0x01]"

text \<open>The loop over the trailing octets: the result and the value found so far.\<close>

primrec trailing_octets :: "string \<Rightarrow> nat \<Rightarrow> nat \<Rightarrow> int \<Rightarrow> (bool \<times> int) option" where
  "trailing_octets src i 0 dest = Some (True, dest)"
| "trailing_octets src i (Suc left) dest =
     octet_at src i (\<lambda>CH.
       if CH AND 0xC0 \<noteq> 0x80 then Some (False, dest)
       else trailing_octets src (Suc i) left (push_bit 6 dest OR (CH AND 0x3F)))"

text \<open>A null pointer is not a list of bytes, so it is not a case here.\<close>

definition utf8_char_to_wchar :: "string \<Rightarrow> nat \<Rightarrow> (bool \<times> int) option" where
  "utf8_char_to_wchar src octets_count =
     (if octets_count \<noteq> 0 \<and> octets_count \<le> 6 then
        octet_at src 0 (\<lambda>CH.
          trailing_octets src 1 (octets_count - 1) (CH AND FIRST_BYTE_MASKS ! octets_count))
      else Some (False, 0))"

text \<open>The octets written, or nothing if the function fails. Their number is the returned count.\<close>

definition wchar_to_utf8_char :: "int \<Rightarrow> string option" where
  "wchar_to_utf8_char src =
     (let ul4wc = src mod 2 ^ 64
      in if ul4wc < 0x80 then Some [char_of (ul4wc AND 0x7F)]
      else if ul4wc < 0x800 then
        Some [char_of ((drop_bit 6 ul4wc AND 0x1F) OR 0xC0),
              char_of ((ul4wc AND 0x3F) OR 0x80)]
      else if ul4wc < 0x10000 then
        Some [char_of ((drop_bit 12 ul4wc AND 0x0F) OR 0xE0),
              char_of ((drop_bit 6 ul4wc AND 0x3F) OR 0x80),
              char_of ((ul4wc AND 0x3F) OR 0x80)]
      else if ul4wc < 0x200000 then
        Some [char_of ((drop_bit 18 ul4wc AND 0x07) OR 0xF0),
              char_of ((drop_bit 12 ul4wc AND 0x3F) OR 0x80),
              char_of ((drop_bit 6 ul4wc AND 0x3F) OR 0x80),
              char_of ((ul4wc AND 0x3F) OR 0x80)]
      else None)"

definition ulong_to_utf8_char :: "int \<Rightarrow> string option" where
  "ulong_to_utf8_char ul4wc =
     (if ul4wc < 0x80 then Some [char_of (ul4wc AND 0x7F)]
      else if ul4wc < 0x800 then
        Some [char_of ((drop_bit 6 ul4wc AND 0x1F) OR 0xC0),
              char_of ((ul4wc AND 0x3F) OR 0x80)]
      else if ul4wc < 0x10000 then
        Some [char_of ((drop_bit 12 ul4wc AND 0x0F) OR 0xE0),
              char_of ((drop_bit 6 ul4wc AND 0x3F) OR 0x80),
              char_of ((ul4wc AND 0x3F) OR 0x80)]
      else if ul4wc < 0x200000 then
        Some [char_of ((drop_bit 18 ul4wc AND 0x07) OR 0xF0),
              char_of ((drop_bit 12 ul4wc AND 0x3F) OR 0x80),
              char_of ((drop_bit 6 ul4wc AND 0x3F) OR 0x80),
              char_of ((ul4wc AND 0x3F) OR 0x80)]
      else if ul4wc < 0x4000000 then
        Some [char_of ((drop_bit 24 ul4wc AND 0x03) OR 0xF8),
              char_of ((drop_bit 18 ul4wc AND 0x3F) OR 0x80),
              char_of ((drop_bit 12 ul4wc AND 0x3F) OR 0x80),
              char_of ((drop_bit 6 ul4wc AND 0x3F) OR 0x80),
              char_of ((ul4wc AND 0x3F) OR 0x80)]
      else if ul4wc < 0x80000000 then
        Some [char_of ((drop_bit 30 ul4wc AND 0x01) OR 0xFC),
              char_of ((drop_bit 24 ul4wc AND 0x3F) OR 0x80),
              char_of ((drop_bit 18 ul4wc AND 0x3F) OR 0x80),
              char_of ((drop_bit 12 ul4wc AND 0x3F) OR 0x80),
              char_of ((drop_bit 6 ul4wc AND 0x3F) OR 0x80),
              char_of ((ul4wc AND 0x3F) OR 0x80)]
      else None)"

text \<open>
  The octets of the sequence around \<open>pos\<close>: the loop walks back over continuation octets.
  Nothing if the limit is reached or the octets found do not reach \<open>pos\<close>; reading before the
  beginning of the memory is the outer \<open>None\<close>.
\<close>

fun distance_loop :: "string \<Rightarrow> nat option \<Rightarrow> nat \<Rightarrow> nat option option" where
  "distance_loop mem limit p =
     octet_at mem p (\<lambda>ch.
       if ch AND 0xC0 = 0x80 then
         (if limit = Some p then Some None
          else if p = 0 then None
          else distance_loop mem limit (p - 1))
       else Some (Some p))"

declare distance_loop.simps [simp del]

definition distance_to_sequence_beginning ::
    "string \<Rightarrow> nat option \<Rightarrow> nat \<Rightarrow> (nat \<times> nat) option option" where
  "distance_to_sequence_beginning mem limit src =
     octet_at mem src (\<lambda>ch.
       if ch AND 0x80 = 0 then Some (Some (1, 0))
       else case distance_loop mem limit src of
              None \<Rightarrow> None
            | Some None \<Rightarrow> Some None
            | Some (Some p) \<Rightarrow>
                let distance = src - p; octets_count = get_octet_count (mem ! p)
                in if octets_count = 0 \<or> octets_count \<le> distance then Some None
                   else Some (Some (octets_count, distance)))"

section \<open>Strings\<close>

text \<open>\<^verbatim>\<open>StringManip::wchar_to_utf8\<close> of one symbol takes every value, in up to six octets.\<close>

definition wchar_to_utf8_append :: "int \<Rightarrow> string" where
  "wchar_to_utf8_append src =
     (let ucs4_char = src mod 2 ^ 32
      in if ucs4_char < 0x80 then [char_of (ucs4_char AND 0x7F)]
      else if ucs4_char < 0x10000 then
        (if ucs4_char < 0x800 then
           [char_of ((drop_bit 6 ucs4_char AND 0x1F) OR 0xC0),
            char_of ((ucs4_char AND 0x3F) OR 0x80)]
         else
           [char_of ((drop_bit 12 ucs4_char AND 0x0F) OR 0xE0),
            char_of ((drop_bit 6 ucs4_char AND 0x3F) OR 0x80),
            char_of ((ucs4_char AND 0x3F) OR 0x80)])
      else if ucs4_char < 0x200000 then
        [char_of ((drop_bit 18 ucs4_char AND 0x07) OR 0xF0),
         char_of ((drop_bit 12 ucs4_char AND 0x3F) OR 0x80),
         char_of ((drop_bit 6 ucs4_char AND 0x3F) OR 0x80),
         char_of ((ucs4_char AND 0x3F) OR 0x80)]
      else if ucs4_char < 0x4000000 then
        [char_of ((drop_bit 24 ucs4_char AND 0x03) OR 0xF8),
         char_of ((drop_bit 18 ucs4_char AND 0x3F) OR 0x80),
         char_of ((drop_bit 12 ucs4_char AND 0x3F) OR 0x80),
         char_of ((drop_bit 6 ucs4_char AND 0x3F) OR 0x80),
         char_of ((ucs4_char AND 0x3F) OR 0x80)]
      else
        [char_of ((drop_bit 30 ucs4_char AND 0x01) OR 0xFC),
         char_of ((drop_bit 24 ucs4_char AND 0x3F) OR 0x80),
         char_of ((drop_bit 18 ucs4_char AND 0x3F) OR 0x80),
         char_of ((drop_bit 12 ucs4_char AND 0x3F) OR 0x80),
         char_of ((drop_bit 6 ucs4_char AND 0x3F) OR 0x80),
         char_of ((ucs4_char AND 0x3F) OR 0x80)])"

primrec wchar_to_utf8 :: "int list \<Rightarrow> string" where
  "wchar_to_utf8 [] = []"
| "wchar_to_utf8 (itor # src) = wchar_to_utf8_append itor @ wchar_to_utf8 src"

text \<open>The variant for strings that end with the symbol zero.\<close>

fun wchar_to_utf8_z :: "int list \<Rightarrow> string option" where
  "wchar_to_utf8_z [] = None"
| "wchar_to_utf8_z (current # src) =
     (if current = 0 then Some []
      else map_option ((@) (wchar_to_utf8_append current)) (wchar_to_utf8_z src))"

datatype utf8_error = Incomplete_octet_sequence | Invalid_octet

function utf8_to_wchar :: "string \<Rightarrow> utf8_error + int list" where
  "utf8_to_wchar cur =
     (if cur = [] then Inr []
      else let len = get_octet_count (hd cur)
           in if length cur < len then Inl Incomplete_octet_sequence
              else if len = 0 then Inl Invalid_octet
              else case utf8_char_to_wchar cur len of
                     Some (True, wch) \<Rightarrow> result_bind (utf8_to_wchar (drop len cur)) (\<lambda>dst. Inr (wch # dst))
                   | _ \<Rightarrow> Inl Invalid_octet)"
  by pat_completeness auto

termination utf8_to_wchar
  by (relation "measure length") auto

declare utf8_to_wchar.simps [simp del]

text \<open>
  The longest prefix of whole symbols within \<open>max_octets\<close>; nothing if the string is found invalid.
  \<open>pos\<close> is the length of the prefix accepted so far.
\<close>

fun continuation_octets :: "string \<Rightarrow> bool" where
  "continuation_octets [] = True"
| "continuation_octets (c # cs) = (if (of_char c :: int) AND 0xC0 \<noteq> 0x80 then False else continuation_octets cs)"

function utf8_substr_loop :: "string \<Rightarrow> nat \<Rightarrow> nat \<Rightarrow> nat option" where
  "utf8_substr_loop src max_octets pos =
     (if max_octets = 0 \<or> \<not> pos < length src then Some pos
      else let octets = get_octet_count (src ! pos)
           in if octets > max_octets then Some pos
              else if octets = 0 \<or> pos + octets > length src then None
              else if \<not> continuation_octets (take (octets - 1) (drop (pos + 1) src)) then None
              else utf8_substr_loop src (max_octets - octets) (pos + octets))"
  by pat_completeness auto

termination utf8_substr_loop
  by (relation "measure (\<lambda>(src, m, p). m)") auto

declare utf8_substr_loop.simps [simp del]

definition utf8_substr :: "string \<Rightarrow> nat \<Rightarrow> string option" where
  "utf8_substr src max_octets = map_option (\<lambda>n. take n src) (utf8_substr_loop src max_octets 0)"

termination is_correct_utf8_string
  by (relation "measure (\<lambda>(str, _). length str)")
    (auto dest!: is_correct_utf8_sequence_count)

declare is_correct_utf8_string.simps [simp del]

section \<open>Octets as numbers\<close>

lemma and_mask_mod: "(k :: int) AND (2 ^ n - 1) = k mod 2 ^ n"
  using take_bit_eq_mask [of n k] by (simp add: mask_eq_exp_minus_1 take_bit_eq_mod)

lemma push_bit_or_low:
  assumes "0 \<le> k" "k < 2 ^ n"
  shows "push_bit n (d :: int) OR k = d * 2 ^ n + k"
proof -
  have "k = take_bit n k" using assms by (simp add: take_bit_eq_mod)
  then have "\<not> bit (push_bit n d) m \<or> \<not> bit k m" for m
    by (metis bit_push_bit_iff bit_take_bit_iff not_le)
  from disjunctive_add [OF this] show ?thesis by (simp add: push_bit_eq_mult)
qed

lemma and_masks [simp]:
  "(k :: int) AND 0x3F = k mod 64" "k AND 0x1F = k mod 32" "k AND 0x0F = k mod 16"
  "k AND 0x07 = k mod 8" "k AND 0x03 = k mod 4" "k AND 0x7F = k mod 128"
  subgoal using and_mask_mod [of k 6] by simp
  subgoal using and_mask_mod [of k 5] by simp
  subgoal using and_mask_mod [of k 4] by simp
  subgoal using and_mask_mod [of k 3] by simp
  subgoal using and_mask_mod [of k 2] by simp
  subgoal using and_mask_mod [of k 7] by simp
  done

lemma or_marks [simp]:
  "k mod 64 OR 0x80 = k mod 64 + 128" "(k :: int) mod 32 OR 0xC0 = k mod 32 + 192"
  "k mod 16 OR 0xE0 = k mod 16 + 224" "k mod 8 OR 0xF0 = k mod 8 + 240"
  "k mod 4 OR 0xF8 = k mod 4 + 248" "k mod 2 OR 0xFC = k mod 2 + 252"
  using push_bit_or_low [of "k mod 64" 6 2] push_bit_or_low [of "k mod 32" 5 6]
    push_bit_or_low [of "k mod 16" 4 14] push_bit_or_low [of "k mod 8" 3 30]
    push_bit_or_low [of "k mod 4" 2 62] push_bit_or_low [of "k mod 2" 1 126]
  by (simp_all add: or.commute push_bit_eq_mult)

lemma push_6_or [simp]: "push_bit 6 (d :: int) OR k mod 64 = d * 64 + k mod 64"
  using push_bit_or_low [of "k mod 64" 6 d] by simp

lemma int_char_less [simp]: "(of_char c :: int) < 256"
  by (metis of_char_less of_nat_less_numeral_iff of_nat_of_char)

lemma int_char_nonneg [simp]: "0 \<le> (of_char c :: int)"
  by (metis of_nat_0_le_iff of_nat_of_char)

lemma and_push_bit: "(k :: int) AND push_bit n m = push_bit n (drop_bit n k AND m)"
  by (rule bit_eqI) (auto simp: bit_simps)

lemma and_high_masks:
  "(k :: int) AND 0xC0 = 64 * (k div 64 mod 4)" "k AND 0xE0 = 32 * (k div 32 mod 8)"
  "k AND 0xF0 = 16 * (k div 16 mod 16)" "k AND 0x80 = 128 * (k div 128 mod 2)"
  subgoal using and_push_bit [of k 6 3] by (simp add: push_bit_eq_mult drop_bit_eq_div)
  subgoal using and_push_bit [of k 5 7] by (simp add: push_bit_eq_mult drop_bit_eq_div)
  subgoal using and_push_bit [of k 4 15] by (simp add: push_bit_eq_mult drop_bit_eq_div)
  subgoal using and_push_bit [of k 7 1] by (simp add: push_bit_eq_mult drop_bit_eq_div and_one_eq)
  done

lemma high_bits_eq:
  fixes k :: int
  assumes "0 \<le> k" "k < d * m" "0 < d"
  shows "d * (k div d mod m) = d * c \<longleftrightarrow> d * c \<le> k \<and> k < d * c + d"
proof -
  have "d * (k div d) \<le> k"
    using mult_div_mod_eq [of d k] pos_mod_sign [of d k] assms(3) by linarith
  then have "d * (k div d) < d * m" using assms(2) by linarith
  then have "k div d < m" using assms(3) by simp
  then have "k div d mod m = k div d" using assms by (simp add: pos_imp_zdiv_nonneg_iff)
  moreover have "k div d = c \<longleftrightarrow> d * c \<le> k \<and> k < d * c + d"
  proof
    assume c: "k div d = c"
    show "d * c \<le> k \<and> k < d * c + d"
      using mult_div_mod_eq [of d k] pos_mod_bound [of d k] pos_mod_sign [of d k] assms(3)
      unfolding c by linarith
  next
    assume "d * c \<le> k \<and> k < d * c + d"
    then show "k div d = c" by (intro int_div_pos_eq [of k d c "k - d * c"]) auto
  qed
  ultimately show ?thesis using assms by simp
qed

lemma octet_tests:
  fixes k :: int
  assumes "0 \<le> k" "k < 256"
  shows "k AND 0xC0 = 0x80 \<longleftrightarrow> 0x80 \<le> k \<and> k \<le> 0xBF"
    and "k AND 0xE0 = 0xA0 \<longleftrightarrow> 0xA0 \<le> k \<and> k \<le> 0xBF"
    and "k AND 0xE0 = 0x80 \<longleftrightarrow> 0x80 \<le> k \<and> k \<le> 0x9F"
    and "k AND 0xF0 = 0x80 \<longleftrightarrow> 0x80 \<le> k \<and> k \<le> 0x8F"
    and "k AND 0x80 = 0 \<longleftrightarrow> k < 0x80"
  unfolding and_high_masks
  subgoal using high_bits_eq [of k 64 4 2] assms by simp linarith
  subgoal using high_bits_eq [of k 32 8 5] assms by simp linarith
  subgoal using high_bits_eq [of k 32 8 4] assms by simp linarith
  subgoal using high_bits_eq [of k 16 16 8] assms by simp linarith
  subgoal using high_bits_eq [of k 128 2 0] assms by simp
  done

lemmas char_tests [simp] = octet_tests [OF int_char_nonneg int_char_less]

lemma get_octet_count_eq:
  "get_octet_count c =
     (let b = (of_char c :: nat)
      in if b < 128 then 1 else if b < 194 then 0 else if b < 224 then 2 else if b < 240 then 3
         else if b < 248 then 4 else if b < 252 then 5 else if b < 254 then 6 else 0)"
  using of_char_less [of c]
  by (auto simp: get_octet_count_def TRAILING_BYTES_FOR_UTF8_def nth_append Let_def simp del: of_char_less)

section \<open>Encoding one symbol\<close>

lemma regroup [simp]:
  "(c :: int) div 4096 * 64 + c div 64 mod 64 = c div 64"
  "c div 262144 * 64 + c div 4096 mod 64 = c div 4096"
  "c div 16777216 * 64 + c div 262144 mod 64 = c div 262144"
  "c div 1073741824 * 64 + c div 16777216 mod 64 = c div 16777216"
proof -
  have *: "d div 64 * 64 + d mod 64 = d" for d :: int by simp
  show "c div 4096 * 64 + c div 64 mod 64 = c div 64"
    using * [of "c div 64"] by (simp add: zdiv_zmult2_eq [symmetric])
  show "c div 262144 * 64 + c div 4096 mod 64 = c div 4096"
    using * [of "c div 4096"] by (simp add: zdiv_zmult2_eq [symmetric])
  show "c div 16777216 * 64 + c div 262144 mod 64 = c div 262144"
    using * [of "c div 262144"] by (simp add: zdiv_zmult2_eq [symmetric])
  show "c div 1073741824 * 64 + c div 16777216 mod 64 = c div 16777216"
    using * [of "c div 16777216"] by (simp add: zdiv_zmult2_eq [symmetric])
qed

lemma ulong_to_utf8_char_eq:
  assumes "0 \<le> c"
  shows "ulong_to_utf8_char c =
    (if c < 0x80 then Some [char_of c]
     else if c < 0x800 then Some [char_of (c div 64 + 192), char_of (c mod 64 + 128)]
     else if c < 0x10000 then
       Some [char_of (c div 4096 + 224), char_of (c div 64 mod 64 + 128), char_of (c mod 64 + 128)]
     else if c < 0x200000 then
       Some [char_of (c div 262144 + 240), char_of (c div 4096 mod 64 + 128),
             char_of (c div 64 mod 64 + 128), char_of (c mod 64 + 128)]
     else if c < 0x4000000 then
       Some [char_of (c div 16777216 + 248), char_of (c div 262144 mod 64 + 128),
             char_of (c div 4096 mod 64 + 128), char_of (c div 64 mod 64 + 128),
             char_of (c mod 64 + 128)]
     else if c < 0x80000000 then
       Some [char_of (c div 1073741824 + 252), char_of (c div 16777216 mod 64 + 128),
             char_of (c div 262144 mod 64 + 128), char_of (c div 4096 mod 64 + 128),
             char_of (c div 64 mod 64 + 128), char_of (c mod 64 + 128)]
     else None)"
proof -
  have "c div 64 OR 192 = c div 64 + 192" if "c < 0x800"
    using or_marks(2) [of "c div 64"] assms that by simp
  moreover have "c div 4096 OR 224 = c div 4096 + 224" if "c < 0x10000"
    using or_marks(3) [of "c div 4096"] assms that by simp
  moreover have "c div 262144 OR 240 = c div 262144 + 240" if "c < 0x200000"
    using or_marks(4) [of "c div 262144"] assms that by simp
  moreover have "c div 16777216 OR 248 = c div 16777216 + 248" if "c < 0x4000000"
    using or_marks(5) [of "c div 16777216"] assms that by simp
  moreover have "c div 1073741824 OR 252 = c div 1073741824 + 252" if "c < 0x80000000"
    using or_marks(6) [of "c div 1073741824"] assms that by simp
  ultimately show ?thesis
    using assms by (simp add: ulong_to_utf8_char_def drop_bit_eq_div and_one_eq)
qed

lemma wchar_to_utf8_char_eq:
  "0 \<le> c \<Longrightarrow> c < 0x80000000 \<Longrightarrow>
   wchar_to_utf8_char c = (if c < 0x200000 then ulong_to_utf8_char c else None)"
  by (simp add: wchar_to_utf8_char_def ulong_to_utf8_char_def Let_def)

lemma wchar_to_utf8_append_eq:
  "0 \<le> c \<Longrightarrow> c < 0x80000000 \<Longrightarrow> ulong_to_utf8_char c = Some (wchar_to_utf8_append c)"
  by (simp add: wchar_to_utf8_append_def ulong_to_utf8_char_def Let_def)

lemma char_of_lead: "0 \<le> k \<Longrightarrow> k < 256 \<Longrightarrow> (of_char (char_of (k :: int)) :: nat) = nat k"
  by (metis nat_int of_char_of of_nat_of_char mod_pos_pos_trivial)

abbreviation continuation :: "int \<Rightarrow> char" where
  "continuation k \<equiv> char_of (k + 128)"

lemma trailing_octets_append:
  "\<forall>k\<in>set ks. 0 \<le> k \<and> k < 64 \<Longrightarrow>
   trailing_octets (pre @ map continuation ks @ rest) (length pre) (length ks) d
     = Some (True, foldl (\<lambda>d k. d * 64 + k) d ks)"
proof (induction ks arbitrary: pre d)
  case Nil
  show ?case by simp
next
  case (Cons k ks)
  then have k: "0 \<le> k" "k < 64" by simp_all
  then have "(k + 128) mod 64 = k" using mod_mult_self1 [of k 2 64] by simp
  moreover have "push_bit 6 d OR k = d * 64 + k" using push_bit_or_low [of k 6 d] k by simp
  ultimately show ?case
    using k Cons.prems Cons.IH [of "pre @ [continuation k]" "d * 64 + k"] by (simp add: octet_at_def octet_tests)
qed

lemma utf8_char_to_wchar_append:
  assumes "\<forall>k\<in>set ks. 0 \<le> k \<and> k < 64" "length ks \<le> 5" "0 \<le> lead" "lead < 256"
  shows "utf8_char_to_wchar (char_of lead # map continuation ks @ rest) (Suc (length ks))
    = Some (True, foldl (\<lambda>d k. d * 64 + k) (lead AND FIRST_BYTE_MASKS ! Suc (length ks)) ks)"
  using trailing_octets_append [OF assms(1), of "[char_of lead]"] assms
  by (simp add: utf8_char_to_wchar_def octet_at_def)

lemma get_octet_count_char_of:
  "0 \<le> lead \<Longrightarrow> lead < 256 \<Longrightarrow> get_octet_count (char_of (lead :: int)) =
     (if lead < 128 then 1 else if lead < 194 then 0 else if lead < 224 then 2 else if lead < 240 then 3
      else if lead < 248 then 4 else if lead < 252 then 5 else if lead < 254 then 6 else 0)"
  by (simp add: get_octet_count_eq char_of_lead Let_def nat_less_iff)

text \<open>The octets of a symbol: a leading octet that tells their number, and six bits in each other octet.\<close>

definition utf8_parts :: "int \<Rightarrow> int \<Rightarrow> int list \<Rightarrow> bool" where
  "utf8_parts c lead ks \<longleftrightarrow>
     (\<forall>k\<in>set ks. 0 \<le> k \<and> k < 64) \<and> length ks \<le> 5 \<and> 0 \<le> lead \<and> lead < 256
     \<and> foldl (\<lambda>d k. d * 64 + k) (lead AND FIRST_BYTE_MASKS ! Suc (length ks)) ks = c
     \<and> get_octet_count (char_of lead) = Suc (length ks)"

fun six_bits :: "nat \<Rightarrow> int \<Rightarrow> int list" where
  "six_bits 0 c = []"
| "six_bits (Suc n) c = six_bits n (c div 64) @ [c mod 64]"

lemma length_six_bits [simp]: "length (six_bits n c) = n"
  by (induction n arbitrary: c) auto

lemma six_bits_range: "k \<in> set (six_bits n c) \<Longrightarrow> 0 \<le> k \<and> k < 64"
  by (induction n arbitrary: c) auto

lemma foldl_six_bits: "foldl (\<lambda>d k. d * 64 + k) (c div 64 ^ n) (six_bits n c) = c"
  by (induction n arbitrary: c) (auto simp: zdiv_zmult2_eq)

lemma utf8_partsI:
  assumes "lead = c div 64 ^ n + base" "n \<le> 5" "0 \<le> lead" "lead < 256"
    and "lead AND FIRST_BYTE_MASKS ! Suc n = c div 64 ^ n" "get_octet_count (char_of lead) = Suc n"
  shows "utf8_parts c lead (six_bits n c)"
  using assms foldl_six_bits [of c n] by (auto simp: utf8_parts_def six_bits_range)

lemma lead_octets:
  "0 \<le> q \<Longrightarrow> q < 128 \<Longrightarrow> get_octet_count (char_of q) = 1 \<and> q AND FIRST_BYTE_MASKS ! 1 = q"
  "2 \<le> q \<Longrightarrow> q < 32 \<Longrightarrow> get_octet_count (char_of (q + 192)) = 2 \<and> (q + 192) AND FIRST_BYTE_MASKS ! 2 = q"
  "0 \<le> q \<Longrightarrow> q < 16 \<Longrightarrow> get_octet_count (char_of (q + 224)) = 3 \<and> (q + 224) AND FIRST_BYTE_MASKS ! 3 = q"
  "0 \<le> q \<Longrightarrow> q < 8 \<Longrightarrow> get_octet_count (char_of (q + 240)) = 4 \<and> (q + 240) AND FIRST_BYTE_MASKS ! 4 = q"
  "0 \<le> q \<Longrightarrow> q < 4 \<Longrightarrow> get_octet_count (char_of (q + 248)) = 5 \<and> (q + 248) AND FIRST_BYTE_MASKS ! 5 = q"
  "0 \<le> q \<Longrightarrow> q < 2 \<Longrightarrow> get_octet_count (char_of (q + 252)) = 6 \<and> (q + 252) AND FIRST_BYTE_MASKS ! 6 = q"
  subgoal by (simp add: get_octet_count_char_of FIRST_BYTE_MASKS_def)
  subgoal by (simp add: get_octet_count_char_of FIRST_BYTE_MASKS_def) presburger
  subgoal by (simp add: get_octet_count_char_of FIRST_BYTE_MASKS_def) presburger
  subgoal by (simp add: get_octet_count_char_of FIRST_BYTE_MASKS_def) presburger
  subgoal by (simp add: get_octet_count_char_of FIRST_BYTE_MASKS_def) presburger
  subgoal by (simp add: get_octet_count_char_of FIRST_BYTE_MASKS_def and_one_eq) presburger
  done

lemma six_bits_eval:
  "six_bits 1 c = [c mod 64]" "six_bits 2 c = [c div 64 mod 64, c mod 64]"
  "six_bits 3 c = [c div 4096 mod 64, c div 64 mod 64, c mod 64]"
  "six_bits 4 c = [c div 262144 mod 64, c div 4096 mod 64, c div 64 mod 64, c mod 64]"
  "six_bits 5 c = [c div 16777216 mod 64, c div 262144 mod 64, c div 4096 mod 64, c div 64 mod 64, c mod 64]"
  by (simp_all add: eval_nat_numeral zdiv_zmult2_eq [symmetric])

lemma ulong_to_utf8_char_parts:
  assumes c: "0 \<le> c" and s: "ulong_to_utf8_char c = Some s"
  shows "\<exists>lead ks. s = char_of lead # map continuation ks \<and> utf8_parts c lead ks"
proof -
  have ex: ?thesis if "ulong_to_utf8_char c = Some (char_of (c div 64 ^ n + base) # map continuation (six_bits n c))"
    "n \<le> 5" "0 \<le> c div 64 ^ n + base" "c div 64 ^ n + base < 256"
    "get_octet_count (char_of (c div 64 ^ n + base)) = Suc n
      \<and> (c div 64 ^ n + base) AND FIRST_BYTE_MASKS ! Suc n = c div 64 ^ n" for n base
    using that s utf8_partsI [OF refl, of n c base] by (metis option.inject)
  note eq = ulong_to_utf8_char_eq [OF c] and bits = six_bits_eval [of c]
  have "c < 0x80000000" using s eq by (cases "c < 0x80000000") simp_all
  then consider "c < 0x80" | "\<not> c < 0x80" "c < 0x800" | "\<not> c < 0x800" "c < 0x10000"
    | "\<not> c < 0x10000" "c < 0x200000" | "\<not> c < 0x200000" "c < 0x4000000"
    | "\<not> c < 0x4000000" "c < 0x80000000" by linarith
  then show ?thesis
  proof cases
    case 1
    show ?thesis by (rule ex [of 0 0]) (use 1 c lead_octets(1) [of c] in \<open>simp_all add: eq\<close>)
  next
    case 2
    have q: "2 \<le> c div 64" "c div 64 < 32" using 2 c by auto
    show ?thesis
      by (rule ex [of 1 192]) (use 2 q lead_octets(2) [OF q] bits(1) in \<open>simp_all add: eq numeral_2_eq_2\<close>)
  next
    case 3
    have q: "0 \<le> c div 4096" "c div 4096 < 16" using 3 c by auto
    show ?thesis
      by (rule ex [of 2 224]) (use 3 q lead_octets(3) [OF q] bits(2) in \<open>simp_all add: eq\<close>)
  next
    case 4
    have q: "0 \<le> c div 262144" "c div 262144 < 8" using 4 c by auto
    show ?thesis
      by (rule ex [of 3 240]) (use 4 q lead_octets(4) [OF q] bits(3) in \<open>simp_all add: eq\<close>)
  next
    case 5
    have q: "0 \<le> c div 16777216" "c div 16777216 < 4" using 5 c by auto
    show ?thesis
      by (rule ex [of 4 248]) (use 5 q lead_octets(5) [OF q] bits(4) in \<open>simp_all add: eq\<close>)
  next
    case 6
    have q: "0 \<le> c div 1073741824" "c div 1073741824 < 2" using 6 c by auto
    show ?thesis
      by (rule ex [of 5 252]) (use 6 q lead_octets(6) [OF q] bits(5) in \<open>simp_all add: eq\<close>)
  qed
qed

lemma decode_encode:
  assumes "0 \<le> c" "ulong_to_utf8_char c = Some s"
  shows "utf8_char_to_wchar (s @ rest) (length s) = Some (True, c)" "get_octet_count (hd s) = length s"
    "s \<noteq> []"
  using ulong_to_utf8_char_parts [OF assms] utf8_char_to_wchar_append by (auto simp: utf8_parts_def)

section \<open>Well-formed sequences\<close>

text \<open>The Unicode scalar values: every code point but the surrogates.\<close>

definition scalar_value :: "int \<Rightarrow> bool" where
  "scalar_value c \<longleftrightarrow> 0 \<le> c \<and> c < 0xD800 \<or> 0xE000 \<le> c \<and> c \<le> 0x10FFFF"

lemma second_octet_ok_iff:
  assumes "0 \<le> B2" "B2 < 256"
  shows "second_octet_ok B1 B2 \<longleftrightarrow>
    (if B1 = 0xE0 then 0xA0 \<le> B2 \<and> B2 \<le> 0xBF else if B1 = 0xED then 0x80 \<le> B2 \<and> B2 \<le> 0x9F
     else if B1 = 0xF0 then 0x90 \<le> B2 \<and> B2 \<le> 0xBF else if B1 = 0xF4 then 0x80 \<le> B2 \<and> B2 \<le> 0x8F
     else 0x80 \<le> B2 \<and> B2 \<le> 0xBF)"
  by (simp add: second_octet_ok_def octet_tests [OF assms])

lemma octet_at_Cons [simp]:
  "octet_at (c # src) 0 f = f (of_char c)" "octet_at (c # src) (Suc i) f = octet_at src i f"
  "octet_at (c # src) 1 f = octet_at src 0 f" "octet_at (c # src) 2 f = octet_at src 1 f"
  "octet_at (c # src) 3 f = octet_at src 2 f" "octet_at [] i f = None"
  by (simp_all add: octet_at_def numeral_2_eq_2 numeral_3_eq_3)

lemma is_correct_octets:
  "0 \<le> a \<Longrightarrow> a < 128 \<Longrightarrow> is_correct_utf8_sequence (char_of a # rest) = Some (True, 1)"
  "194 \<le> a \<Longrightarrow> a < 224 \<Longrightarrow> is_correct_utf8_sequence (char_of a # continuation (k mod 64) # rest) = Some (True, 2)"
  "224 \<le> a \<Longrightarrow> a < 240 \<Longrightarrow> second_octet_ok a (j mod 64 + 128) \<Longrightarrow>
     is_correct_utf8_sequence (char_of a # continuation (j mod 64) # continuation (k mod 64) # rest) = Some (True, 3)"
  "240 \<le> a \<Longrightarrow> a \<le> 244 \<Longrightarrow> second_octet_ok a (j mod 64 + 128) \<Longrightarrow>
     is_correct_utf8_sequence (char_of a # continuation (j mod 64) # c # continuation (k mod 64) # rest) = Some (True, 4)"
  by (simp_all add: is_correct_utf8_sequence_def octet_tests)

lemma is_correct_encoded:
  assumes c: "scalar_value c" and s: "ulong_to_utf8_char c = Some s"
  shows "is_correct_utf8_sequence (s @ rest) = Some (True, length s)"
proof -
  have c0: "0 \<le> c" "c < 0x110000" using c by (auto simp: scalar_value_def)
  note eq = ulong_to_utf8_char_eq [OF c0(1)]
  consider "c < 0x80" | "\<not> c < 0x80" "c < 0x800" | "\<not> c < 0x800" "c < 0x10000" | "\<not> c < 0x10000"
    by linarith
  then show ?thesis
  proof cases
    case 1
    then have "s = [char_of c]" using eq s by simp
    then show ?thesis using 1 c0 is_correct_octets(1) by simp
  next
    case 2
    then have "2 \<le> c div 64" "c div 64 < 32" by auto
    moreover have "s = [char_of (c div 64 + 192), continuation (c mod 64)]" using 2 eq s by simp
    ultimately show ?thesis using is_correct_octets(2) [of "c div 64 + 192"] by simp
  next
    case 3
    then have q: "0 \<le> c div 4096" "c div 4096 < 16" using c0 by auto
    have x: "c div 64 mod 64 = c div 64 - 64 * (c div 4096)"
      using minus_div_mult_eq_mod [of "c div 64" 64] by (simp add: zdiv_zmult2_eq [symmetric])
    have "c div 4096 = 0 \<Longrightarrow> 32 \<le> c div 64 mod 64" using 3 x by simp
    moreover have "c div 4096 = 13 \<Longrightarrow> c div 64 mod 64 < 32"
    proof -
      assume "c div 4096 = 13"
      then have "c < 0xE000" by linarith
      then have "c < 0xD800" using c by (auto simp: scalar_value_def)
      then show ?thesis using x \<open>c div 4096 = 13\<close> by simp
    qed
    ultimately have "second_octet_ok (c div 4096 + 224) (c div 64 mod 64 + 128)"
      using q by (auto simp: second_octet_ok_iff)
    moreover have "s = [char_of (c div 4096 + 224), continuation (c div 64 mod 64), continuation (c mod 64)]"
      using 3 eq s by simp
    ultimately show ?thesis using q is_correct_octets(3) [of "c div 4096 + 224" "c div 64"] by simp
  next
    case 4
    then have q: "0 \<le> c div 262144" "c div 262144 \<le> 4" using c0 by auto
    have x: "c div 4096 mod 64 = c div 4096 - 64 * (c div 262144)"
      using minus_div_mult_eq_mod [of "c div 4096" 64] by (simp add: zdiv_zmult2_eq [symmetric])
    have "c div 262144 = 0 \<Longrightarrow> 16 \<le> c div 4096 mod 64" using 4 x by simp
    moreover have "c div 262144 = 4 \<Longrightarrow> c div 4096 mod 64 < 16" using c0 x by simp
    ultimately have "second_octet_ok (c div 262144 + 240) (c div 4096 mod 64 + 128)"
      using q by (auto simp: second_octet_ok_iff)
    moreover have "s = [char_of (c div 262144 + 240), continuation (c div 4096 mod 64),
        continuation (c div 64 mod 64), continuation (c mod 64)]"
      using 4 c0 eq s by simp
    ultimately show ?thesis using q is_correct_octets(4) [of "c div 262144 + 240" "c div 4096"] by simp
  qed
qed

lemma of_char_split: "0 \<le> lead \<Longrightarrow> lead \<le> of_char c \<Longrightarrow> char_of (of_char c - lead + lead :: int) = c"
  by simp

lemma encode_octets:
  "0 \<le> a \<Longrightarrow> a < 128 \<Longrightarrow> ulong_to_utf8_char a = Some [char_of a]"
  "2 \<le> a \<Longrightarrow> a < 32 \<Longrightarrow> 0 \<le> b \<Longrightarrow> b < 64 \<Longrightarrow>
     ulong_to_utf8_char (a * 64 + b) = Some [char_of (a + 192), continuation b]"
  "0 \<le> a \<Longrightarrow> a < 16 \<Longrightarrow> 0 \<le> b \<Longrightarrow> b < 64 \<Longrightarrow> 32 \<le> a * 64 + b \<Longrightarrow> 0 \<le> c \<Longrightarrow> c < 64 \<Longrightarrow>
     ulong_to_utf8_char ((a * 64 + b) * 64 + c) = Some [char_of (a + 224), continuation b, continuation c]"
  "0 \<le> a \<Longrightarrow> a < 8 \<Longrightarrow> 0 \<le> b \<Longrightarrow> b < 64 \<Longrightarrow> 16 \<le> a * 64 + b \<Longrightarrow> 0 \<le> c \<Longrightarrow> c < 64 \<Longrightarrow> 0 \<le> d \<Longrightarrow> d < 64 \<Longrightarrow>
     ulong_to_utf8_char (((a * 64 + b) * 64 + c) * 64 + d)
       = Some [char_of (a + 240), continuation b, continuation c, continuation d]"
proof -
  have div: "(q * 64 + r) div 64 = q" "(q * 64 + r) mod 64 = r" if "0 \<le> r" "r < 64" for q r :: int
    using that by simp_all
  have div2: "x div 4096 = x div 64 div 64" "x div 262144 = x div 64 div 64 div 64" for x :: int
    by (simp_all add: zdiv_zmult2_eq [symmetric])
  show "0 \<le> a \<Longrightarrow> a < 128 \<Longrightarrow> ulong_to_utf8_char a = Some [char_of a]"
    by (simp add: ulong_to_utf8_char_eq)
  show "ulong_to_utf8_char (a * 64 + b) = Some [char_of (a + 192), continuation b]"
    if "2 \<le> a" "a < 32" "0 \<le> b" "b < 64"
  proof -
    have "0 \<le> a * 64 + b" "\<not> a * 64 + b < 0x80" "a * 64 + b < 0x800" using that by linarith+
    then show ?thesis by (simp add: ulong_to_utf8_char_eq div that)
  qed
  show "ulong_to_utf8_char ((a * 64 + b) * 64 + c) = Some [char_of (a + 224), continuation b, continuation c]"
    if "0 \<le> a" "a < 16" "0 \<le> b" "b < 64" "32 \<le> a * 64 + b" "0 \<le> c" "c < 64"
  proof -
    let ?x = "(a * 64 + b) * 64 + c"
    have "a * 64 + b < 1024" using that by linarith
    then have "0 \<le> ?x" "\<not> ?x < 0x80" "\<not> ?x < 0x800" "?x < 0x10000" using that(5-7) by simp_all
    then show ?thesis
      by (simp only: ulong_to_utf8_char_eq div2 div that if_False if_True simp_thms)
  qed
  show "ulong_to_utf8_char (((a * 64 + b) * 64 + c) * 64 + d)
       = Some [char_of (a + 240), continuation b, continuation c, continuation d]"
    if "0 \<le> a" "a < 8" "0 \<le> b" "b < 64" "16 \<le> a * 64 + b" "0 \<le> c" "c < 64" "0 \<le> d" "d < 64"
  proof -
    let ?x = "((a * 64 + b) * 64 + c) * 64 + d"
    have "a * 64 + b < 512" using that by linarith
    then have "16 * 64 \<le> (a * 64 + b) * 64 + c" "(a * 64 + b) * 64 + c < 512 * 64" using that(5-7) by simp_all
    then have "0 \<le> ?x" "\<not> ?x < 0x80" "\<not> ?x < 0x800" "\<not> ?x < 0x10000" "?x < 0x200000" using that(8,9) by simp_all
    then show ?thesis
      by (simp only: ulong_to_utf8_char_eq div2 div that if_False if_True simp_thms)
  qed
qed

lemma is_correct_cases:
  assumes "is_correct_utf8_sequence src = Some (True, n)"
  obtains (1) a :: int where "n = 1" "take n src = [char_of a]" "0 \<le> a" "a < 128" "n \<le> length src"
  | (2) a b :: int where "n = 2" "take n src = [char_of (a + 192), continuation b]" "2 \<le> a" "a < 32" "0 \<le> b" "b < 64"
      "n \<le> length src"
  | (3) a b c :: int where "n = 3" "take n src = [char_of (a + 224), continuation b, continuation c]"
      "0 \<le> a" "a < 16" "0 \<le> b" "b < 64" "0 \<le> c" "c < 64" "second_octet_ok (a + 224) (b + 128)" "n \<le> length src"
  | (4) a b :: int and c and d :: int where "n = 4" "take n src = [char_of (a + 240), continuation b, c, continuation d]"
      "0 \<le> a" "a \<le> 4" "0 \<le> b" "b < 64" "0 \<le> d" "d < 64" "second_octet_ok (a + 240) (b + 128)" "n \<le> length src"
proof -
  from assms obtain a src' where src: "src = a # src'"
    by (cases src) (auto simp: is_correct_utf8_sequence_def)
  note def = assms [unfolded is_correct_utf8_sequence_def src]
  have "(of_char a :: int) \<le> 0x7F \<or> 0xC2 \<le> (of_char a :: int) \<and> (of_char a :: int) \<le> 0xF4"
    using def by (simp split: if_splits)
  then consider "(of_char a :: int) \<le> 0x7F" | "0xC2 \<le> (of_char a :: int)" "(of_char a :: int) \<le> 0xDF"
    | "0xE0 \<le> (of_char a :: int)" "(of_char a :: int) \<le> 0xEF"
    | "0xF0 \<le> (of_char a :: int)" "(of_char a :: int) \<le> 0xF4"
    by linarith
  then show thesis
  proof cases
    case 1
    then show thesis using def that(1) [of "of_char a"] by (auto simp: src)
  next
    case 2
    then obtain b src'' where s: "src' = b # src''" using def by (cases src') auto
    then show thesis
      using 2 def that(2) [of "of_char a - 192" "of_char b - 128"] by (auto simp: src s split: if_splits)
  next
    case 3
    then obtain b src'' where b: "src' = b # src''" using def by (cases src') auto
    then obtain c src3 where c: "src'' = c # src3" using 3 def by (cases src'') (auto split: if_splits)
    have "0x80 \<le> (of_char b :: int) \<and> (of_char b :: int) \<le> 0xBF"
      using 3 def by (auto simp: b c second_octet_ok_iff split: if_splits)
    then show thesis
      using 3 def that(3) [of "of_char a - 224" "of_char b - 128" "of_char c - 128"]
      by (auto simp: src b c numeral_3_eq_3 split: if_splits)
  next
    case 4
    then obtain b src'' where b: "src' = b # src''" using def by (cases src') auto
    then obtain c src3 where c: "src'' = c # src3" using 4 def by (cases src'') (auto split: if_splits)
    then obtain d src4 where d: "src3 = d # src4" using 4 b def by (cases src3) (auto split: if_splits)
    have "0x80 \<le> (of_char b :: int) \<and> (of_char b :: int) \<le> 0xBF"
      using 4 def by (auto simp: b c d second_octet_ok_iff split: if_splits)
    then show thesis
      using 4 def that(4) [of "of_char a - 240" "of_char b - 128" c "of_char d - 128"]
      by (auto simp: src b c d eval_nat_numeral split: if_splits)
  qed
qed

lemma scalar_value_three: "0 \<le> c \<Longrightarrow> c < 64 \<Longrightarrow> 0 \<le> y \<Longrightarrow> y < 864 \<or> 896 \<le> y \<Longrightarrow> y < 1024 \<Longrightarrow> scalar_value (y * 64 + c)"
  by (auto simp: scalar_value_def)

lemma scalar_value_four:
  "0 \<le> c \<Longrightarrow> c < 64 \<Longrightarrow> 0 \<le> d \<Longrightarrow> d < 64 \<Longrightarrow> 16 \<le> y \<Longrightarrow> y < 272 \<Longrightarrow> scalar_value ((y * 64 + c) * 64 + d)"
  unfolding scalar_value_def by (simp add: distrib_right)

lemma is_correct_sound:
  assumes ok: "is_correct_utf8_sequence src = Some (True, n)"
    and third: "n = 4 \<Longrightarrow> 0x80 \<le> (of_char (src ! 2) :: int) \<and> (of_char (src ! 2) :: int) \<le> 0xBF"
  shows "n \<le> length src \<and> (\<exists>c. scalar_value c \<and> ulong_to_utf8_char c = Some (take n src))"
  using ok
proof (cases rule: is_correct_cases)
  case (1 a)
  then show ?thesis using encode_octets(1) by (auto simp: scalar_value_def)
next
  case (2 a b)
  then have "scalar_value (a * 64 + b)" by (simp add: scalar_value_def)
  then show ?thesis using 2 encode_octets(2) by metis
next
  case (3 a b c)
  then have "32 \<le> a * 64 + b \<and> (a \<noteq> 13 \<or> b < 32)" by (auto simp: second_octet_ok_iff split: if_splits)
  moreover from this have "a * 64 + b < 864 \<or> 896 \<le> a * 64 + b" "a * 64 + b < 1024"
    using 3(3-6) by presburger+
  then have "scalar_value ((a * 64 + b) * 64 + c)" using 3(3-8) by (intro scalar_value_three) auto
  ultimately show ?thesis using 3 encode_octets(3) by metis
next
  case (4 a b c d)
  then have *: "16 \<le> a * 64 + b \<and> (a \<noteq> 4 \<or> b < 16)" by (auto simp: second_octet_ok_iff split: if_splits)
  have "src ! 2 = c" using 4(1,2) nth_take [of 2 4 src] by simp
  then obtain k :: int where k: "c = continuation k" "0 \<le> k" "k < 64"
    using third [OF 4(1)] of_char_split [of 128 c] by (auto intro: that [of "of_char c - 128"])
  have "scalar_value (((a * 64 + b) * 64 + k) * 64 + d)"
    using * k(2,3) 4(3-8) by (intro scalar_value_four) presburger+
  moreover have "ulong_to_utf8_char (((a * 64 + b) * 64 + k) * 64 + d) = Some (take n src)"
    using encode_octets(4) [of a b k d] 4 * k by simp
  ultimately show ?thesis using 4 by blast
qed


section \<open>Strings of symbols\<close>

lemma zero_octet: "(of_char c :: int) = 0 \<longleftrightarrow> c = CHR 0x00"
  using of_char_eq_iff [of c "CHR 0x00", where ?'a = int] by simp

lemma char_of_nonzero: "0 < k \<Longrightarrow> k < 256 \<Longrightarrow> char_of (k :: int) \<noteq> CHR 0x00"
  using zero_octet [of "char_of k"] by simp

lemma scalar_value_range: "scalar_value c \<Longrightarrow> 0 \<le> c \<and> c < 0x80000000"
  by (auto simp: scalar_value_def)

lemma wchar_to_utf8_append_props:
  assumes "0 \<le> c" "c < 0x80000000"
  shows "utf8_char_to_wchar (wchar_to_utf8_append c @ rest) (length (wchar_to_utf8_append c)) = Some (True, c)"
    and "get_octet_count (hd (wchar_to_utf8_append c)) = length (wchar_to_utf8_append c)"
    and "wchar_to_utf8_append c \<noteq> []"
  using decode_encode [OF assms(1) wchar_to_utf8_append_eq [OF assms]] by simp_all

lemma utf8_to_wchar_append:
  assumes "0 \<le> c" "c < 0x80000000"
  shows "utf8_to_wchar (wchar_to_utf8_append c @ rest) = result_bind (utf8_to_wchar rest) (\<lambda>dst. Inr (c # dst))"
  using wchar_to_utf8_append_props [OF assms]
  by (subst utf8_to_wchar.simps) (simp add: Let_def hd_append2)

lemma utf8_to_wchar_wchar_to_utf8:
  "\<forall>c\<in>set cs. 0 \<le> c \<and> c < 0x80000000 \<Longrightarrow> utf8_to_wchar (wchar_to_utf8 cs) = Inr cs"
  by (induction cs) (simp_all add: utf8_to_wchar_append utf8_to_wchar.simps [of "[]"])

lemma is_correct_utf8_string_encoded:
  "\<forall>c\<in>set cs. scalar_value c \<and> c \<noteq> 0 \<Longrightarrow>
   is_correct_utf8_string (wchar_to_utf8 cs @ CHR 0x00 # rest) pos = Some None"
proof (induction cs arbitrary: pos)
  case Nil
  show ?case by (simp add: is_correct_utf8_string.simps [of "CHR 0x00 # rest"])
next
  case (Cons c cs)
  let ?s = "wchar_to_utf8_append c"
  have c: "scalar_value c" "0 \<le> c" "c < 0x80000000" "c \<noteq> 0" using Cons.prems scalar_value_range by auto
  note props = wchar_to_utf8_append_props [OF c(2,3)]
  have "is_correct_utf8_sequence (?s @ r) = Some (True, length ?s)" for r
    by (rule is_correct_encoded [OF c(1) wchar_to_utf8_append_eq [OF c(2,3)]])
  moreover have "(of_char (hd ?s) :: int) \<noteq> 0"
  proof
    assume "(of_char (hd ?s) :: int) = 0"
    then have "hd ?s = CHR 0x00" by (simp add: zero_octet)
    then have "?s = [CHR 0x00]" using props(2,3) by (cases ?s) (auto simp: get_octet_count_eq)
    then show False using props(1) [of "[]"] c(4) by (simp add: utf8_char_to_wchar_def FIRST_BYTE_MASKS_def)
  qed
  ultimately show ?case
    using Cons props(3) by (subst is_correct_utf8_string.simps) (simp add: octet_at_def nth_append hd_conv_nth)
qed


lemma no_zero_inside:
  assumes "is_correct_utf8_sequence src = Some (True, n)" "n \<noteq> 1" "n \<noteq> 4"
  shows "CHR 0x00 \<notin> set (take n src)"
  using assms by (cases rule: is_correct_cases) (auto dest: char_of_nonzero [rotated] simp: char_of_nonzero [symmetric])

text \<open>The strings on which the check does not depend on the octet that it does not read.\<close>

definition plain_text :: "string \<Rightarrow> bool" where
  "plain_text s \<longleftrightarrow> (\<forall>c\<in>set s. c \<noteq> CHR 0x00 \<and> (of_char c :: int) < 0xF0)"

lemma is_correct_plain:
  assumes "plain_text s" "s \<noteq> []"
  shows "is_correct_utf8_sequence (s @ [CHR 0x00]) = Some (False, 0)
    \<or> (\<exists>n c. is_correct_utf8_sequence (s @ [CHR 0x00]) = Some (True, n) \<and> 0 < n \<and> n \<le> length s
         \<and> scalar_value c \<and> ulong_to_utf8_char c = Some (take n s))"
proof -
  obtain a s' where s: "s = a # s'" using assms(2) by (cases s) auto
  have a: "(of_char a :: int) < 0xF0" using assms(1) s by (simp add: plain_text_def)
  show ?thesis
  proof (cases "\<exists>n. is_correct_utf8_sequence (s @ [CHR 0x00]) = Some (True, n)")
    case True
    then obtain n where n: "is_correct_utf8_sequence (s @ [CHR 0x00]) = Some (True, n)" by blast
    then have n4: "n \<noteq> 4" using a s by (auto simp: is_correct_utf8_sequence_def octet_at_Some split: if_splits)
    obtain c where c: "n \<le> Suc (length s)" "scalar_value c" "ulong_to_utf8_char c = Some (take n (s @ [CHR 0x00]))"
      using is_correct_sound [OF n] n4 by auto
    have "n \<le> length s"
    proof (rule ccontr)
      assume "\<not> n \<le> length s"
      then have "n = Suc (length s)" using c(1) by simp
      then show False using no_zero_inside [OF n _ n4] assms(2) by simp
    qed
    then show ?thesis using n c is_correct_utf8_sequence_count [OF n] by auto
  next
    case False
    then show ?thesis using a s
      by (cases s'; cases "tl s'") (auto simp: is_correct_utf8_sequence_def second_octet_ok_iff split: if_splits)
  qed
qed

lemma plain_text_drop: "plain_text s \<Longrightarrow> plain_text (drop n s)"
  by (auto simp: plain_text_def dest: in_set_dropD)

lemma encoded_append:
  assumes "scalar_value c" "ulong_to_utf8_char c = Some (take n s)" "plain_text s" "s \<noteq> []" "0 < n"
    and "\<forall>d\<in>set cs. scalar_value d \<and> d \<noteq> 0" "drop n s = wchar_to_utf8 cs"
  shows "\<exists>cs. (\<forall>d\<in>set cs. scalar_value d \<and> d \<noteq> 0) \<and> s = wchar_to_utf8 cs"
proof -
  have c: "0 \<le> c" "c < 0x80000000" using scalar_value_range [OF assms(1)] by auto
  have s: "wchar_to_utf8_append c = take n s" using wchar_to_utf8_append_eq [OF c] assms(2) by simp
  then have "s = wchar_to_utf8 (c # cs)" using assms(7) append_take_drop_id [of n s] by simp
  moreover have "c \<noteq> 0"
  proof
    assume "c = 0"
    then have "take n s = [CHR 0x00]" using s by (simp add: wchar_to_utf8_append_def char_of_def)
    then show False using assms(3-5) by (cases s) (auto simp: plain_text_def take_Cons')
  qed
  ultimately show ?thesis using assms(1,6) by (intro exI [of _ "c # cs"]) auto
qed

lemma is_correct_utf8_string_plain:
  assumes "plain_text s"
  shows "\<exists>p. is_correct_utf8_string (s @ [CHR 0x00]) pos = Some p
    \<and> (p = None \<longrightarrow> (\<exists>cs. (\<forall>c\<in>set cs. scalar_value c \<and> c \<noteq> 0) \<and> s = wchar_to_utf8 cs))"
  using assms
proof (induction "length s" arbitrary: s pos rule: less_induct)
  case less
  show ?case
  proof (cases "s = []")
    case True
    then show ?thesis by (subst is_correct_utf8_string.simps) (auto intro: exI [of _ "[]"])
  next
    case False
    then have "(of_char (s ! 0) :: int) \<noteq> 0"
      using less.prems by (auto simp: plain_text_def zero_octet)
    then have step: "is_correct_utf8_string (s @ [CHR 0x00]) pos =
      (case is_correct_utf8_sequence (s @ [CHR 0x00]) of
         None \<Rightarrow> None
       | Some (ok, n) \<Rightarrow> if \<not> ok then Some (Some pos) else is_correct_utf8_string (drop n (s @ [CHR 0x00])) (pos + n))"
      using False by (subst is_correct_utf8_string.simps) (simp add: octet_at_def nth_append)
    from is_correct_plain [OF less.prems False] show ?thesis
    proof (elim disjE exE conjE)
      assume "is_correct_utf8_sequence (s @ [CHR 0x00]) = Some (False, 0)"
      then show ?thesis by (simp add: step)
    next
      fix n c
      assume n: "is_correct_utf8_sequence (s @ [CHR 0x00]) = Some (True, n)" "0 < n" "n \<le> length s"
        and c: "scalar_value c" "ulong_to_utf8_char c = Some (take n s)"
      then have "length (drop n s) < length s" by simp
      then obtain p where "is_correct_utf8_string (drop n s @ [CHR 0x00]) (pos + n) = Some p"
        "p = None \<longrightarrow> (\<exists>cs. (\<forall>c\<in>set cs. scalar_value c \<and> c \<noteq> 0) \<and> drop n s = wchar_to_utf8 cs)"
        using less.hyps [of "drop n s" "pos + n"] plain_text_drop [OF less.prems] by blast
      then show ?thesis
        using n encoded_append [OF c less.prems False n(2)] by (auto simp: step)
    qed
  qed
qed

text \<open>
  (C15) On zero-terminated text without octets from F0, the check of a string reads only the string
  and succeeds exactly on the encodings of sequences of Unicode scalar values. The encoding of any
  sequence of scalar values passes the check.
\<close>

theorem is_correct_utf8_string_correct:
  assumes "plain_text s" "\<forall>c\<in>set us. scalar_value c \<and> c \<noteq> 0"
  shows "is_correct_utf8_string (s @ [CHR 0x00]) 0 \<noteq> None
    \<and> (is_correct_utf8_string (s @ [CHR 0x00]) 0 = Some None
         \<longleftrightarrow> (\<exists>cs. (\<forall>c\<in>set cs. scalar_value c \<and> c \<noteq> 0) \<and> s = wchar_to_utf8 cs))
    \<and> is_correct_utf8_string (wchar_to_utf8 us @ [CHR 0x00]) 0 = Some None"
  using is_correct_utf8_string_plain [OF assms(1), of 0] is_correct_utf8_string_encoded [of _ "[]" 0] assms(2)
  by auto

text \<open>Witness, for a Cyrillic letter.\<close>

theorem is_correct_utf8_string_correct_witness:
  "plain_text (wchar_to_utf8 [0x416]) \<and> is_correct_utf8_string (wchar_to_utf8 [0x416] @ [CHR 0x00]) 0 = Some None"
proof -
  have "plain_text (wchar_to_utf8 [0x416])" by (simp add: plain_text_def) code_simp
  moreover have "\<forall>c\<in>set [0x416]. scalar_value c \<and> c \<noteq> 0" by (simp add: scalar_value_def)
  ultimately show ?thesis
    using is_correct_utf8_string_correct [of "wchar_to_utf8 [0x416]" "[0x416]"] by blast
qed

section \<open>Prefixes and beginnings of symbols\<close>

lemma continuation_octets_map: "\<forall>k\<in>set ks. 0 \<le> k \<and> k < 64 \<Longrightarrow> continuation_octets (map continuation ks)"
  by (induction ks) (auto simp: octet_tests)

lemma wchar_to_utf8_append_tail:
  assumes "0 \<le> c" "c < 0x80000000"
  shows "continuation_octets (tl (wchar_to_utf8_append c))"
  using ulong_to_utf8_char_parts [OF assms(1) wchar_to_utf8_append_eq [OF assms]]
  by (auto simp: utf8_parts_def continuation_octets_map)

lemma utf8_substr_loop_encoded:
  assumes "\<forall>c\<in>set cs. 0 \<le> c \<and> c < 0x80000000"
  shows "\<exists>k\<le>length cs.
    utf8_substr_loop (pre @ wchar_to_utf8 cs) m (length pre) = Some (length pre + length (wchar_to_utf8 (take k cs)))
    \<and> length (wchar_to_utf8 (take k cs)) \<le> m
    \<and> (k < length cs \<longrightarrow> m < length (wchar_to_utf8 (take (Suc k) cs)))"
  using assms
proof (induction cs arbitrary: pre m)
  case Nil
  then show ?case by (subst utf8_substr_loop.simps) simp
next
  case (Cons c cs)
  let ?s = "wchar_to_utf8_append c" and ?src = "pre @ wchar_to_utf8 (c # cs)"
  have c: "0 \<le> c" "c < 0x80000000" using Cons.prems by auto
  note props = wchar_to_utf8_append_props [OF c] wchar_to_utf8_append_tail [OF c]
  then obtain a t where s: "?s = a # t" by (cases ?s) auto
  show ?case
  proof (cases "length ?s \<le> m")
    case True
    have "utf8_substr_loop ?src m (length pre) = utf8_substr_loop ((pre @ ?s) @ wchar_to_utf8 cs) (m - length ?s) (length (pre @ ?s))"
      using True props s by (subst utf8_substr_loop.simps) (simp add: nth_append)
    moreover obtain k where "k \<le> length cs"
      "utf8_substr_loop ((pre @ ?s) @ wchar_to_utf8 cs) (m - length ?s) (length (pre @ ?s))
         = Some (length (pre @ ?s) + length (wchar_to_utf8 (take k cs)))"
      "length (wchar_to_utf8 (take k cs)) \<le> m - length ?s"
      "k < length cs \<longrightarrow> m - length ?s < length (wchar_to_utf8 (take (Suc k) cs))"
      using Cons.IH [of "pre @ ?s" "m - length ?s"] Cons.prems by auto
    ultimately show ?thesis using True by (intro exI [of _ "Suc k"]) auto
  next
    case False
    then have "utf8_substr_loop ?src m (length pre) = Some (length pre)"
      using props s by (subst utf8_substr_loop.simps) (simp add: nth_append)
    then show ?thesis using False by (intro exI [of _ 0]) auto
  qed
qed

text \<open>
  (C14) Decoding the UTF-8 text of symbols of up to 31 bits gives the symbols back, and cutting it to
  a number of octets gives the text of as many whole symbols as fit.
\<close>

theorem utf8_text_roundtrip:
  assumes "\<forall>c\<in>set cs. 0 \<le> c \<and> c < 0x80000000"
  shows "utf8_to_wchar (wchar_to_utf8 cs) = Inr cs
    \<and> (\<exists>k\<le>length cs. utf8_substr (wchar_to_utf8 cs) m = Some (wchar_to_utf8 (take k cs))
         \<and> length (wchar_to_utf8 (take k cs)) \<le> m
         \<and> (k < length cs \<longrightarrow> m < length (wchar_to_utf8 (take (Suc k) cs))))"
proof -
  have take: "take (length (wchar_to_utf8 (take k cs))) (wchar_to_utf8 cs) = wchar_to_utf8 (take k cs)" for k
  proof -
    have "wchar_to_utf8 (as @ bs) = wchar_to_utf8 as @ wchar_to_utf8 bs" for as bs
      by (induction as) auto
    then have "wchar_to_utf8 cs = wchar_to_utf8 (take k cs) @ wchar_to_utf8 (drop k cs)"
      by (metis append_take_drop_id)
    then show ?thesis by (metis append_eq_conv_conj)
  qed
  show ?thesis
    using utf8_to_wchar_wchar_to_utf8 [OF assms] utf8_substr_loop_encoded [OF assms, of "[]" m]
    by (auto simp: utf8_substr_def take)
qed

text \<open>Witness, for a letter of one octet and one of two.\<close>

theorem utf8_text_roundtrip_witness:
  "list_all (\<lambda>c. 0 \<le> c \<and> c < (0x80000000 :: int)) [0x41, 0x416]
   \<and> utf8_to_wchar (wchar_to_utf8 [0x41, 0x416]) = Inr [0x41, 0x416]"
  using utf8_text_roundtrip [of "[0x41, 0x416]"] by simp


lemma continuation_octets_nth:
  "continuation_octets cs \<Longrightarrow> i < length cs \<Longrightarrow> 0x80 \<le> (of_char (cs ! i) :: int) \<and> (of_char (cs ! i) :: int) \<le> 0xBF"
  by (induction cs arbitrary: i) (auto simp: nth_Cons split: if_splits nat.splits)

lemma distance_loop_encoded:
  assumes t: "continuation_octets t" and j: "j \<le> length t"
    and a: "\<not> (0x80 \<le> (of_char a :: int) \<and> (of_char a :: int) \<le> 0xBF)"
    and limit: "\<forall>l. limit = Some l \<longrightarrow> l \<le> length pre \<or> length pre + j < l"
  shows "distance_loop (pre @ a # t @ rest) limit (length pre + j) = Some (Some (length pre))"
  using j limit
proof (induction j)
  case 0
  then show ?case using a by (subst distance_loop.simps) (auto simp: octet_at_def)
next
  case (Suc j)
  have "(pre @ a # t @ rest) ! (length pre + Suc j) = t ! j"
    using Suc.prems by (simp add: nth_append)
  then show ?case
    using Suc.prems Suc.IH [OF Suc_leD] continuation_octets_nth [OF t, of j]
    by (subst distance_loop.simps) (fastforce simp: octet_at_def)
qed

text \<open>
  From any octet of a symbol in a text, the walk back finds the beginning of that symbol and
  the number of its octets, if the given limit does not lie between them.
\<close>

lemma distance_to_sequence_beginning_correct:
  assumes c: "0 \<le> c" "c < 0x80000000" and j: "j < length (wchar_to_utf8_append c)"
    and limit: "\<forall>l. limit = Some l \<longrightarrow> l \<le> length pre \<or> length pre + j < l"
  shows "distance_to_sequence_beginning (pre @ wchar_to_utf8_append c @ rest) limit (length pre + j)
    = Some (Some (length (wchar_to_utf8_append c), j))"
proof -
  note props = wchar_to_utf8_append_props [OF c] wchar_to_utf8_append_tail [OF c]
  then obtain a t where s: "wchar_to_utf8_append c = a # t" by (cases "wchar_to_utf8_append c") auto
  have count: "get_octet_count a = Suc (length t)" and t: "continuation_octets t" using props s by auto
  have int: "(of_char x :: int) = int (of_char x)" for x by (simp only: of_nat_of_char)
  have a: "\<not> (0x80 \<le> (of_char a :: int) \<and> (of_char a :: int) \<le> 0xBF)"
    "(of_char a :: int) < 0x80 \<Longrightarrow> t = []"
    using count unfolding int by (auto simp: get_octet_count_eq Let_def split: if_splits)
  have ch: "(pre @ (a # t) @ rest) ! (length pre + j) = (a # t) ! j"
    using j s nth_append [of "a # t" rest j] by (simp add: nth_append_length_plus)
  have "distance_loop (pre @ a # t @ rest) limit (length pre + j) = Some (Some (length pre))"
    using distance_loop_encoded [OF t _ a(1) limit] j s by simp
  moreover have "(of_char ((a # t) ! j) :: int) < 0x80 \<Longrightarrow> j = 0 \<and> t = []"
    using a(2) continuation_octets_nth [OF t, of "j - 1"] j s by (cases j) auto
  ultimately show ?thesis
    using count j s ch by (auto simp: distance_to_sequence_beginning_def octet_at_def)
qed

text \<open>An instance, for the second octet of a letter that follows another.\<close>

lemma distance_to_sequence_beginning_correct_witness:
  "1 < length (wchar_to_utf8_append 0x416)
   \<and> distance_to_sequence_beginning (''a'' @ wchar_to_utf8_append 0x416 @ []) None (length ''a'' + 1)
       = Some (Some (length (wchar_to_utf8_append 0x416), 1))"
proof -
  have "1 < length (wchar_to_utf8_append 0x416)" by (simp add: wchar_to_utf8_append_def)
  then show ?thesis using distance_to_sequence_beginning_correct [where c = "0x416" and j = 1 and limit = None and pre = "''a''" and rest = "[]"] by simp
qed

end
