(* ===== verification/Text_Codes.thy ===== *)
theory Text_Codes
  imports Utf8
begin

text \<open>
  Binary data as text: the base64, hexadecimal and URL codings of src/src/String/StringManip.cpp.

  The decoder of base64 walks over its source with an iterator; the iterator is the rest of the
  source, and the number of bytes consumed is what \<open>check_padding\<close> takes from the pointers. Decoding
  in place is modelled with the buffer and the two positions in it.
\<close>

datatype format_error = InvalidFormatException

section \<open>Base64\<close>

definition STD_ENCODE :: string where
  "STD_ENCODE = ''ABCDEFGHIJKLMNOPQRSTUVWXYZabcdefghijklmnopqrstuvwxyz0123456789+/''"

definition MOD_ENCODE :: string where
  "MOD_ENCODE = ''ABCDEFGHIJKLMNOPQRSTUVWXYZabcdefghijklmnopqrstuvwxyz0123456789-_''"

definition PADDING :: char where "PADDING = CHR ''.''"

definition std_encode :: "nat \<Rightarrow> char" where
  "std_encode ch = STD_ENCODE ! (ch AND 63)"

definition mod_encode :: "nat \<Rightarrow> char" where
  "mod_encode ch = MOD_ENCODE ! (ch AND 63)"

text \<open>Octal 0177, a symbol to skip, is 127 here, and 0100, the end of the data, is 64.\<close>

definition DECODE :: "nat list" where
  "DECODE = [
    64, 127, 127, 127, 127, 127, 127, 127, 127, 127, 127, 127, 127, 127, 127, 127,
    127, 127, 127, 127, 127, 127, 127, 127, 127, 127, 127, 127, 127, 127, 127, 127,
    127, 127, 127, 127, 127, 127, 127, 127, 127, 127, 127, 62, 127, 62, 64, 63,
    52, 53, 54, 55, 56, 57, 58, 59, 60, 61, 127, 127, 127, 127, 127, 127,
    127, 0, 1, 2, 3, 4, 5, 6, 7, 8, 9, 10, 11, 12, 13, 14,
    15, 16, 17, 18, 19, 20, 21, 22, 23, 24, 25, 127, 127, 127, 127, 63,
    127, 26, 27, 28, 29, 30, 31, 32, 33, 34, 35, 36, 37, 38, 39, 40,
    41, 42, 43, 44, 45, 46, 47, 48, 49, 50, 51, 127, 64, 127, 127, 127,
    127, 127, 127, 127, 127, 127, 127, 127, 127, 127, 127, 127, 127, 127, 127, 127,
    127, 127, 127, 127, 127, 127, 127, 127, 127, 127, 127, 127, 127, 127, 127, 127,
    127, 127, 127, 127, 127, 127, 127, 127, 127, 127, 127, 127, 127, 127, 127, 127,
    127, 127, 127, 127, 127, 127, 127, 127, 127, 127, 127, 127, 127, 127, 127, 127,
    127, 127, 127, 127, 127, 127, 127, 127, 127, 127, 127, 127, 127, 127, 127, 127,
    127, 127, 127, 127, 127, 127, 127, 127, 127, 127, 127, 127, 127, 127, 127, 127,
    127, 127, 127, 127, 127, 127, 127, 127, 127, 127, 127, 127, 127, 127, 127, 127,
    127, 127, 127, 127, 127, 127, 127, 127, 127, 127, 127, 127, 127, 127, 127, 127]"

fun func_encode :: "string \<Rightarrow> bool \<Rightarrow> (nat \<Rightarrow> char) \<Rightarrow> char \<Rightarrow> nat \<Rightarrow> string" where
  "func_encode [] padding encode pad fill = []"
| "func_encode [p0] padding encode pad fill =
     (let c1 = of_char p0;
          buf = [encode (drop_bit 2 c1), encode ((push_bit 4 c1 AND 48) OR (fill AND 0x0F)), pad, pad]
      in take (if padding then 4 else 2) buf)"
| "func_encode [p0, p1] padding encode pad fill =
     (let c1 = of_char p0; c2 = of_char p1;
          buf = [encode (drop_bit 2 c1), encode ((push_bit 4 c1 AND 48) OR (drop_bit 4 c2 AND 15)),
                 encode ((push_bit 2 c2 AND 60) OR (fill AND 0x03)), pad]
      in take (if padding then 4 else 3) buf)"
| "func_encode (p0 # p1 # p2 # p) padding encode pad fill =
     (let c1 = of_char p0; c2 = of_char p1; c3 = of_char p2
      in [encode (drop_bit 2 c1), encode ((push_bit 4 c1 AND 48) OR (drop_bit 4 c2 AND 15)),
          encode ((push_bit 2 c2 AND 60) OR (drop_bit 6 c3 AND 3)), encode (c3 AND 63)]
         @ func_encode p padding encode pad fill)"

definition base64_encode :: "string \<Rightarrow> bool \<Rightarrow> string" where
  "base64_encode src padding = func_encode src padding std_encode CHR ''='' 0"

definition base64mod_encode :: "string \<Rightarrow> bool \<Rightarrow> nat \<Rightarrow> string" where
  "base64mod_encode src padding fill = func_encode src padding mod_encode PADDING fill"

definition Iterator_value :: "string \<Rightarrow> nat" where
  "Iterator_value p = DECODE ! (if p = [] then 0 else of_char (hd p))"

text \<open>The iterator after the blanks; the value is \<open>Iterator_value\<close> of it.\<close>

fun skip_blanks :: "string \<Rightarrow> string" where
  "skip_blanks [] = []"
| "skip_blanks (c # p) = (if Iterator_value (c # p) = 127 then skip_blanks p else c # p)"

text \<open>\<^verbatim>\<open>strncmp\<close> of the rest of the source with a zero-terminated text, for the length of the rest.\<close>

fun strncmp_differ :: "string \<Rightarrow> string \<Rightarrow> bool" where
  "strncmp_differ [] text = False"
| "strncmp_differ (c # p) [] = (c \<noteq> CHR 0x00)"
| "strncmp_differ (c # p) (d # text) =
     (if c \<noteq> d then True else if c = CHR 0x00 then False else strncmp_differ p text)"

definition check_padding :: "string \<Rightarrow> string \<Rightarrow> format_error + unit" where
  "check_padding src p =
     (let len = int (length p); pad_size = (int (length p) - int (length src)) mod 2 ^ 64 AND 3
      in if (len \<noteq> pad_size \<and> len \<noteq> pad_size + 4)
            \<or> (strncmp_differ p ''......'' \<and> strncmp_differ p ''||||||'' \<and> strncmp_differ p ''======'')
         then Inl InvalidFormatException else Inr ())"

text \<open>
  The loop: the decoded bytes, the fill bits stored through the pointer \<open>fill\<close> (if it is not null)
  and the iterator at the end.
\<close>

lemma length_skip_blanks: "length (skip_blanks p) \<le> length p"
  by (induction p) auto

lemma skip_blanks_nonempty: "Iterator_value (skip_blanks p) \<noteq> 64 \<Longrightarrow> skip_blanks p \<noteq> []"
  by (auto simp: Iterator_value_def DECODE_def)

function base64mod_decode_loop :: "bool \<Rightarrow> string \<Rightarrow> format_error + (string \<times> nat option \<times> string)" where
  "base64mod_decode_loop fill p0 =
     (if p0 = [] then Inr ([], None, p0)
      else
        let p1 = skip_blanks p0; c1 = Iterator_value p1
        in if c1 = 64 then Inr ([], None, p1)
        else let p2 = skip_blanks (tl p1); c2 = Iterator_value p2
        in if c2 = 64 then Inl InvalidFormatException
        else let p3 = skip_blanks (tl p2); c3 = Iterator_value p3
        in if c3 = 64 then
             (let left = c2 AND 0x0F
              in if \<not> fill \<and> left \<noteq> 0 then Inl InvalidFormatException
                 else Inr ([char_of (push_bit 2 c1 OR drop_bit 4 c2)], if fill then Some left else None, p3))
        else let p4 = skip_blanks (tl p3); c4 = Iterator_value p4;
                 dst = [char_of (push_bit 2 c1 OR drop_bit 4 c2), char_of (push_bit 4 c2 OR drop_bit 2 c3)]
        in if c4 = 64 then
             (let left = c3 AND 0x03
              in if \<not> fill \<and> left \<noteq> 0 then Inl InvalidFormatException
                 else Inr (dst, if fill then Some left else None, p4))
        else result_bind (base64mod_decode_loop fill (tl p4))
               (\<lambda>(rest, left, p). Inr (dst @ [char_of (push_bit 6 c3 OR c4)] @ rest, left, p)))"
  by pat_completeness auto

lemma length_tl_skip_blanks: "p \<noteq> [] \<Longrightarrow> length (tl (skip_blanks p)) < length p"
  using length_skip_blanks [of p] by (cases p; cases "skip_blanks p") auto

lemma length_tl_skip_blanks_le: "length (tl (skip_blanks p)) \<le> length p"
  using length_skip_blanks [of p] by simp

termination base64mod_decode_loop
proof (relation "measure (\<lambda>(fill, p). length p)")
  fix p0 p1 p2 p3 p4 :: string
  assume "p0 \<noteq> []" and p: "p1 = skip_blanks p0" "p2 = skip_blanks (tl p1)" "p3 = skip_blanks (tl p2)" "p4 = skip_blanks (tl p3)"
  have "length (tl p4) \<le> length (tl p3)" "length (tl p3) \<le> length (tl p2)" "length (tl p2) \<le> length (tl p1)"
    unfolding p by (rule length_tl_skip_blanks_le)+
  moreover have "length (tl p1) < length p0" unfolding p using \<open>p0 \<noteq> []\<close> by (rule length_tl_skip_blanks)
  ultimately show "((fill, tl p4), (fill, p0)) \<in> measure (\<lambda>(fill, p). length p)" for fill :: bool by simp
qed auto

declare base64mod_decode_loop.simps [simp del]

definition base64mod_decode :: "string \<Rightarrow> bool \<Rightarrow> bool \<Rightarrow> format_error + (string \<times> nat option)" where
  "base64mod_decode src padding fill =
     result_bind (base64mod_decode_loop fill src) (\<lambda>(dst, left, p).
       if padding \<or> p \<noteq> [] then result_bind (check_padding src p) (\<lambda>_. Inr (dst, left))
       else Inr (dst, left))"

definition base64mod_encoded_size :: "nat \<Rightarrow> bool \<Rightarrow> nat" where
  "base64mod_encoded_size original_size padding =
     (if padding then (original_size + 2) div 3 * 4
      else original_size div 3 * 4 + (if original_size mod 3 \<noteq> 0 then original_size mod 3 + 1 else 0))"

definition base64mod_max_decoded_size :: "nat \<Rightarrow> nat" where
  "base64mod_max_decoded_size original_size = (original_size + 3) div 4 * 3"

definition base64mod_fill_size :: "nat \<Rightarrow> nat" where
  "base64mod_fill_size original_size = drop_bit (original_size mod 3) 8 AND 6"

section \<open>URL encoding\<close>

definition MIME :: CharTable where "MIME = CharTable_of_str ''A-Za-z0-9_*.,-'' False"

definition hex_pair :: "char \<Rightarrow> string" where
  "hex_pair ch = [HEX_DIGITS ! (drop_bit 4 (of_char ch) AND 0x0F), HEX_DIGITS ! (of_char ch AND 0x0F)]"

function mime_url_encode :: "string \<Rightarrow> string" where
  "mime_url_encode cur =
     (let ptr = Category_find_nonowned (CharTable_owned MIME) cur
      in take ptr cur
         @ (if ptr = length cur then []
            else let ch = cur ! ptr
                 in (if ch = CHR '' '' then ''+'' else CHR ''%'' # hex_pair ch)
                    @ mime_url_encode (drop (Suc ptr) cur)))"
  by pat_completeness auto

lemma find_nonowned_le: "Category_find_nonowned owned s \<le> length s"
  by (simp add: find_nonowned_takeWhile length_takeWhile_le)

termination mime_url_encode
proof (relation "measure length")
  fix cur :: string and ptr
  assume "ptr = Category_find_nonowned (CharTable_owned MIME) cur" "ptr \<noteq> length cur"
  then have "ptr < length cur" by (simp add: find_nonowned_le le_neq_implies_less)
  then show "(drop (Suc ptr) cur, cur) \<in> measure length" by simp
qed auto

declare mime_url_encode.simps [simp del]

text \<open>A broken \<^verbatim>\<open>%\<close> sequence is an error if \<open>strict\<close>, and otherwise its \<^verbatim>\<open>%\<close> is copied.\<close>

fun mime_url_decode :: "string \<Rightarrow> bool \<Rightarrow> format_error + string" where
  "mime_url_decode [] strict = Inr []"
| "mime_url_decode (ch # cur) strict =
     (if ch = CHR ''+'' then result_bind (mime_url_decode cur strict) (\<lambda>dst. Inr (CHR '' '' # dst))
      else if ch = CHR ''%'' then
        (if length cur < 2 \<or> \<not> CharTable_owned HEX_NUMBER (cur ! 0) \<or> \<not> CharTable_owned HEX_NUMBER (cur ! 1)
         then if strict then Inl InvalidFormatException
              else result_bind (mime_url_decode cur strict) (\<lambda>dst. Inr (ch # dst))
         else result_bind (mime_url_decode (drop 2 cur) strict)
                (\<lambda>dst. Inr (hex_to_char (cur ! 0) (cur ! 1) # dst)))
      else result_bind (mime_url_decode cur strict) (\<lambda>dst. Inr (ch # dst)))"

text \<open>
  Decoding in place: \<open>src\<close> and \<open>dest\<close> are positions in \<open>mem\<close>, \<open>left\<close> is the number of bytes left.
\<close>

function mime_url_decode_in_place_loop :: "string \<Rightarrow> nat \<Rightarrow> nat \<Rightarrow> nat \<Rightarrow> format_error + string" where
  "mime_url_decode_in_place_loop mem dest src left =
     (if left = 0 then Inr (take dest mem)
      else let left = left - 1
           in if mem ! src = CHR ''+'' then
                mime_url_decode_in_place_loop (mem[dest := CHR '' '']) (dest + 1) (src + 1) left
              else if mem ! src = CHR ''%'' then
                (if left < 2 \<or> \<not> CharTable_owned HEX_NUMBER (mem ! (src + 1))
                    \<or> \<not> CharTable_owned HEX_NUMBER (mem ! (src + 2))
                 then Inl InvalidFormatException
                 else mime_url_decode_in_place_loop
                        (mem[dest := hex_to_char (mem ! (src + 1)) (mem ! (src + 2))])
                        (dest + 1) (src + 3) (left - 2))
              else mime_url_decode_in_place_loop (mem[dest := mem ! src]) (dest + 1) (src + 1) left)"
  by pat_completeness auto

termination mime_url_decode_in_place_loop
  by (relation "measure (\<lambda>(_, _, _, left). left)") auto

declare mime_url_decode_in_place_loop.simps [simp del]

definition mime_url_decode_in_place :: "string \<Rightarrow> format_error + string" where
  "mime_url_decode_in_place mem =
     (if length mem = 0 then Inr mem else mime_url_decode_in_place_loop mem 0 0 (length mem))"

section \<open>Hexadecimal data\<close>

definition hex_encode :: "string \<Rightarrow> bool \<Rightarrow> string" where
  "hex_encode data skip_leading_zeroes =
     (if data = [] then []
      else let data = (if skip_leading_zeroes then dropWhile (\<lambda>c. c = CHR 0x00) data else data)
           in if data = [] then ''0''
              else if skip_leading_zeroes \<and> (of_char (hd data) :: nat) AND 0xF0 = 0 then
                HEX_DIGITS ! of_char (hd data) # concat (map hex_pair (tl data))
              else concat (map hex_pair data))"

text \<open>The bytes of the array; \<open>None\<close> inside the result is the assertion of \<open>hex_to_buf\<close>.\<close>

definition hex_decode :: "string \<Rightarrow> bool \<Rightarrow> format_error + string option" where
  "hex_decode src allow_odd_string =
     (let odd_string = length src AND 1 \<noteq> 0
      in if odd_string \<and> \<not> allow_odd_string then Inl InvalidFormatException
         else if odd_string then
           Inr (map_option ((#) (convert (hex_to_int (src ! 0)))) (hex_to_buf (tl src)))
         else Inr (hex_to_buf src))"

section \<open>Groups of six bits\<close>

lemma nat_push_bit_or: "k < 2 ^ n \<Longrightarrow> push_bit n (d :: nat) OR k = d * 2 ^ n + k"
proof -
  assume "k < 2 ^ n"
  then have "int (push_bit n d OR k) = int (d * 2 ^ n + k)"
    using push_bit_or_low [of "int k" n "int d"] by (simp add: of_nat_or_eq of_nat_push_bit)
  then show ?thesis by (simp only: of_nat_eq_iff)
qed

lemma nat_and_mask: "(k :: nat) AND (2 ^ n - 1) = k mod 2 ^ n"
  using take_bit_eq_mask [of n k] by (simp add: mask_eq_exp_minus_1 take_bit_eq_mod)

lemma nat_and_push: "(k :: nat) AND push_bit n m = push_bit n (drop_bit n k AND m)"
  by (rule bit_eqI) (auto simp: bit_simps)

lemma sextets:
  fixes a b c fill :: nat
  assumes "a < 256" "b < 256" "c < 256"
  shows "drop_bit 2 a AND 63 = a div 4"
    and "((push_bit 4 a AND 48) OR (fill AND 15)) AND 63 = a mod 4 * 16 + fill mod 16"
    and "((push_bit 4 a AND 48) OR (drop_bit 4 b AND 15)) AND 63 = a mod 4 * 16 + b div 16"
    and "((push_bit 2 b AND 60) OR (fill AND 3)) AND 63 = b mod 16 * 4 + fill mod 4"
    and "((push_bit 2 b AND 60) OR (drop_bit 6 c AND 3)) AND 63 = b mod 16 * 4 + c div 64"
    and "(c AND 63) AND 63 = c mod 64"
proof -
  have m: "k AND 63 = k mod 64" "k AND 15 = k mod 16" "k AND 3 = k mod 4" for k :: nat
    using nat_and_mask [of k 6] nat_and_mask [of k 4] nat_and_mask [of k 2] by simp_all
  have h: "push_bit 4 k AND 48 = push_bit 4 (k mod 4)" "push_bit 2 k AND 60 = push_bit 2 (k mod 16)" for k :: nat
    using nat_and_push [of "push_bit 4 k" 4 3] nat_and_push [of "push_bit 2 k" 2 15] m
    by (simp_all add: drop_bit_eq_div push_bit_eq_mult)
  have low: "x * 16 + y < 64" if "x < 4" "y < 16" for x y :: nat using that by simp
  have low2: "x * 4 + y < 64" if "x < 16" "y < 4" for x y :: nat using that by simp
  show "drop_bit 2 a AND 63 = a div 4" using assms by (simp add: m drop_bit_eq_div)
  show "((push_bit 4 a AND 48) OR (fill AND 15)) AND 63 = a mod 4 * 16 + fill mod 16"
    using nat_push_bit_or [of "fill mod 16" 4 "a mod 4"] low [of "a mod 4" "fill mod 16"] by (simp add: m h [simplified])
  show "((push_bit 4 a AND 48) OR (drop_bit 4 b AND 15)) AND 63 = a mod 4 * 16 + b div 16"
    using assms nat_push_bit_or [of "b div 16" 4 "a mod 4"] low [of "a mod 4" "b div 16"]
    by (simp add: m h drop_bit_eq_div)
  show "((push_bit 2 b AND 60) OR (fill AND 3)) AND 63 = b mod 16 * 4 + fill mod 4"
    using nat_push_bit_or [of "fill mod 4" 2 "b mod 16"] low2 [of "b mod 16" "fill mod 4"] by (simp add: m h [simplified])
  show "((push_bit 2 b AND 60) OR (drop_bit 6 c AND 3)) AND 63 = b mod 16 * 4 + c div 64"
    using assms nat_push_bit_or [of "c div 64" 2 "b mod 16"] low2 [of "b mod 16" "c div 64"]
    by (simp add: m h drop_bit_eq_div)
  show "(c AND 63) AND 63 = c mod 64" by (simp add: m)
qed

lemma octets:
  fixes s t :: nat
  assumes "s < 64" "t < 64"
  shows "char_of (push_bit 2 s OR drop_bit 4 t) = char_of (s * 4 + t div 16)"
    and "char_of (push_bit 4 s OR drop_bit 2 t) = char_of (s * 16 + t div 4)"
    and "char_of (push_bit 6 s OR t) = char_of (s * 64 + t)"
  using assms nat_push_bit_or [of "t div 16" 2 s] nat_push_bit_or [of "t div 4" 4 s] nat_push_bit_or [of t 6 s]
  by (simp_all add: drop_bit_eq_div)

lemma DECODE_map:
  "map (\<lambda>c. DECODE ! of_char c) STD_ENCODE = [0..<64]" "map (\<lambda>c. DECODE ! of_char c) MOD_ENCODE = [0..<64]"
  by (simp_all add: DECODE_def STD_ENCODE_def MOD_ENCODE_def upt_rec)

lemma DECODE_ENCODE:
  "k < 64 \<Longrightarrow> DECODE ! of_char (STD_ENCODE ! k) = k" "k < 64 \<Longrightarrow> DECODE ! of_char (MOD_ENCODE ! k) = k"
proof -
  have l: "length STD_ENCODE = 64" "length MOD_ENCODE = 64" by (simp_all add: STD_ENCODE_def MOD_ENCODE_def)
  show "k < 64 \<Longrightarrow> DECODE ! of_char (STD_ENCODE ! k) = k"
    using nth_map [of k STD_ENCODE "\<lambda>c. DECODE ! of_char c"] by (simp add: DECODE_map l)
  show "k < 64 \<Longrightarrow> DECODE ! of_char (MOD_ENCODE ! k) = k"
    using nth_map [of k MOD_ENCODE "\<lambda>c. DECODE ! of_char c"] by (simp add: DECODE_map l)
qed

text \<open>The number of symbols of padding, and induction over groups of three bytes.\<close>

definition tail_size :: "nat \<Rightarrow> nat" where
  "tail_size n = (3 - n mod 3) mod 3"

lemma three_induct [case_names Nil one two three]:
  fixes P :: "string \<Rightarrow> bool"
  assumes "P []" "\<And>a. P [a]" "\<And>a b. P [a, b]" "\<And>a b c p. P p \<Longrightarrow> P (a # b # c # p)"
  shows "P src"
proof (induction "length src" arbitrary: src rule: less_induct)
  case less
  consider "src = []" | a where "src = [a]" | a b where "src = [a, b]" | a b c p where "src = a # b # c # p"
    by (metis neq_Nil_conv)
  then show ?case using assms less by cases auto
qed

lemma fill_sizes [simp]:
  "base64mod_fill_size 0 = 0" "base64mod_fill_size (Suc 0) = 4" "base64mod_fill_size (Suc (Suc 0)) = 2"
  "base64mod_fill_size (Suc (Suc (Suc n))) = base64mod_fill_size n"
  "tail_size 0 = 0" "tail_size (Suc 0) = 2" "tail_size (Suc (Suc 0)) = 1"
  "tail_size (Suc (Suc (Suc n))) = tail_size n"
proof -
  have "Suc (Suc (Suc n)) mod 3 = n mod 3" by presburger
  then show "base64mod_fill_size (Suc (Suc (Suc n))) = base64mod_fill_size n" "tail_size (Suc (Suc (Suc n))) = tail_size n"
    by (simp_all add: base64mod_fill_size_def tail_size_def)
qed (simp_all add: base64mod_fill_size_def tail_size_def drop_bit_eq_div)

lemma bytes:
  fixes a b c :: char
  defines "x \<equiv> of_char a :: nat" and "y \<equiv> of_char b :: nat" and "z \<equiv> of_char c :: nat"
  shows "x div 4 < 64" "z mod 64 < 64" "x mod 4 * 16 + y div 16 < 64" "y mod 16 * 4 + z div 64 < 64"
    and "k < 16 \<Longrightarrow> x mod 4 * 16 + k < 64" "k < 4 \<Longrightarrow> y mod 16 * 4 + k < 64"
    and "k < 16 \<Longrightarrow> (x mod 4 * 16 + k) mod 16 = k" "k < 4 \<Longrightarrow> (y mod 16 * 4 + k) mod 4 = k"
    and "k < 16 \<Longrightarrow> char_of (x div 4 * 4 + (x mod 4 * 16 + k) div 16) = a"
    and "char_of (x div 4 * 4 + (x mod 4 * 16 + y div 16) div 16) = a"
    and "k < 4 \<Longrightarrow> char_of ((x mod 4 * 16 + y div 16) * 16 + (y mod 16 * 4 + k) div 4) = b"
    and "char_of ((x mod 4 * 16 + y div 16) * 16 + (y mod 16 * 4 + z div 64) div 4) = b"
    and "char_of ((y mod 16 * 4 + z div 64) * 64 + z mod 64) = c"
proof -
  have r: "x < 256" "y < 256" "z < 256" by (simp_all add: x_def y_def z_def)
  have e: "x div 4 * 4 + (x mod 4 * 16 + k) div 16 = x" if "k < 16" for k using that by simp
  have f: "(x mod 4 * 16 + y div 16) * 16 + (y mod 16 * 4 + k) div 4 = x mod 4 * 256 + y" if "k < 4" for k
    using that r by simp
  have g: "(y mod 16 * 4 + z div 64) * 64 + z mod 64 = y mod 16 * 256 + z" using r by simp
  have c: "char_of (m * 256 + n) = (char_of n :: char)" for m n :: nat by (simp add: char_of_eq_iff take_bit_eq_mod)
  show "x div 4 < 64" "z mod 64 < 64" "x mod 4 * 16 + y div 16 < 64" "y mod 16 * 4 + z div 64 < 64"
    "k < 16 \<Longrightarrow> x mod 4 * 16 + k < 64" "k < 4 \<Longrightarrow> y mod 16 * 4 + k < 64"
    "k < 16 \<Longrightarrow> (x mod 4 * 16 + k) mod 16 = k" "k < 4 \<Longrightarrow> (y mod 16 * 4 + k) mod 4 = k"
    using r by simp_all
  show "k < 16 \<Longrightarrow> char_of (x div 4 * 4 + (x mod 4 * 16 + k) div 16) = a" by (simp only: e) (simp add: x_def)
  have "y div 16 < 16" "z div 64 < 4" using r by simp_all
  then show "char_of (x div 4 * 4 + (x mod 4 * 16 + y div 16) div 16) = a"
    "char_of ((x mod 4 * 16 + y div 16) * 16 + (y mod 16 * 4 + z div 64) div 4) = b"
    by (simp_all only: e f c) (simp_all add: x_def y_def)
  show "k < 4 \<Longrightarrow> char_of ((x mod 4 * 16 + y div 16) * 16 + (y mod 16 * 4 + k) div 4) = b"
    by (simp only: f c) (simp add: y_def)
  show "char_of ((y mod 16 * 4 + z div 64) * 64 + z mod 64) = c" by (simp only: g c) (simp add: z_def)
qed

text \<open>What decoding relies on: the symbols of both alphabets, and no other symbol between them.\<close>

locale sextet_alphabet =
  fixes encode :: "nat \<Rightarrow> char"
  assumes encode_mask: "encode k = encode (k AND 63)"
    and decode_symbol: "k < 64 \<Longrightarrow> DECODE ! of_char (encode k) = k"
begin

lemma Iterator_value_encode: "k < 64 \<Longrightarrow> Iterator_value (encode k # p) = k"
  by (simp add: Iterator_value_def decode_symbol)

lemma skip_blanks_encode: "k < 64 \<Longrightarrow> skip_blanks (encode k # p) = encode k # p"
  by (simp add: Iterator_value_encode)

lemmas decode_steps = Iterator_value_encode skip_blanks_encode

lemma encode_groups:
  fixes x y z fill :: nat
  assumes "x < 256" "y < 256" "z < 256"
  shows "encode (drop_bit 2 x) = encode (x div 4)"
    and "encode ((push_bit 4 x AND 48) OR (fill AND 0x0F)) = encode (x mod 4 * 16 + fill mod 16)"
    and "encode ((push_bit 4 x AND 48) OR (drop_bit 4 y AND 15)) = encode (x mod 4 * 16 + y div 16)"
    and "encode ((push_bit 2 y AND 60) OR (fill AND 0x03)) = encode (y mod 16 * 4 + fill mod 4)"
    and "encode ((push_bit 2 y AND 60) OR (drop_bit 6 z AND 3)) = encode (y mod 16 * 4 + z div 64)"
    and "encode (z AND 63) = encode (z mod 64)"
  by (simp_all only: encode_mask [of "drop_bit 2 x"] encode_mask [of "(_ OR _)"] encode_mask [of "z AND 63"]
      sextets [OF assms]) (use assms in \<open>simp_all add: drop_bit_eq_div\<close>)

lemmas groups = encode_groups [OF of_char_less of_char_less of_char_less]

text \<open>
  Four symbols, and the end of the data after three or two; \<open>q\<close> are symbols of padding, on which
  the iterator stops.
\<close>

lemma decode_four:
  assumes "s1 < 64" "s2 < 64" "s3 < 64" "s4 < 64"
  shows "base64mod_decode_loop fill (encode s1 # encode s2 # encode s3 # encode s4 # p) =
    result_bind (base64mod_decode_loop fill p)
      (\<lambda>(rest, left, p). Inr ([char_of (s1 * 4 + s2 div 16), char_of (s2 * 16 + s3 div 4), char_of (s3 * 64 + s4)] @ rest, left, p))"
  by (subst base64mod_decode_loop.simps)
    (use assms in \<open>simp add: decode_steps octets Let_def del: skip_blanks.simps\<close>)

lemma decode_three:
  assumes "s1 < 64" "s2 < 64" "s3 < 64" "Iterator_value (skip_blanks q) = 64"
  shows "base64mod_decode_loop fill (encode s1 # encode s2 # encode s3 # q) =
    (if \<not> fill \<and> s3 mod 4 \<noteq> 0 then Inl InvalidFormatException
     else Inr ([char_of (s1 * 4 + s2 div 16), char_of (s2 * 16 + s3 div 4)],
               if fill then Some (s3 mod 4) else None, skip_blanks q))"
proof -
  have "s3 AND 3 = s3 mod 4" using nat_and_mask [of s3 2] by simp
  then show ?thesis
    by (subst base64mod_decode_loop.simps)
      (use assms in \<open>simp add: decode_steps octets Let_def del: skip_blanks.simps\<close>)
qed

lemma decode_two:
  assumes "s1 < 64" "s2 < 64" "Iterator_value (skip_blanks q) = 64"
  shows "base64mod_decode_loop fill (encode s1 # encode s2 # q) =
    (if \<not> fill \<and> s2 mod 16 \<noteq> 0 then Inl InvalidFormatException
     else Inr ([char_of (s1 * 4 + s2 div 16)], if fill then Some (s2 mod 16) else None, skip_blanks q))"
proof -
  have "s2 AND 15 = s2 mod 16" using nat_and_mask [of s2 4] by simp
  then show ?thesis
    by (subst base64mod_decode_loop.simps)
      (use assms in \<open>simp add: decode_steps octets Let_def del: skip_blanks.simps\<close>)
qed

lemma decode_loop_encode:
  assumes "\<And>k. Iterator_value (skip_blanks (replicate k pad)) = 64"
  shows "base64mod_decode_loop fill (func_encode src padding encode pad f) =
    (let fill_size = base64mod_fill_size (length src); left = f mod 2 ^ fill_size;
         q = skip_blanks (replicate (if padding then tail_size (length src) else 0) pad)
     in if \<not> fill \<and> left \<noteq> 0 then Inl InvalidFormatException
        else Inr (src, if fill \<and> fill_size \<noteq> 0 then Some left else None, q))"
proof (induction src rule: three_induct)
  case Nil
  then show ?case using assms [of 0] by (simp add: base64mod_decode_loop.simps)
next
  case (one a)
  let ?x = "of_char a :: nat" and ?q = "replicate (if padding then 2 else 0) pad"
  have "func_encode [a] padding encode pad f = encode (?x div 4) # encode (?x mod 4 * 16 + f mod 16) # ?q"
    by (simp only: func_encode.simps Let_def groups(1,2)) (simp add: numeral_2_eq_2)
  then show ?case by (simp only: decode_two assms bytes mod_less_divisor zero_less_numeral) (simp add: Let_def del: skip_blanks.simps)
next
  case (two a b)
  let ?x = "of_char a :: nat" and ?y = "of_char b :: nat" and ?q = "replicate (if padding then 1 else 0) pad"
  have "func_encode [a, b] padding encode pad f
      = encode (?x div 4) # encode (?x mod 4 * 16 + ?y div 16) # encode (?y mod 16 * 4 + f mod 4) # ?q"
    by (simp only: func_encode.simps Let_def groups(1,3,4)) simp
  then show ?case
    by (simp only: decode_three assms bytes mod_less_divisor zero_less_numeral) (simp add: Let_def del: skip_blanks.simps)
next
  case (three a b c p)
  let ?x = "of_char a :: nat" and ?y = "of_char b :: nat" and ?z = "of_char c :: nat"
  have "func_encode (a # b # c # p) padding encode pad f
      = encode (?x div 4) # encode (?x mod 4 * 16 + ?y div 16) # encode (?y mod 16 * 4 + ?z div 64)
        # encode (?z mod 64) # func_encode p padding encode pad f"
    by (simp only: func_encode.simps Let_def groups(1,3,5,6)) simp
  then show ?case
    using three by (simp only: decode_four bytes) (simp add: Let_def del: skip_blanks.simps)
qed

end

lemma and_63_nat: "(k :: nat) AND 63 = k mod 64"
  using nat_and_mask [of k 6] by simp

interpretation b64std: sextet_alphabet std_encode
  by unfold_locales (simp_all add: std_encode_def DECODE_ENCODE and_63_nat)

interpretation b64mod: sextet_alphabet mod_encode
  by unfold_locales (simp_all add: mod_encode_def DECODE_ENCODE and_63_nat)

lemma base64mod_encoded_size_group:
  "base64mod_encoded_size (Suc (Suc (Suc n))) padding = 4 + base64mod_encoded_size n padding"
proof -
  have "Suc (Suc (Suc n)) mod 3 = n mod 3" "Suc (Suc (Suc n)) div 3 = n div 3 + 1"
    "(Suc (Suc (Suc n)) + 2) div 3 = (n + 2) div 3 + 1" by presburger+
  note facts = this
  show ?thesis
    unfolding base64mod_encoded_size_def facts by simp
qed

lemma length_func_encode:
  "length (func_encode src padding encode pad f) = base64mod_encoded_size (length src) padding"
proof (induction src rule: three_induct)
  case (three a b c p)
  then show ?case by (simp add: base64mod_encoded_size_group Let_def)
qed (simp_all add: base64mod_encoded_size_def Let_def)

lemma tail_size_cases: "tail_size n = 0 \<or> tail_size n = 1 \<or> tail_size n = 2"
proof -
  have "k < 3 \<Longrightarrow> k = 0 \<or> k = 1 \<or> k = (2 :: nat)" for k by linarith
  then show ?thesis by (simp add: tail_size_def)
qed

lemma padded_size: "base64mod_encoded_size n True mod 4 = 0"
  by (simp add: base64mod_encoded_size_def)

lemma pad_size_eq:
  assumes "m mod 4 = 0" "k < 4"
  shows "(int k - int m) mod 2 ^ 64 AND 3 = int k"
proof -
  have "4 dvd (2 ^ 64 :: int)" using le_imp_power_dvd [of 2 64 "2 :: int"] by simp
  then have "(int k - int m) mod 2 ^ 64 mod 4 = (int k - int m) mod 4" by (rule mod_mod_cancel)
  also have "int m mod 4 = int (m mod 4)" by (simp only: zmod_int of_nat_numeral)
  then have "int m mod 4 = 0" using assms(1) by simp
  then have "(int k - int m) mod 4 = int k mod 4" using mod_diff_right_eq [of "int k" "int m" 4] by simp
  also have "\<dots> = int k" using assms(2) by simp
  finally show ?thesis by (simp only: and_masks)
qed

lemma check_padding_ok:
  assumes "length src mod 4 = 0" "p = [] \<or> p = replicate (tail_size n) PADDING"
  shows "check_padding src p = Inr ()"
proof -
  have "length p < 4" using assms(2) tail_size_cases [of n] by auto
  note size = pad_size_eq [OF assms(1) this]
  have "\<not> strncmp_differ p ''......''"
    using assms(2) tail_size_cases [of n] by (auto simp: PADDING_def numeral_2_eq_2)
  then show ?thesis unfolding check_padding_def Let_def size by simp
qed

text \<open>The fill bits that decoding returns through the pointer.\<close>

definition fill_bits :: "nat \<Rightarrow> nat \<Rightarrow> nat option" where
  "fill_bits n fill =
     (if base64mod_fill_size n = 0 then None else Some (fill mod 2 ^ base64mod_fill_size n))"

lemma Iterator_value_pads:
  "Iterator_value (skip_blanks (replicate k PADDING)) = 64" "skip_blanks (replicate k PADDING) = replicate k PADDING"
  "Iterator_value (skip_blanks (replicate k CHR ''='')) = 64" "skip_blanks (replicate k CHR ''='') = []"
proof -
  have v: "DECODE ! 46 = 64" "DECODE ! 61 = 127" "DECODE ! 0 = 64" by (simp_all add: DECODE_def)
  show "skip_blanks (replicate k PADDING) = replicate k PADDING"
    "Iterator_value (skip_blanks (replicate k PADDING)) = 64"
    by (cases k; simp add: Iterator_value_def PADDING_def v)+
  show "skip_blanks (replicate k CHR ''='') = []" by (induction k) (simp_all add: Iterator_value_def v)
  then show "Iterator_value (skip_blanks (replicate k CHR ''='')) = 64" by (simp add: Iterator_value_def v)
qed

lemma fill_size_le: "(f :: nat) mod 16 = 0 \<Longrightarrow> f mod 2 ^ base64mod_fill_size n = 0"
proof -
  have "n mod 3 = 0 \<or> n mod 3 = 1 \<or> n mod 3 = 2" by presburger
  then have "base64mod_fill_size n \<in> {0, 4, 2}" by (auto simp: base64mod_fill_size_def drop_bit_eq_div)
  then have "(2 :: nat) ^ base64mod_fill_size n dvd 16" by auto
  moreover assume "f mod 16 = 0"
  ultimately show ?thesis by (meson dvd_eq_mod_eq_0 dvd_trans)
qed

lemma base64mod_decode_encode:
  assumes q: "q \<Longrightarrow> padding" and f: "fill \<or> f mod 16 = 0"
  shows "base64mod_decode (base64mod_encode src padding f) q fill = Inr (src, if fill then fill_bits (length src) f else None)"
proof -
  have "base64mod_decode_loop fill (base64mod_encode src padding f) =
    Inr (src, if fill then fill_bits (length src) f else None,
         replicate (if padding then tail_size (length src) else 0) PADDING)"
    using f b64mod.decode_loop_encode [OF Iterator_value_pads(1), of fill src padding f] fill_size_le [of f "length src"]
    by (auto simp: base64mod_encode_def Iterator_value_pads(2) Let_def fill_bits_def)
  moreover have "check_padding (base64mod_encode src padding f) (replicate (tail_size (length src)) PADDING) = Inr ()"
    if padding using that by (intro check_padding_ok [where n = "length src"]) (simp_all add: base64mod_encode_def length_func_encode padded_size)
  ultimately show ?thesis using q by (cases padding) (auto simp: base64mod_decode_def)
qed

lemma base64mod_decode_std:
  assumes q: "q \<Longrightarrow> padding"
  shows "base64mod_decode (base64_encode src padding) q False = Inr (src, None)"
proof -
  have "base64mod_decode_loop False (base64_encode src padding) = Inr (src, None, [])"
    using b64std.decode_loop_encode [OF Iterator_value_pads(3), of False src padding 0]
    by (simp add: base64_encode_def Iterator_value_pads(4) Let_def)
  moreover have "check_padding (base64_encode src padding) [] = Inr ()"
    if padding using that by (intro check_padding_ok) (simp_all add: base64_encode_def length_func_encode padded_size)
  ultimately show ?thesis using q by (auto simp: base64mod_decode_def)
qed

text \<open>
  (C6) Decoding inverts both base64 encoders for every padding and fill value: the data come back,
  with the fill bits if the caller asks for them. The size functions give the length of the
  encoding and bound the length of the data.
\<close>

theorem base64_roundtrip:
  assumes "q \<longrightarrow> padding"
  shows "base64mod_decode (base64mod_encode src padding f) q True = Inr (src, fill_bits (length src) f)
    \<and> (f mod 16 = 0 \<longrightarrow> base64mod_decode (base64mod_encode src padding f) q False = Inr (src, None))
    \<and> base64mod_decode (base64_encode src padding) q False = Inr (src, None)
    \<and> length (base64mod_encode src padding f) = base64mod_encoded_size (length src) padding
    \<and> length src \<le> base64mod_max_decoded_size (length (base64mod_encode src padding f))"
proof -
  have "n \<le> base64mod_max_decoded_size (base64mod_encoded_size n padding)" for n
  proof (cases padding)
    case True
    moreover have "((n + 2) div 3 * 4 + 3) div 4 = (n + 2) div 3" by simp
    moreover have "n \<le> (n + 2) div 3 * 3" by presburger
    ultimately show ?thesis by (simp add: base64mod_max_decoded_size_def base64mod_encoded_size_def)
  next
    case False
    let ?c = "if n mod 3 \<noteq> 0 then 1 else 0" and ?e = "base64mod_encoded_size n False"
    have "n \<le> (n div 3 + ?c) * 3"
      by presburger
    also have "n div 3 + ?c \<le> (?e + 3) div 4"
      by (simp add: base64mod_encoded_size_def less_eq_div_iff_mult_less_eq)
    finally show ?thesis using False by (simp add: base64mod_max_decoded_size_def)
  qed
  then show ?thesis
    using assms base64mod_decode_encode [of q padding _ f src] base64mod_decode_std [of q padding src]
    by (simp add: base64mod_encode_def length_func_encode)
qed

text \<open>Witness: one byte, with padding written and required.\<close>

theorem base64_roundtrip_witness:
  "base64mod_encode ''a'' True 5 = ''YV..'' \<and> base64mod_decode (base64mod_encode ''a'' True 5) True True = Inr (''a'', Some 5)"
  using base64_roundtrip [of True True "''a''" 5]
  by (simp add: base64mod_encode_def mod_encode_def MOD_ENCODE_def PADDING_def fill_bits_def)

section \<open>URL text and hexadecimal text\<close>

definition mime_symbol :: "char \<Rightarrow> string" where
  "mime_symbol c =
     (if CharTable_owned MIME c then [c] else if c = CHR '' '' then ''+'' else CHR ''%'' # hex_pair c)"

lemma mime_url_encode_eq: "mime_url_encode s = concat (map mime_symbol s)"
proof (induction s rule: mime_url_encode.induct)
  case (1 cur)
  let ?P = "CharTable_owned MIME" and ?n = "Category_find_nonowned (CharTable_owned MIME) cur"
  have n: "take ?n cur = takeWhile ?P cur" by (induction cur) auto
  have owned: "concat (map mime_symbol (takeWhile ?P cur)) = takeWhile ?P cur"
    by (induction cur) (auto simp: mime_symbol_def)
  have split: "concat (map mime_symbol cur) = takeWhile ?P cur @ concat (map mime_symbol (dropWhile ?P cur))"
    using owned by (metis concat_append map_append takeWhile_dropWhile_id)
  show ?case
  proof (cases "?n = length cur")
    case True
    then have d: "dropWhile ?P cur = []" using drop_find_nonowned [of ?P cur] by simp
    have "concat (map mime_symbol cur) = takeWhile ?P cur" using split unfolding d by simp
    then show ?thesis using True n by (subst mime_url_encode.simps) (simp add: Let_def)
  next
    case False
    then have lt: "?n < length cur" by (simp add: find_nonowned_le le_neq_implies_less)
    then have d: "dropWhile ?P cur = cur ! ?n # drop (Suc ?n) cur"
      using drop_find_nonowned [of ?P cur] by (metis Cons_nth_drop_Suc)
    then have "\<not> ?P (cur ! ?n)" using hd_dropWhile [of ?P cur] by simp
    then have "mime_symbol (cur ! ?n) = (if cur ! ?n = CHR '' '' then ''+'' else CHR ''%'' # hex_pair (cur ! ?n))"
      by (simp add: mime_symbol_def)
    then show ?thesis
      using False split n d 1 [OF refl False refl] by (subst mime_url_encode.simps) (simp add: Let_def)
  qed
qed

lemma MIME_plain: "CharTable_owned MIME c \<Longrightarrow> c \<noteq> CHR ''+'' \<and> c \<noteq> CHR ''%''"
proof -
  have "\<not> CharTable_owned MIME CHR ''+''" "\<not> CharTable_owned MIME CHR ''%''" by code_simp+
  then show "CharTable_owned MIME c \<Longrightarrow> c \<noteq> CHR ''+'' \<and> c \<noteq> CHR ''%''" by auto
qed

lemma HEX_NUMBER_HEX_DIGITS: "k < 16 \<Longrightarrow> CharTable_owned HEX_NUMBER (HEX_DIGITS ! k)"
proof -
  have "list_all (CharTable_owned HEX_NUMBER) HEX_DIGITS" by code_simp
  moreover have "length HEX_DIGITS = 16" by (simp add: HEX_DIGITS_def)
  ultimately show "k < 16 \<Longrightarrow> CharTable_owned HEX_NUMBER (HEX_DIGITS ! k)" by (simp add: list_all_length)
qed

lemma hex_pair_eq: "hex_pair c = [HEX_DIGITS ! (of_char c div 16), HEX_DIGITS ! (of_char c mod 16)]"
proof -
  have "(k :: nat) AND 15 = k mod 16" for k using nat_and_mask [of k 4] by simp
  moreover have "(of_char c :: nat) div 16 < 16" using of_char_less [of c] by (simp add: less_mult_imp_div_less)
  ultimately show ?thesis by (simp add: hex_pair_def drop_bit_eq_div)
qed

lemma mime_url_decode_symbol:
  "mime_url_decode (mime_symbol c @ rest) strict = result_bind (mime_url_decode rest strict) (\<lambda>dst. Inr (c # dst))"
proof -
  have "(of_char c :: nat) div 16 < 16" using of_char_less [of c] by (simp add: less_mult_imp_div_less)
  then show ?thesis
    using MIME_plain [of c]
    by (auto simp: mime_symbol_def hex_pair_eq HEX_NUMBER_HEX_DIGITS hex_to_char_HEX_DIGITS numeral_2_eq_2)
qed

lemma mime_url_decode_encode: "mime_url_decode (mime_url_encode s) strict = Inr s"
  unfolding mime_url_encode_eq by (induction s) (simp_all add: mime_url_decode_symbol)

lemma in_place_loop:
  assumes "dest \<le> src" "src + left = length mem"
  shows "mime_url_decode_in_place_loop mem dest src left =
    result_bind (mime_url_decode (drop src mem) True) (\<lambda>d. Inr (take dest mem @ d))"
  using assms
proof (induction mem dest src left rule: mime_url_decode_in_place_loop.induct)
  case (1 mem dest src left)
  show ?case
  proof (cases "left = 0")
    case True
    then show ?thesis using 1 by (subst mime_url_decode_in_place_loop.simps) simp
  next
    case False
    then obtain cur where cur: "drop src mem = mem ! src # cur" "cur = drop (Suc src) mem"
      using 1(5) by (metis Cons_nth_drop_Suc less_add_same_cancel1 neq0_conv)
    have c1: "mem ! (src + 1) = cur ! 0" "mem ! (src + 2) = cur ! 1" if "2 \<le> left - 1"
      using that 1(5) cur by simp_all
    have len: "length cur = left - 1" using cur 1(5) False by simp
    have upd: "take (dest + 1) (mem[dest := x]) = take dest mem @ [x]" "drop (src + 1 + k) (mem[dest := x]) = drop k cur"
      for x k
      using 1(4,5) False cur by (simp_all add: take_Suc_conv_app_nth add.commute)
    consider "mem ! src = CHR ''+''" | "mem ! src \<noteq> CHR ''+''" "mem ! src \<noteq> CHR ''%''"
      | "mem ! src = CHR ''%''" "left - 1 < 2 \<or> \<not> CharTable_owned HEX_NUMBER (mem ! (src + 1))
          \<or> \<not> CharTable_owned HEX_NUMBER (mem ! (src + 2))"
      | "mem ! src = CHR ''%''" "2 \<le> left - 1" "CharTable_owned HEX_NUMBER (mem ! (src + 1))"
          "CharTable_owned HEX_NUMBER (mem ! (src + 2))"
      by linarith
    then show ?thesis
    proof cases
      case c: 1
      have "dest + 1 \<le> src + 1" "src + 1 + (left - 1) = length (mem[dest := CHR '' ''])" using 1(4,5) False by simp_all
      then show ?thesis
        using 1(1) [OF False refl c] c False upd(1) [of "CHR '' ''"] upd(2) [of 0 "CHR '' ''"] cur
        by (subst mime_url_decode_in_place_loop.simps) (simp add: Let_def result_bind_def split: sum.split)
    next
      case c: 2
      have "dest + 1 \<le> src + 1" "src + 1 + (left - 1) = length (mem[dest := mem ! src])" using 1(4,5) False by simp_all
      then show ?thesis
        using 1(3) [OF False refl c] c False upd(1) [of "mem ! src"] upd(2) [of 0 "mem ! src"] cur
        by (subst mime_url_decode_in_place_loop.simps) (simp add: Let_def result_bind_def split: sum.split)
    next
      case c: 3
      then show ?thesis
        using False cur len c1 by (subst mime_url_decode_in_place_loop.simps) (auto simp: Let_def)
    next
      case c: 4
      let ?x = "hex_to_char (mem ! (src + 1)) (mem ! (src + 2))"
      have "dest + 1 \<le> src + 3" "src + 3 + (left - 1 - 2) = length (mem[dest := ?x])" using c 1(4,5) False by simp_all
      then show ?thesis
        using 1(2) [OF False refl] c c1 len False upd(1) [of ?x] upd(2) [of 2 ?x] cur
        by (subst mime_url_decode_in_place_loop.simps) (simp add: Let_def result_bind_def numeral_3_eq_3 split: sum.split)
    qed
  qed
qed

lemma mime_url_decode_lenient: "\<exists>d. mime_url_decode s False = Inr d"
  by (induction s False rule: mime_url_decode.induct) auto

text \<open>
  (C38) Decoding a URL-encoded string gives the string back, in both modes. Decoding in place, with
  the two pointers into one buffer, has the result of strict decoding for every text, and decoding
  that is not strict never fails.
\<close>

theorem mime_url_roundtrip:
  "mime_url_decode (mime_url_encode s) strict = Inr s
   \<and> mime_url_decode_in_place url = mime_url_decode url True
   \<and> (\<exists>d. mime_url_decode url False = Inr d)"
proof -
  have "mime_url_decode_in_place url = mime_url_decode url True"
    using in_place_loop [of 0 0 "length url" url]
    by (cases "mime_url_decode url True") (auto simp: mime_url_decode_in_place_def)
  then show ?thesis by (simp add: mime_url_decode_encode mime_url_decode_lenient)
qed

lemma hex_to_buf_pairs: "hex_to_buf (concat (map hex_pair data)) = Some data"
  by (induction data) (simp_all add: hex_pair_eq hex_to_char_HEX_DIGITS)

lemma length_hex_pairs: "length (concat (map hex_pair data)) = 2 * length data"
  by (induction data) (simp_all add: hex_pair_def)

text \<open>Hexadecimal text without leading zeros is read back as the data without leading zero bytes.\<close>

lemma hex_decode_encode:
  "hex_decode (hex_encode data False) b = Inr (Some data)"
  "data \<noteq> [] \<Longrightarrow> hex_decode (hex_encode data True) True
     = Inr (Some (let d = dropWhile (\<lambda>c. c = CHR 0x00) data in if d = [] then [CHR 0x00] else d))"
proof -
  show "hex_decode (hex_encode data False) b = Inr (Some data)"
    using length_hex_pairs [of data] by (simp add: hex_decode_def hex_encode_def hex_to_buf_pairs and_one_eq)
  assume "data \<noteq> []"
  define d where "d = dropWhile (\<lambda>c. c = CHR 0x00) data"
  show "hex_decode (hex_encode data True) True
     = Inr (Some (let d = dropWhile (\<lambda>c. c = CHR 0x00) data in if d = [] then [CHR 0x00] else d))"
  proof (cases d)
    case Nil
    have "hex_to_int CHR ''0'' = 0" by (simp add: hex_to_int_def schar_def byte_def)
    then show ?thesis
      using Nil \<open>data \<noteq> []\<close> unfolding d_def
      by (simp add: hex_encode_def hex_decode_def convert_def char_of_def and_one_eq)
  next
    case (Cons c t)
    then have d: "dropWhile (\<lambda>c. c = CHR 0x00) data = c # t" by (simp add: d_def)
    have high: "(of_char c :: nat) AND 0xF0 = 0 \<longleftrightarrow> (of_char c :: nat) < 16"
      using nat_and_push [of "of_char c" 4 15] nat_and_mask [of "of_char c div 16" 4] of_char_less [of c]
      by (simp add: push_bit_eq_mult drop_bit_eq_div div_eq_0_iff less_mult_imp_div_less)
    show ?thesis
    proof (cases "(of_char c :: nat) < 16")
      case True
      then have "convert (hex_to_int (HEX_DIGITS ! of_char c)) = c"
        by (simp add: hex_to_int_HEX_DIGITS convert_def unsigned_of_nat take_bit_nat_eq_self)
      then show ?thesis
        using True high d \<open>data \<noteq> []\<close> length_hex_pairs [of t]
        by (simp add: hex_encode_def hex_decode_def hex_to_buf_pairs and_one_eq)
    next
      case False
      then show ?thesis
        using high d \<open>data \<noteq> []\<close> length_hex_pairs [of "c # t"] hex_to_buf_pairs [of "c # t"]
        by (simp add: hex_encode_def hex_decode_def and_one_eq)
    qed
  qed
qed

interpretation url_codec: codec mime_url_encode "\<lambda>s. case mime_url_decode s True of Inl _ \<Rightarrow> None | Inr d \<Rightarrow> Some d"
    "\<lambda>_. True"
  by unfold_locales (simp add: mime_url_decode_encode)

interpretation hex_codec: codec "\<lambda>d. hex_encode d False" "\<lambda>s. case hex_decode s False of Inl _ \<Rightarrow> None | Inr d \<Rightarrow> d"
    "\<lambda>_. True"
  by unfold_locales (simp add: hex_decode_encode)

lemma text_codes_injective:
  "mime_url_encode s = mime_url_encode t \<longleftrightarrow> s = t" "hex_encode s False = hex_encode t False \<longleftrightarrow> s = t"
  by (simp_all add: url_codec.enc_eq_iff hex_codec.enc_eq_iff)

end
