(* ===== verification/Sub_String.thy ===== *)
theory Sub_String
  imports Prelude "HOL-Library.Char_ord"
begin

text \<open>
  Views of character ranges: src/src/String/SubString.tpp and SubStringFind.tpp. A view is the list
  of its characters, of any ordered type of characters; a character of a byte string is ordered as
  an unsigned byte. A position is a number of characters from the beginning, and \<^verbatim>\<open>NPOS\<close>, the result
  of a search without success, is \<open>None\<close>. Sizes are unsigned numbers of 64 bits, whose subtraction
  wraps around. A function that would compare pointers beyond the end of the view has the result
  \<open>Inl Undefined\<close>.
\<close>

datatype substring_error = OutOfRange | LogicError | Undefined

definition NPOS :: nat where "NPOS = 2 ^ 64 - 1"

section \<open>Comparison\<close>

fun Traits_compare :: "'c::linorder list \<Rightarrow> 'c list \<Rightarrow> nat \<Rightarrow> int" where
  "Traits_compare (c # str1) (d # str2) (Suc n) =
     (if c \<noteq> d then (if c < d then -1 else 1) else Traits_compare str1 str2 n)"
| "Traits_compare _ _ _ = 0"

fun Traits_find :: "'c list \<Rightarrow> 'c \<Rightarrow> nat option" where
  "Traits_find [] ch = None"
| "Traits_find (c # str) ch = (if c = ch then Some 0 else map_option Suc (Traits_find str ch))"

definition SubString_compare :: "'c::linorder list \<Rightarrow> 'c list \<Rightarrow> int" where
  "SubString_compare this str =
     (let LEN = min (length this) (length str); RESULT = Traits_compare this str LEN
      in if RESULT \<noteq> 0 then RESULT
         else if length this = length str then 0 else if length this < length str then -1 else 1)"

text \<open>
  Comparison with a C string, which is the list of its characters before the terminating zero
  \<open>NUL\<close>; the views of interest may contain zeros.
\<close>

fun SubString_compare_cstr :: "'c::linorder list \<Rightarrow> 'c list \<Rightarrow> int" where
  "SubString_compare_cstr [] [] = 0"
| "SubString_compare_cstr [] (CH # str) = -1"
| "SubString_compare_cstr (CH2 # ptr) [] = -1"
| "SubString_compare_cstr (CH2 # ptr) (CH # str) =
     (if CH2 \<noteq> CH then (if CH2 < CH then -1 else 1) else SubString_compare_cstr ptr str)"

fun SubString_equal_cstr :: "'c list \<Rightarrow> 'c list \<Rightarrow> bool" where
  "SubString_equal_cstr [] [] = True"
| "SubString_equal_cstr [] (CH # str) = False"
| "SubString_equal_cstr (c # ptr) [] = False"
| "SubString_equal_cstr (c # ptr) (CH # str) = (if c \<noteq> CH then False else SubString_equal_cstr ptr str)"

definition SubString_equal :: "'c::linorder list \<Rightarrow> 'c list \<Rightarrow> bool" where
  "SubString_equal this str =
     (if length str \<noteq> length this then False else \<not> Traits_compare this str (length this) \<noteq> 0)"

section \<open>Parts\<close>

definition get_available_length :: "'c list \<Rightarrow> nat \<Rightarrow> nat \<Rightarrow> nat" where
  "get_available_length this pos cnt = min cnt (nat ((int (length this) - int pos) mod 2 ^ 64))"

definition check_position :: "'c list \<Rightarrow> nat \<Rightarrow> substring_error + unit" where
  "check_position this pos = (if pos > length this then Inl OutOfRange else Inr ())"

definition SubString_substr :: "'c list \<Rightarrow> nat \<Rightarrow> nat \<Rightarrow> substring_error + 'c list" where
  "SubString_substr this pos cnt =
     result_bind (check_position this pos)
       (\<lambda>_. Inr (take (get_available_length this pos cnt) (drop pos this)))"

text \<open>The position after the last character passes the check: the character there is not in the view.\<close>

definition SubString_at :: "'c list \<Rightarrow> nat \<Rightarrow> substring_error + 'c option" where
  "SubString_at this pos =
     result_bind (check_position this pos)
       (\<lambda>_. Inr (if pos < length this then Some (this ! pos) else None))"

definition SubString_copy :: "'c list \<Rightarrow> nat \<Rightarrow> nat \<Rightarrow> substring_error + 'c list" where
  "SubString_copy this cnt pos =
     (let cnt = get_available_length this pos cnt
      in if cnt = 0 then Inr []
         else result_bind (check_position this pos) (\<lambda>_. Inr (take cnt (drop pos this))))"

definition SubString_erase_front :: "'c list \<Rightarrow> nat \<Rightarrow> 'c list" where
  "SubString_erase_front this cnt = drop (min cnt (length this)) this"

definition SubString_erase_back :: "'c list \<Rightarrow> nat \<Rightarrow> 'c list" where
  "SubString_erase_back this cnt = take (length this - min cnt (length this)) this"

section \<open>Search\<close>

definition SubString_find_char :: "'c list \<Rightarrow> 'c \<Rightarrow> nat \<Rightarrow> nat option" where
  "SubString_find_char this ch pos =
     (if pos < length this then map_option ((+) pos) (Traits_find (drop pos this) ch) else None)"

text \<open>\<^verbatim>\<open>std::search\<close> from a position: the first place where \<open>str\<close> occurs.\<close>

function search_from :: "'c list \<Rightarrow> 'c list \<Rightarrow> nat \<Rightarrow> nat option" where
  "search_from this str pos =
     (if pos + length str > length this then None
      else if take (length str) (drop pos this) = str then Some pos
      else search_from this str (pos + 1))"
  by pat_completeness auto

termination search_from
  by (relation "measure (\<lambda>(this, str, pos). length this + 1 - pos)") auto

declare search_from.simps [simp del]

definition SubString_find :: "'c list \<Rightarrow> 'c list \<Rightarrow> nat \<Rightarrow> substring_error + nat option" where
  "SubString_find this str pos =
     (if length str = 0 then Inr (if pos \<ge> length this then None else Some 0)
      else let len = get_available_length this pos (length this)
           in if length str > len then Inr None
              else if pos > length this then Inl Undefined
              else Inr (search_from this str pos))"

fun rfind_char_loop :: "'c list \<Rightarrow> 'c \<Rightarrow> nat \<Rightarrow> nat option" where
  "rfind_char_loop this ch lst =
     (if this ! lst = ch then Some lst else if lst = 0 then None else rfind_char_loop this ch (lst - 1))"

declare rfind_char_loop.simps [simp del]

definition SubString_rfind_char :: "'c list \<Rightarrow> 'c \<Rightarrow> nat \<Rightarrow> nat option" where
  "SubString_rfind_char this ch pos =
     (if length this \<noteq> 0 then rfind_char_loop this ch (min (length this - 1) pos) else None)"

fun rfind_loop :: "'c::linorder list \<Rightarrow> 'c list \<Rightarrow> nat \<Rightarrow> nat option" where
  "rfind_loop this str data =
     (if Traits_compare (drop data this) str (length str) = 0 then Some data
      else if data = 0 then None else rfind_loop this str (data - 1))"

declare rfind_loop.simps [simp del]

definition SubString_rfind :: "'c::linorder list \<Rightarrow> 'c list \<Rightarrow> nat \<Rightarrow> nat option" where
  "SubString_rfind this str pos =
     (if length str > length this then None
      else let pos = (if pos > length this then length this else pos)
           in if length str = 0 then Some pos
              else let pos = (if pos > length this - length str then length this - length str else pos)
                   in rfind_loop this str pos)"

text \<open>The variant with a count for a C string does not use the count.\<close>

definition SubString_rfind_count :: "'c::linorder list \<Rightarrow> 'c list \<Rightarrow> nat \<Rightarrow> nat \<Rightarrow> nat option" where
  "SubString_rfind_count this ptr pos cnt = SubString_rfind this ptr pos"

function find_first_loop :: "('c \<Rightarrow> bool) \<Rightarrow> 'c list \<Rightarrow> nat \<Rightarrow> nat option" where
  "find_first_loop wanted this pos =
     (if pos < length this then if wanted (this ! pos) then Some pos else find_first_loop wanted this (pos + 1)
      else None)"
  by pat_completeness auto

termination find_first_loop
  by (relation "measure (\<lambda>(wanted, this, pos). length this - pos)") auto

declare find_first_loop.simps [simp del]

definition SubString_find_first_of :: "'c list \<Rightarrow> 'c list \<Rightarrow> nat \<Rightarrow> nat option" where
  "SubString_find_first_of this str pos = find_first_loop (\<lambda>c. Traits_find str c \<noteq> None) this pos"

definition SubString_find_first_not_of :: "'c list \<Rightarrow> 'c list \<Rightarrow> nat \<Rightarrow> nat option" where
  "SubString_find_first_not_of this str pos = find_first_loop (\<lambda>c. \<not> Traits_find str c \<noteq> None) this pos"

definition SubString_find_first_not_of_char :: "'c list \<Rightarrow> 'c \<Rightarrow> nat \<Rightarrow> nat option" where
  "SubString_find_first_not_of_char this ch pos = find_first_loop (\<lambda>c. c \<noteq> ch) this pos"

fun find_last_loop :: "('c \<Rightarrow> bool) \<Rightarrow> 'c list \<Rightarrow> nat \<Rightarrow> nat option" where
  "find_last_loop wanted this pos =
     (if wanted (this ! pos) then Some pos else if pos = 0 then None else find_last_loop wanted this (pos - 1))"

declare find_last_loop.simps [simp del]

definition SubString_find_last_of :: "'c list \<Rightarrow> 'c list \<Rightarrow> nat \<Rightarrow> nat option" where
  "SubString_find_last_of this str pos =
     (if length this \<noteq> 0 \<and> length str \<noteq> 0 then
        find_last_loop (\<lambda>c. Traits_find str c \<noteq> None) this (if pos \<ge> length this then length this - 1 else pos)
      else None)"

definition SubString_find_last_not_of :: "'c list \<Rightarrow> 'c list \<Rightarrow> nat \<Rightarrow> nat option" where
  "SubString_find_last_not_of this str pos =
     (if length this \<noteq> 0 \<and> length str \<noteq> 0 then
        find_last_loop (\<lambda>c. \<not> Traits_find str c \<noteq> None) this (if pos \<ge> length this then length this - 1 else pos)
      else None)"

section \<open>Comparison is the lexicographic order\<close>

lemma Traits_compare_lists:
  "Traits_compare a b (min (length a) (length b)) = 0 \<longleftrightarrow> take (length b) a = take (length a) b"
proof (induction a arbitrary: b)
  case (Cons x a)
  then show ?case by (cases b) auto
qed simp

lemma SubString_compare_Cons:
  "SubString_compare (x # a) (y # b) = (if x \<noteq> y then if x < y then -1 else 1 else SubString_compare a b)"
  by (simp add: SubString_compare_def Let_def)

lemma SubString_compare_Nil:
  "SubString_compare [] b = (if b = [] then 0 else -1)" "SubString_compare a [] = (if a = [] then 0 else 1)"
  by (auto simp: SubString_compare_def)

lemmas SubString_compare_simps [simp] = SubString_compare_Cons SubString_compare_Nil

lemma SubString_compare_zero: "SubString_compare a b = 0 \<longleftrightarrow> a = b"
  by (induction a b rule: SubString_compare_cstr.induct) auto

lemma SubString_compare_less: "SubString_compare a b < 0 \<longleftrightarrow> ord_class.lexordp a b"
  by (induction a b rule: SubString_compare_cstr.induct) auto

lemma SubString_compare_swap: "SubString_compare b a = - SubString_compare a b"
  by (induction a b rule: SubString_compare_cstr.induct) auto

lemma SubString_equal_iff: "SubString_equal a b \<longleftrightarrow> a = b"
proof -
  have "length a = length b \<Longrightarrow> Traits_compare a b (length a) = 0 \<longleftrightarrow> a = b"
    using Traits_compare_lists [of a b] by simp
  then show ?thesis by (auto simp: SubString_equal_def)
qed

lemma SubString_equal_cstr_iff: "SubString_equal_cstr a b \<longleftrightarrow> a = b"
  by (induction a b rule: SubString_equal_cstr.induct) auto

lemma SubString_compare_cstr_eq:
  "SubString_compare_cstr a b = (if \<exists>c u. a = b @ c # u then -1 else SubString_compare a b)"
proof (induction a b rule: SubString_compare_cstr.induct)
  case (3 c u)
  then show ?case by auto
next
  case (4 x a y b)
  then show ?case by auto
qed auto

text \<open>
  (C39) Comparing views is the lexicographic order, equality is equality of the characters, and both
  hold for C strings as well, except that a view that continues after the end of the C string is
  reported to be less than it.
\<close>

theorem SubString_compare_correct:
  "(SubString_compare a b < 0 \<longleftrightarrow> ord_class.lexordp a b) \<and> (SubString_compare a b = 0 \<longleftrightarrow> a = b)
   \<and> SubString_compare b a = - SubString_compare a b
   \<and> (SubString_equal a b \<longleftrightarrow> a = b) \<and> (SubString_equal_cstr a b \<longleftrightarrow> a = b)
   \<and> SubString_compare_cstr a b = (if \<exists>c u. a = b @ c # u then -1 else SubString_compare a b)
   \<and> SubString_compare (b @ c # u) b = 1 \<and> SubString_compare_cstr (b @ c # u) b = -1"
proof -
  have "SubString_compare (b @ c # u) b = 1" by (induction b) auto
  then show ?thesis
    by (simp add: SubString_compare_less SubString_compare_zero SubString_compare_swap [of b a] SubString_equal_iff
        SubString_equal_cstr_iff SubString_compare_cstr_eq)
qed

section \<open>Searches\<close>

definition occurs_at :: "'c list \<Rightarrow> 'c list \<Rightarrow> nat \<Rightarrow> bool" where
  "occurs_at this str i \<longleftrightarrow> i + length str \<le> length this \<and> take (length str) (drop i this) = str"

text \<open>The first and the last position of a range that has a property.\<close>

definition first_from :: "(nat \<Rightarrow> bool) \<Rightarrow> nat \<Rightarrow> nat option \<Rightarrow> bool" where
  "first_from P pos r \<longleftrightarrow>
     (case r of None \<Rightarrow> \<forall>i\<ge>pos. \<not> P i | Some i \<Rightarrow> pos \<le> i \<and> P i \<and> (\<forall>j. pos \<le> j \<and> j < i \<longrightarrow> \<not> P j))"

definition last_upto :: "(nat \<Rightarrow> bool) \<Rightarrow> nat \<Rightarrow> nat option \<Rightarrow> bool" where
  "last_upto P pos r \<longleftrightarrow>
     (case r of None \<Rightarrow> \<forall>i\<le>pos. \<not> P i | Some i \<Rightarrow> i \<le> pos \<and> P i \<and> (\<forall>j. i < j \<and> j \<le> pos \<longrightarrow> \<not> P j))"

lemma last_uptoI:
  assumes f: "\<And>pos. f pos = (if P pos then Some pos else if pos = 0 then None else f (pos - 1))"
  shows "last_upto P pos (f pos)"
proof (induction pos)
  case 0
  show ?case unfolding last_upto_def by (subst f) auto
next
  case (Suc pos)
  show ?case
  proof (cases "P (Suc pos)")
    case True
    then show ?thesis unfolding last_upto_def by (subst f) auto
  next
    case False
    then have "f (Suc pos) = f pos" by (subst f) simp
    then show ?thesis using Suc False unfolding last_upto_def by (auto simp: le_Suc_eq split: option.splits)
  qed
qed

lemma first_fromI:
  assumes f: "\<And>pos. f pos = (if pos < n then if P pos then Some pos else f (pos + 1) else None)"
    and P: "\<And>i. P i \<Longrightarrow> i < n"
  shows "first_from P pos (f pos)"
proof (induction "n - pos" arbitrary: pos rule: less_induct)
  case less
  consider "n \<le> pos" | "pos < n" "P pos" | "pos < n" "\<not> P pos" by linarith
  then show ?case
  proof cases
    case 1
    then show ?thesis using P unfolding first_from_def by (subst f) (auto dest: P)
  next
    case 2
    then show ?thesis unfolding first_from_def by (subst f) auto
  next
    case 3
    then have "f pos = f (Suc pos)" by (subst f) simp
    moreover have "first_from P (Suc pos) (f (Suc pos))" using less 3 by simp
    moreover have "i \<noteq> pos" if "P i" for i using 3 that by blast
    ultimately show ?thesis
      unfolding first_from_def by (auto simp: Suc_le_eq order.strict_iff_order split: option.splits)
  qed
qed

lemma search_from_correct: "first_from (occurs_at this str) pos (search_from this str pos)"
proof (rule first_fromI [where n = "length this + 1 - length str"])
  show "search_from this str pos =
      (if pos < length this + 1 - length str
       then if occurs_at this str pos then Some pos else search_from this str (pos + 1) else None)" for pos
    by (subst search_from.simps) (auto simp: occurs_at_def)
qed (auto simp: occurs_at_def)

lemma rfind_char_loop_correct: "last_upto (\<lambda>i. this ! i = ch) pos (rfind_char_loop this ch pos)"
  by (rule last_uptoI) (rule rfind_char_loop.simps)

lemma find_last_loop_correct: "last_upto (\<lambda>i. wanted (this ! i)) pos (find_last_loop wanted this pos)"
  by (rule last_uptoI) (rule find_last_loop.simps)

lemma rfind_loop_correct:
  "last_upto (\<lambda>i. Traits_compare (drop i this) str (length str) = 0) pos (rfind_loop this str pos)"
  by (rule last_uptoI) (rule rfind_loop.simps)

lemma find_first_loop_correct:
  "first_from (\<lambda>i. i < length this \<and> wanted (this ! i)) pos (find_first_loop wanted this pos)"
  by (rule first_fromI [where n = "length this"]) (subst find_first_loop.simps, auto)

lemma SubString_find_char_eq: "SubString_find_char this ch pos = find_first_loop (\<lambda>c. c = ch) this pos"
proof (induction "\<lambda>c. c = ch" this pos rule: find_first_loop.induct)
  case (1 this pos)
  show ?case
  proof (cases "pos < length this")
    case True
    then have "drop pos this = this ! pos # drop (Suc pos) this" by (simp add: Cons_nth_drop_Suc)
    moreover have "(+) pos \<circ> Suc = (+) (Suc pos)" by auto
    moreover have "map_option ((+) (Suc pos)) (Traits_find (drop (Suc pos) this) ch) = SubString_find_char this ch (Suc pos)"
      by (simp add: SubString_find_char_def)
    ultimately show ?thesis
      using True 1
      by (subst find_first_loop.simps) (auto simp: SubString_find_char_def option.map_comp)
  qed (simp add: SubString_find_char_def find_first_loop.simps)
qed

lemma Traits_find_mem: "Traits_find str c \<noteq> None \<longleftrightarrow> c \<in> set str"
  by (induction str) auto

lemma Traits_compare_take:
  "n \<le> length a \<Longrightarrow> n \<le> length b \<Longrightarrow> Traits_compare a b n = 0 \<longleftrightarrow> take n a = take n b"
  by (induction a b n rule: Traits_compare.induct) auto

lemma last_upto_clip:
  "last_upto P (min m pos) r \<Longrightarrow> (\<And>i. Q i \<longleftrightarrow> P i \<and> i \<le> m) \<Longrightarrow> last_upto Q pos r"
  by (auto simp: last_upto_def split: option.splits)

lemma wrapped_difference: "a < p \<Longrightarrow> 0 \<le> a \<Longrightarrow> p < m \<Longrightarrow> (a - p) mod m = a - p + (m :: int)"
  using mod_add_self2 [of "a - p" m] mod_pos_pos_trivial [of "a - p + m" m] by simp

lemma available_in_range:
  assumes "pos \<le> length this" "length this < 2 ^ 64"
  shows "get_available_length this pos cnt = min cnt (length this - pos)"
proof -
  have "int (length this) - int pos = int (length this - pos)" using assms by simp
  moreover have "int (length this - pos) mod 2 ^ 64 = int (length this - pos)"
    using assms by (intro mod_pos_pos_trivial) (simp_all add: less_imp_diff_less)
  ultimately show ?thesis by (simp only: get_available_length_def nat_int)
qed

lemma available_beyond:
  assumes "length this < pos" "pos < 2 ^ 64"
  shows "get_available_length this pos (length this) = length this"
proof -
  have "(int (length this) - int pos) mod 2 ^ 64 = int (length this) - int pos + 2 ^ 64"
    using assms by (intro wrapped_difference) simp_all
  moreover have "int (length this) \<le> int (length this) - int pos + 2 ^ 64" using assms by simp
  ultimately show ?thesis unfolding get_available_length_def by (simp add: le_nat_iff)
qed

lemma SubString_find_correct:
  assumes "str \<noteq> []" "pos \<le> length this" "length this < 2 ^ 64"
  shows "\<exists>r. SubString_find this str pos = Inr r \<and> first_from (occurs_at this str) pos r"
proof (cases "length str > length this - pos")
  case True
  then have "first_from (occurs_at this str) pos None" by (auto simp: first_from_def occurs_at_def)
  then show ?thesis using True assms by (auto simp: SubString_find_def available_in_range)
next
  case False
  then show ?thesis
    using assms search_from_correct by (auto simp: SubString_find_def available_in_range)
qed

lemma SubString_find_beyond:
  assumes "str \<noteq> []" "length str \<le> length this" "length this < pos" "pos < 2 ^ 64"
  shows "SubString_find this str pos = Inl Undefined"
  using assms by (simp add: SubString_find_def available_beyond Let_def)

lemma SubString_rfind_correct:
  assumes "str \<noteq> []"
  shows "last_upto (occurs_at this str) pos (SubString_rfind this str pos)"
proof (cases "length str > length this")
  case True
  then show ?thesis by (auto simp: SubString_rfind_def last_upto_def occurs_at_def)
next
  case False
  let ?m = "length this - length str"
  have "SubString_rfind this str pos = rfind_loop this str (min ?m pos)"
  proof -
    obtain k where "length str = Suc k" using assms by (cases str) auto
    then show ?thesis using False by (auto simp: SubString_rfind_def Let_def min_def)
  qed
  moreover have "occurs_at this str i \<longleftrightarrow> Traits_compare (drop i this) str (length str) = 0 \<and> i \<le> ?m" for i
    using False Traits_compare_take [of "length str" "drop i this" str] by (auto simp: occurs_at_def)
  ultimately show ?thesis using last_upto_clip [OF rfind_loop_correct] by metis
qed

lemma SubString_rfind_char_correct:
  "last_upto (\<lambda>i. i < length this \<and> this ! i = ch) pos (SubString_rfind_char this ch pos)"
proof (cases "this = []")
  case False
  then show ?thesis
    by (cases this) (auto simp: SubString_rfind_char_def intro!: last_upto_clip [OF rfind_char_loop_correct])
qed (simp add: SubString_rfind_char_def last_upto_def)

lemma find_last_clip:
  assumes "this \<noteq> []"
  shows "last_upto (\<lambda>i. i < length this \<and> wanted (this ! i)) pos
    (find_last_loop wanted this (if pos \<ge> length this then length this - 1 else pos))"
proof -
  have eq: "(if pos \<ge> length this then length this - 1 else pos) = min (length this - 1) pos" using assms by (cases this) auto
  have P: "(i < length this \<and> wanted (this ! i)) \<longleftrightarrow> (wanted (this ! i) \<and> i \<le> length this - 1)" for i
    using assms by (cases this) auto
  show ?thesis unfolding eq by (rule last_upto_clip [OF find_last_loop_correct P])
qed

text \<open>Parts of a view, for positions within it and beyond.\<close>

lemma SubString_parts:
  assumes "length this < 2 ^ 64"
  shows "pos \<le> length this \<Longrightarrow> SubString_substr this pos cnt = Inr (take cnt (drop pos this))"
    and "length this < pos \<Longrightarrow> SubString_substr this pos cnt = Inl OutOfRange"
    and "pos \<le> length this \<Longrightarrow> SubString_copy this cnt pos = Inr (take cnt (drop pos this))"
    and "SubString_erase_front this cnt = drop cnt this" "SubString_erase_back this cnt = take (length this - cnt) this"
  using assms
  by (auto simp: SubString_substr_def SubString_copy_def check_position_def available_in_range Let_def min_def
      SubString_erase_front_def SubString_erase_back_def)



end
