(* ===== verification/Punycode.thy ===== *)
theory Punycode
  imports Utf8 Sub_String "HOL-Library.Monad_Syntax"
begin

text \<open>
  Internationalized host names: \<^verbatim>\<open>punycode_encode\<close> and \<^verbatim>\<open>punycode_decode\<close> of
  src/src/String/StringManip.cpp.

  A \<^verbatim>\<open>wchar_t\<close> is a signed integer of 32 bits, kept as an \<open>int\<close>. The code does not check for
  overflow: \<open>wchar\<close> is the value of a signed operation, and nothing if it overflows, which is
  undefined behaviour. So \<open>None\<close> stands for undefined behaviour, \<open>Some None\<close> for the return value
  \<^verbatim>\<open>false\<close> and \<open>Some (Some r)\<close> for \<^verbatim>\<open>true\<close> with the output \<open>r\<close>. Conversions to \<^verbatim>\<open>wchar_t\<close> from the
  unsigned size type keep the lowest 32 bits.
\<close>

section \<open>Model\<close>

definition wchar :: "int \<Rightarrow> int option" where
  "wchar x = (if - (2 ^ 31) \<le> x \<and> x < 2 ^ 31 then Some x else None)"

definition to_wchar :: "int \<Rightarrow> int" where
  "to_wchar x = (x + 2 ^ 31) mod 2 ^ 32 - 2 ^ 31"

definition MAX_WCHAR_T :: int where "MAX_WCHAR_T = 2 ^ 31 - 1"

definition puny_ENCODE :: string where "puny_ENCODE = ''abcdefghijklmnopqrstuvwxyz0123456789''"

definition puny_DECODE :: "int list" where
  "puny_DECODE =
    [26, 27, 28, 29, 30, 31, 32, 33, 34, 35, 36, 36, 36, 36, 36,
     36, 36,  0,  1,  2,  3,  4,  5,  6,  7,  8,  9, 10, 11, 12,
     13, 14, 15, 16, 17, 18, 19, 20, 21, 22, 23, 24, 25, 36, 36,
     36, 36, 36, 36,  0,  1,  2,  3,  4,  5,  6,  7,  8,  9, 10,
     11, 12, 13, 14, 15, 16, 17, 18, 19, 20, 21, 22, 23, 24, 25]"

function adapt_loop :: "int \<Rightarrow> int \<Rightarrow> int \<times> int" where
  "adapt_loop delta k = (if delta > 455 then adapt_loop (delta sdiv 35) (k + 36) else (delta, k))"
  by pat_completeness auto

termination adapt_loop
  by (relation "measure (\<lambda>(delta, k). nat delta)") auto

declare adapt_loop.simps [simp del]

text \<open>A division by zero is undefined.\<close>

definition adapt :: "int \<Rightarrow> int \<Rightarrow> bool \<Rightarrow> int option" where
  "adapt delta numpoints firsttime =
     (if numpoints = 0 then None
      else let delta = (if firsttime then delta sdiv 700 else drop_bit 1 delta);
               delta = delta + delta sdiv numpoints;
               (delta, k) = adapt_loop delta 0
           in if delta + 38 = 0 then None else Some (k + (36 * delta) sdiv (delta + 38)))"

definition threshold :: "int \<Rightarrow> int \<Rightarrow> int" where
  "threshold k bias = (if k \<le> bias then 1 else if k \<ge> bias + 26 then 26 else k - bias)"

lemma threshold_bounds: "1 \<le> threshold k bias" "threshold k bias \<le> 26"
  by (auto simp: threshold_def)

text \<open>The digits of one delta.\<close>

function puny_number :: "int \<Rightarrow> int \<Rightarrow> int \<Rightarrow> string" where
  "puny_number q k bias =
     (let t = threshold k bias
      in if q < t then [puny_ENCODE ! nat q]
         else puny_ENCODE ! nat (t + (q - t) smod (36 - t))
              # puny_number ((q - t) sdiv (36 - t)) (k + 36) bias)"
  by pat_completeness auto

termination puny_number
proof (relation "measure (\<lambda>(q, k, bias). nat q)")
  fix q k bias t
  assume "t = threshold k bias" "\<not> q < t"
  then have "1 \<le> t" "t \<le> 26" "t \<le> q" using threshold_bounds by auto
  then have "(q - t) sdiv (36 - t) \<le> q - t" using zdiv_mono2 [of "q - t" 1 "36 - t"] by simp
  then show "(((q - t) sdiv (36 - t), k + 36, bias), q, k, bias) \<in> measure (\<lambda>(q, k, bias). nat q)"
    using \<open>1 \<le> t\<close> \<open>t \<le> q\<close> by auto
qed auto

declare puny_number.simps [simp del]

record puny_encoder =
  enc_delta :: int
  enc_bias :: int
  enc_handled :: nat
  enc_first :: bool
  enc_output :: string

text \<open>The pass over the input for the symbol \<open>not_less_than\<close>.\<close>

fun puny_pass :: "int \<Rightarrow> int list \<Rightarrow> puny_encoder \<Rightarrow> puny_encoder option" where
  "puny_pass not_less_than [] s = Some s"
| "puny_pass not_less_than (c # input) s =
     (if c < not_less_than then do {
        delta \<leftarrow> wchar (enc_delta s + 1);
        puny_pass not_less_than input (s\<lparr>enc_delta := delta\<rparr>)
      } else if c = not_less_than then do {
        bias \<leftarrow> adapt (enc_delta s) (to_wchar (int (enc_handled s + 1))) (enc_first s);
        puny_pass not_less_than input
          (s\<lparr>enc_output := enc_output s @ puny_number (enc_delta s) 36 (enc_bias s),
             enc_handled := enc_handled s + 1, enc_bias := bias, enc_first := False, enc_delta := 0\<rparr>)
      } else puny_pass not_less_than input s)"

fun least_found :: "int \<Rightarrow> int list \<Rightarrow> int \<Rightarrow> int" where
  "least_found not_less_than [] least = least"
| "least_found not_less_than (c # input) least =
     least_found not_less_than input (if c \<ge> not_less_than \<and> c < least then c else least)"

function puny_passes :: "int list \<Rightarrow> int \<Rightarrow> puny_encoder \<Rightarrow> puny_encoder option" where
  "puny_passes input not_less_than s =
     (if \<not> enc_handled s < length input then Some s
      else let least = least_found not_less_than input MAX_WCHAR_T
           in do {
             gap \<leftarrow> wchar (least - not_less_than);
             skipped \<leftarrow> wchar (gap * to_wchar (int (enc_handled s + 1)));
             delta \<leftarrow> wchar (enc_delta s + skipped);
             s \<leftarrow> puny_pass least input (s\<lparr>enc_delta := delta\<rparr>);
             delta \<leftarrow> wchar (enc_delta s + 1);
             next_symbol \<leftarrow> wchar (least + 1);
             puny_passes input next_symbol (s\<lparr>enc_delta := delta\<rparr>)
           })"
  by pat_completeness auto

lemma least_found_ge: "not_less_than \<le> least \<Longrightarrow> not_less_than \<le> least_found not_less_than input least"
  by (induction input arbitrary: least) auto

lemma least_found_none: "least < not_less_than \<Longrightarrow> least_found not_less_than input least = least"
  by (induction input arbitrary: least) auto

termination puny_passes
proof (relation "measure (\<lambda>(input, n, s). nat (2 ^ 31 - n))")
  fix input n s least gap skipped delta s' delta' n'
  assume *: "least = least_found n input MAX_WCHAR_T" "wchar (least + 1) = Some n'"
  then have n': "n' = least + 1" "least + 1 < 2 ^ 31" by (auto simp: wchar_def split: if_splits)
  have "n \<le> least"
  proof (cases "n \<le> MAX_WCHAR_T")
    case True
    then show ?thesis using * least_found_ge by simp
  next
    case False
    then have "least = MAX_WCHAR_T" using * least_found_none by simp
    then show ?thesis using n' by (simp add: MAX_WCHAR_T_def)
  qed
  then show "((input, n', s'\<lparr>enc_delta := delta'\<rparr>), input, n, s) \<in> measure (\<lambda>(input, n, s). nat (2 ^ 31 - n))"
    using n' by simp
qed auto


declare puny_passes.simps [simp del]

text \<open>The basic symbols of the input in lower case; nothing if there is a negative symbol.\<close>

fun puny_basic :: "int list \<Rightarrow> string option" where
  "puny_basic [] = Some []"
| "puny_basic (WCH # input) =
     (if WCH < 0 then None
      else if WCH < 0x80 then map_option ((#) (to_lower (char_of WCH))) (puny_basic input)
      else puny_basic input)"

definition punycode_encode :: "int list \<Rightarrow> string option option" where
  "punycode_encode input =
     (case puny_basic input of
        None \<Rightarrow> Some None
      | Some basic \<Rightarrow> do {
          s \<leftarrow> puny_passes input 0x80
                 \<lparr>enc_delta = 0, enc_bias = 72, enc_handled = length basic, enc_first = True,
                  enc_output = (if basic \<noteq> [] then basic @ ''-'' else basic)\<rparr>;
          Some (Some (enc_output s))
        })"

text \<open>One number: the new value of \<open>out\<close> and the rest of the input, or nothing at an invalid digit.\<close>

fun puny_read_number :: "string \<Rightarrow> int \<Rightarrow> int \<Rightarrow> int \<Rightarrow> int \<Rightarrow> (int \<times> string) option option" where
  "puny_read_number [] w k bias out = Some None"
| "puny_read_number (c # input) w k bias out =
     (let digit = schar c - 48;
          digit = (if digit \<ge> 0 \<and> digit \<le> 74 then puny_DECODE ! nat digit else 36)
      in if digit \<ge> 36 then Some None
         else do {
           value \<leftarrow> wchar (digit * w);
           let out = (out + value) mod 2 ^ 64;
           let t = threshold k bias;
           if digit < t then Some (Some (out, input))
           else do {
             w \<leftarrow> wchar (w * (36 - t));
             puny_read_number input w (k + 36) bias out
           }
         })"

record puny_decoder =
  dec_out :: int
  dec_decoded :: int
  dec_bias :: int
  dec_output :: "int list"

text \<open>
  \<^verbatim>\<open>memmove\<close> shifts the symbols from \<open>out\<close> by one place; the last one lands on the terminating
  zero of the string, which is not a part of the content.
\<close>

definition puny_insert :: "int list \<Rightarrow> nat \<Rightarrow> int \<Rightarrow> int list" where
  "puny_insert output out decoded =
     (let moved = take (length output) (take (out + 1) output @ drop out output)
      in moved[out := decoded])"

definition puny_step :: "puny_decoder \<Rightarrow> int \<Rightarrow> puny_decoder option" where
  "puny_step d out = do {
     let oldout = dec_out d;
     let output = dec_output d @ [0];
     let len = int (length output);
     bias \<leftarrow> adapt (to_wchar ((out - oldout) mod 2 ^ 64)) (to_wchar len) (oldout = 0);
     let decoded = to_wchar (dec_decoded d + out div len);
     let out = out mod len;
     Some \<lparr>dec_out = (out + 1) mod 2 ^ 64, dec_decoded = decoded, dec_bias = bias,
           dec_output = puny_insert output (nat out) decoded\<rparr>
   }"

function puny_decode_loop :: "string \<Rightarrow> puny_decoder \<Rightarrow> int list option option" where
  "puny_decode_loop input d =
     (if input = [] then Some (Some (dec_output d))
      else case puny_read_number input 1 36 (dec_bias d) (dec_out d) of
             None \<Rightarrow> None
           | Some None \<Rightarrow> Some None
           | Some (Some (out, rest)) \<Rightarrow> do {
               d \<leftarrow> puny_step d out;
               puny_decode_loop rest d
             })"
  by pat_completeness auto

lemma puny_read_number_shorter:
  "puny_read_number input w k bias out = Some (Some (out', rest)) \<Longrightarrow> length rest < length input"
proof (induction input w k bias out rule: puny_read_number.induct)
  case (2 c input w k bias out)
  then show ?case by (force simp: Let_def bind_eq_Some_conv split: if_splits dest: less_SucI)
qed simp

termination puny_decode_loop
  by (relation "measure (\<lambda>(input, d). length input)") (auto dest: puny_read_number_shorter)

declare puny_decode_loop.simps [simp del]

fun puny_ascii :: "string \<Rightarrow> int list option" where
  "puny_ascii [] = Some []"
| "puny_ascii (c # input) =
     (if (of_char c :: int) AND 0x80 \<noteq> 0 then None else map_option ((#) (schar c)) (puny_ascii input))"

definition punycode_decode :: "string \<Rightarrow> int list option option" where
  "punycode_decode input =
     (let d = \<lparr>dec_out = 0, dec_decoded = 0x80, dec_bias = 72, dec_output = []\<rparr>
      in case SubString_rfind_char input CHR ''-'' NPOS of
           None \<Rightarrow> puny_decode_loop input d
         | Some pos \<Rightarrow>
             case puny_ascii (take pos input) of
               None \<Rightarrow> Some None
             | Some basic \<Rightarrow> puny_decode_loop (drop (pos + 1) input) (d\<lparr>dec_output := basic\<rparr>))"

section \<open>Numbers\<close>

lemma puny_digits_map: "map (\<lambda>c. puny_DECODE ! nat (schar c - 48)) puny_ENCODE = [0..35]"
  by (simp add: puny_DECODE_def puny_ENCODE_def schar_def upto.simps)

lemma puny_digits_range: "list_all (\<lambda>c. 0 \<le> schar c - 48 \<and> schar c - 48 \<le> 74 \<and> c \<noteq> CHR ''-'') puny_ENCODE"
  by (simp add: puny_ENCODE_def schar_def)

lemma puny_digit:
  assumes "0 \<le> v" "v < 36"
  defines "c \<equiv> puny_ENCODE ! nat v"
  shows "0 \<le> schar c - 48" "schar c - 48 \<le> 74" "puny_DECODE ! nat (schar c - 48) = v" "c \<noteq> CHR ''-''"
proof -
  have l: "length puny_ENCODE = 36" by (simp add: puny_ENCODE_def)
  have i: "nat v < length puny_ENCODE" using assms l by simp
  show "0 \<le> schar c - 48" "schar c - 48 \<le> 74" "c \<noteq> CHR ''-''"
    using puny_digits_range i unfolding list_all_length c_def by blast+
  have "puny_DECODE ! nat (schar c - 48) = [0..35] ! nat v"
    unfolding c_def puny_digits_map [symmetric] by (rule nth_map [OF i, symmetric])
  also have "\<dots> = v" using assms by simp
  finally show "puny_DECODE ! nat (schar c - 48) = v" .
qed

lemma puny_read_digit:
  assumes "0 \<le> v" "v < 36"
  shows "puny_read_number (puny_ENCODE ! nat v # input) w k bias out = do {
     value \<leftarrow> wchar (v * w);
     if v < threshold k bias then Some (Some ((out + value) mod 2 ^ 64, input))
     else do {
       w \<leftarrow> wchar (w * (36 - threshold k bias));
       puny_read_number input w (k + 36) bias ((out + value) mod 2 ^ 64)
     }
   }"
  unfolding puny_read_number.simps Let_def using puny_digit [OF assms] assms(2) by simp

declare puny_read_number.simps(2) [simp del]

lemma wchar_Some [simp]: "0 \<le> x \<Longrightarrow> x < 2 ^ 31 \<Longrightarrow> wchar x = Some x"
  by (simp add: wchar_def)

lemma puny_read_number_correct:
  "0 \<le> q \<Longrightarrow> 0 < w \<Longrightarrow> 35 * w * q < 2 ^ 31 \<Longrightarrow> 0 \<le> out \<Longrightarrow> out + q * w < 2 ^ 64 \<Longrightarrow>
   puny_read_number (puny_number q k bias @ rest) w k bias out = Some (Some (out + q * w, rest))"
proof (induction q k bias arbitrary: w out rule: puny_number.induct)
  case (1 q k bias)
  let ?t = "threshold k bias"
  note t = threshold_bounds [of k bias]
  have qw: "0 \<le> q * w" "q * w < 2 ^ 31" "q * w \<le> 35 * w * q" using 1 by (simp_all add: algebra_simps)
  show ?case
  proof (cases "q < ?t")
    case True
    then show ?thesis using 1(2-) t wchar_Some [OF qw(1,2)] by (subst puny_number.simps) (simp add: puny_read_digit)
  next
    case False
    define d where "d = ?t + (q - ?t) mod (36 - ?t)"
    define q' where "q' = (q - ?t) div (36 - ?t)"
    have num: "puny_number q k bias = puny_ENCODE ! nat d # puny_number q' (k + 36) bias"
      using False t by (subst puny_number.simps) (simp add: d_def q'_def Let_def)
    have q: "q = d + (36 - ?t) * q'" unfolding d_def q'_def by simp
    have r: "0 \<le> (q - ?t) mod (36 - ?t)" "(q - ?t) mod (36 - ?t) < 36 - ?t" using t by simp_all
    have q0: "0 \<le> q'" "?t \<le> d" "d < 36" "0 \<le> d"
      using False t r unfolding d_def by (simp add: q'_def pos_imp_zdiv_nonneg_iff, linarith+)
    have "0 \<le> (36 - ?t) * q'" using t q0 by simp
    then have "d \<le> q" using q by linarith
    then have "d * w \<le> q * w" using 1(3) by (intro mult_right_mono) simp_all
    from order.strict_trans1 [OF this qw(2)] have dw: "0 \<le> d * w" "d * w < 2 ^ 31" using 1(3) q0 by simp_all
    have sum: "d * w + q' * (w * (36 - ?t)) = q * w" by (subst q) (simp add: algebra_simps)
    have w': "0 < w * (36 - ?t)" "w * (36 - ?t) \<le> 35 * w * q"
    proof -
      have "w * (36 - ?t) \<le> w * 35" using t 1(3) by (intro mult_left_mono) auto
      also have "\<dots> \<le> 35 * w * q" using False t 1(3) by simp
      finally show "w * (36 - ?t) \<le> 35 * w * q" .
    qed (use t 1(3) in simp)
    have "0 \<le> q' * (w * (36 - ?t))" using q0 w' by simp
    then have "35 * (w * (36 - ?t)) * q' < 2 ^ 31" "out + d * w + q' * (w * (36 - ?t)) < 2 ^ 64"
      using sum dw 1(4,6) by (simp_all add: algebra_simps)
    then have "puny_read_number (puny_number q' (k + 36) bias @ rest) (w * (36 - ?t)) (k + 36) bias (out + d * w)
        = Some (Some (out + d * w + q' * (w * (36 - ?t)), rest))"
      using 1(1) [OF refl False, of "w * (36 - ?t)" "out + d * w"] q0 w' dw 1(5) t False
      by (simp add: q'_def)
    moreover have "(out + d * w) mod 2 ^ 64 = out + d * w"
      using 1(5,6) dw sum \<open>0 \<le> q' * (w * (36 - ?t))\<close> by (intro mod_pos_pos_trivial) linarith+
    ultimately show ?thesis
      unfolding num append_Cons
      using q0 wchar_Some [OF dw] wchar_Some [OF less_imp_le [OF w'(1)] order.strict_trans1 [OF w'(2) 1(4)]] sum
      by (subst puny_read_digit) (simp_all add: add.assoc)
  qed
qed

lemma puny_number_symbols: "0 \<le> q \<Longrightarrow> CHR ''-'' \<notin> set (puny_number q k bias)"
proof (induction q k bias rule: puny_number.induct)
  case (1 q k bias)
  let ?t = "threshold k bias"
  note t = threshold_bounds [of k bias]
  show ?case
  proof (cases "q < ?t")
    case True
    then show ?thesis using 1(2) t puny_digit(4) [of q] by (subst puny_number.simps) simp
  next
    case False
    have r: "0 \<le> (q - ?t) mod (36 - ?t)" "(q - ?t) mod (36 - ?t) < 36 - ?t" using t by simp_all
    have "0 \<le> (q - ?t) div (36 - ?t)" using False t by (simp add: pos_imp_zdiv_nonneg_iff)
    moreover have "?t + (q - ?t) mod (36 - ?t) < 36" "0 \<le> ?t + (q - ?t) mod (36 - ?t)" using r t by linarith+
    ultimately show ?thesis
      using False t 1(1) [OF refl False] puny_digit(4) [THEN not_sym] by (subst puny_number.simps) (simp add: Let_def)
  qed
qed

lemma length_puny_number: "0 \<le> q \<Longrightarrow> int (length (puny_number q k bias)) \<le> q + 1"
proof (induction q k bias rule: puny_number.induct)
  case (1 q k bias)
  let ?t = "threshold k bias"
  note t = threshold_bounds [of k bias]
  show ?case
  proof (cases "q < ?t")
    case True
    then show ?thesis using 1(2) by (subst puny_number.simps) simp
  next
    case False
    have "(q - ?t) div (36 - ?t) \<le> q - ?t" using zdiv_mono2 [of "q - ?t" 1 "36 - ?t"] False t by simp
    moreover have "0 \<le> (q - ?t) div (36 - ?t)" using False t by (simp add: pos_imp_zdiv_nonneg_iff)
    ultimately show ?thesis
      using False t 1(1) [OF refl False] by (subst puny_number.simps) (simp add: Let_def)
  qed
qed

lemma puny_number_nonempty [simp]: "puny_number q k bias \<noteq> []"
  by (subst puny_number.simps) (simp add: Let_def)

lemma adapt_loop_nonneg: "0 \<le> delta \<Longrightarrow> adapt_loop delta k = (delta', k') \<Longrightarrow> 0 \<le> delta'"
proof (induction delta k rule: adapt_loop.induct)
  case (1 delta k)
  then show ?case by (subst (asm) (2) adapt_loop.simps) (auto split: if_splits simp: pos_imp_zdiv_nonneg_iff)
qed

lemma adapt_Some: "0 \<le> delta \<Longrightarrow> 0 < numpoints \<Longrightarrow> \<exists>bias. adapt delta numpoints first = Some bias"
proof -
  assume a: "0 \<le> delta" "0 < numpoints"
  let ?d = "if first then delta sdiv 700 else drop_bit 1 delta"
  have d: "0 \<le> ?d" using a by (simp add: drop_bit_eq_div pos_imp_zdiv_nonneg_iff)
  then have "0 \<le> ?d + ?d sdiv numpoints" using a by (simp add: pos_imp_zdiv_nonneg_iff)
  then obtain x k where p: "adapt_loop (?d + ?d sdiv numpoints) 0 = (x, k)" "0 \<le> x"
    by (cases "adapt_loop (?d + ?d sdiv numpoints) 0") (auto dest: adapt_loop_nonneg)
  then show ?thesis using a unfolding adapt_def Let_def p(1) by simp
qed

section \<open>The decoder follows the encoder\<close>

text \<open>A symbol as it is decoded, and the symbols below \<open>n\<close> of a text.\<close>

definition puny_lower :: "int \<Rightarrow> int" where
  "puny_lower c = (if c < 0x80 then schar (to_lower (char_of c)) else c)"

definition kept :: "int \<Rightarrow> int list \<Rightarrow> int list" where
  "kept n xs = map puny_lower (filter (\<lambda>c. c < n) xs)"

lemma kept_simps [simp]:
  "kept n [] = []" "kept n (xs @ ys) = kept n xs @ kept n ys"
  "kept n (c # xs) = (if c < n then puny_lower c # kept n xs else kept n xs)"
  by (simp_all add: kept_def)

lemma length_kept: "length (kept n xs) \<le> length xs"
  by (simp add: kept_def)

text \<open>
  The pass for \<open>n\<close> has seen \<open>pre\<close> and not yet \<open>rest\<close>: the decoder holds the symbols below \<open>n\<close> and the
  symbols \<open>n\<close> already seen, and delta is the distance from its state to the insertion of \<open>n\<close> here.
\<close>

definition follows :: "int \<Rightarrow> int list \<Rightarrow> int list \<Rightarrow> puny_encoder \<Rightarrow> puny_decoder \<Rightarrow> bool" where
  "follows n pre rest s d \<longleftrightarrow>
     dec_output d = kept (n + 1) pre @ kept n rest \<and> dec_bias d = enc_bias s
     \<and> enc_handled s = length (dec_output d) \<and> enc_first s = (dec_out d = 0)
     \<and> 0 \<le> dec_out d \<and> dec_out d \<le> int (enc_handled s) \<and> 0x80 \<le> dec_decoded d \<and> dec_decoded d \<le> n \<and> 0 \<le> enc_delta s
     \<and> enc_delta s + dec_out d = (n - dec_decoded d) * (int (enc_handled s) + 1) + int (length (kept (n + 1) pre))"

lemma to_wchar_small: "0 \<le> x \<Longrightarrow> x < 2 ^ 31 \<Longrightarrow> to_wchar x = x"
  by (simp add: to_wchar_def)

lemma puny_insert_eq: "puny_insert ((us @ vs) @ [x]) (length us) c = us @ [c] @ vs"
  by (cases vs) (simp_all add: puny_insert_def Let_def list_update_append)

text \<open>One symbol inserted.\<close>

lemma puny_step_insert:
  assumes out: "dec_output d = us @ vs" "0 \<le> dec_out d" "dec_out d \<le> int (length (us @ vs))"
    and delta: "0 \<le> delta" "delta < 2 ^ 31" "length (us @ vs) + 1 < 2 ^ 31" "0 \<le> n" "n < 2 ^ 31"
    and eq: "delta + dec_out d = (n - dec_decoded d) * (int (length (us @ vs)) + 1) + int (length us)"
    and bias: "adapt delta (int (length (us @ vs)) + 1) (dec_out d = 0) = Some bias"
  shows "puny_step d (dec_out d + delta)
    = Some \<lparr>dec_out = int (length us) + 1, dec_decoded = n, dec_bias = bias, dec_output = us @ [n] @ vs\<rparr>"
proof -
  define H where "H = int (length (us @ vs)) + 1"
  have pos: "0 \<le> int (length us)" "int (length us) < H" "H < 2 ^ 31" using delta(3) by (simp_all add: H_def)
  have len: "int (length (dec_output d @ [0])) = H" using out(1) by (simp add: H_def)
  have out': "dec_out d + delta = int (length us) + (n - dec_decoded d) * H" using eq by (simp add: H_def)
  have "(dec_out d + delta) div H = n - dec_decoded d" "(dec_out d + delta) mod H = int (length us)"
    unfolding out' using pos(1,2) by simp_all
  moreover have "to_wchar ((dec_out d + delta - dec_out d) mod 2 ^ 64) = delta"
    using delta by (simp add: to_wchar_small)
  moreover have "to_wchar H = H" "to_wchar n = n" using pos delta by (simp_all add: to_wchar_small)
  moreover have "(int (length us) + 1) mod 2 ^ 64 = int (length us) + 1"
    using pos by (intro mod_pos_pos_trivial) simp_all
  moreover have "puny_insert (dec_output d @ [0]) (length us) n = us @ [n] @ vs"
    unfolding out(1) by (rule puny_insert_eq)
  ultimately show ?thesis using bias unfolding puny_step_def Let_def len H_def [symmetric] by simp
qed

lemma follows_insert:
  assumes f: "follows n pre (n # rest) s d" and bound: "35 * enc_delta s < 2 ^ 31" "n < 2 ^ 31"
    and len: "length pre + length rest + 1 < 2 ^ 31"
    and bias: "adapt (enc_delta s) (int (enc_handled s + 1)) (enc_first s) = Some bias"
  shows "\<exists>d'. (\<forall>r. puny_decode_loop (puny_number (enc_delta s) 36 (enc_bias s) @ r) d = puny_decode_loop r d')
    \<and> follows n (pre @ [n]) rest
      (s\<lparr>enc_output := x, enc_handled := enc_handled s + 1, enc_bias := bias, enc_first := False, enc_delta := 0\<rparr>) d'"
proof -
  let ?us = "kept (n + 1) pre" and ?vs = "kept n rest"
  let ?d = "\<lparr>dec_out = int (length ?us) + 1, dec_decoded = n, dec_bias = bias, dec_output = ?us @ [n] @ ?vs\<rparr>"
  have o: "dec_output d = ?us @ ?vs" using f by (simp add: follows_def)
  have h: "length (?us @ ?vs) + 1 < 2 ^ 31" using len length_kept [of "n + 1" pre] length_kept [of n rest] by simp
  have "puny_read_number (puny_number (enc_delta s) 36 (enc_bias s) @ r) 1 36 (enc_bias s) (dec_out d)
      = Some (Some (dec_out d + enc_delta s, r))" for r
    using puny_read_number_correct [of "enc_delta s" 1 "dec_out d" 36 "enc_bias s" r] f bound h o
    by (simp add: follows_def)
  moreover have e: "int (enc_handled s + 1) = int (length (?us @ ?vs)) + 1" "enc_first s = (dec_out d = 0)"
    using f by (simp_all add: follows_def)
  have "puny_step d (dec_out d + enc_delta s) = Some ?d"
    using f bound h o by (intro puny_step_insert bias [unfolded e]) (simp_all add: follows_def)
  ultimately have loop: "puny_decode_loop (puny_number (enc_delta s) 36 (enc_bias s) @ r) d = puny_decode_loop r ?d" for r
    using f by (subst puny_decode_loop.simps) (simp add: follows_def)
  have "follows n (pre @ [n]) rest
      (s\<lparr>enc_output := x, enc_handled := enc_handled s + 1, enc_bias := bias, enc_first := False, enc_delta := 0\<rparr>) ?d"
    using f o by (simp add: follows_def puny_lower_def)
  then show ?thesis using loop by blast
qed

lemma follows_delta:
  assumes "follows n pre rest s d"
  shows "enc_delta s \<le> n * (int (length pre + length rest) + 1)" "enc_handled s \<le> length pre + length rest"
proof -
  let ?L = "int (length pre + length rest)"
  have f: "enc_handled s = length (kept (n + 1) pre @ kept n rest)" "0 \<le> dec_out d" "0x80 \<le> dec_decoded d" "dec_decoded d \<le> n"
    "enc_delta s + dec_out d = (n - dec_decoded d) * (int (enc_handled s) + 1) + int (length (kept (n + 1) pre))"
    using assms by (simp_all add: follows_def)
  show h: "enc_handled s \<le> length pre + length rest"
    using length_kept [of "n + 1" pre] length_kept [of n rest] f(1) by simp
  have "(n - dec_decoded d) * (int (enc_handled s) + 1) \<le> (n - 1) * (?L + 1)"
    using f h by (intro mult_mono) simp_all
  moreover have "int (length (kept (n + 1) pre)) \<le> ?L" using length_kept [of "n + 1" pre] by simp
  ultimately show "enc_delta s \<le> n * (?L + 1)" using f(2,5) by (simp add: algebra_simps)
qed

lemma follows_less: "follows n pre (c # rest) s d \<Longrightarrow> c < n \<Longrightarrow> follows n (pre @ [c]) rest (s\<lparr>enc_delta := enc_delta s + 1\<rparr>) d"
  by (auto simp: follows_def)

lemma follows_greater: "follows n pre (c # rest) s d \<Longrightarrow> n < c \<Longrightarrow> follows n (pre @ [c]) rest s d"
  by (auto simp: follows_def)

lemma product_bounds:
  fixes n :: int
  assumes "35 * (n * L) < 2 ^ 31" "0x80 \<le> n" "0 < L"
  shows "L < 2 ^ 31" "n < 2 ^ 31"
proof -
  have "128 * L \<le> n * L" "n * 1 \<le> n * L" using assms by (intro mult_mono; simp)+
  then obtain P where "128 * L \<le> P" "n \<le> P" "35 * P < 2 ^ 31" using assms(1) by auto
  then show "L < 2 ^ 31" "n < 2 ^ 31" using assms(3) by simp_all
qed

lemma puny_pass_follows:
  assumes "follows n pre rest s d" "35 * (n * (int (length pre + length rest) + 1)) < 2 ^ 31" "0x80 \<le> n"
  shows "\<exists>s' ds d'. puny_pass n rest s = Some s' \<and> enc_output s' = enc_output s @ ds
    \<and> (\<forall>r. puny_decode_loop (ds @ r) d = puny_decode_loop r d') \<and> follows n (pre @ rest) [] s' d'
    \<and> CHR ''-'' \<notin> set ds \<and> int (length ds) + 2 ^ 31 * int (enc_handled s) \<le> 2 ^ 31 * int (enc_handled s')"
  using assms
proof (induction rest arbitrary: pre s d)
  case Nil
  then show ?case by (intro exI [of _ s] exI [of _ "[]"] exI [of _ d]) simp
next
  case (Cons c rest)
  let ?L = "int (length pre + length (c # rest)) + 1"
  have L: "int (length (pre @ [c]) + length rest) + 1 = ?L" by simp
  note IH = Cons.IH [of "pre @ [c]", unfolded L, OF _ Cons.prems(2,3)]
  have delta: "35 * enc_delta s < 2 ^ 31" "0 \<le> enc_delta s"
    using follows_delta(1) [OF Cons.prems(1)] Cons.prems by (simp_all add: follows_def)
  have len: "?L < 2 ^ 31" and n31: "n < 2 ^ 31" using product_bounds [OF Cons.prems(2,3)] by simp_all
  consider "c < n" | "c = n" | "n < c" by linarith
  then show ?case
  proof cases
    case 1
    from IH [OF follows_less [OF Cons.prems(1) 1]] show ?thesis using 1 delta by simp
  next
    case 3
    from IH [OF follows_greater [OF Cons.prems(1) 3]] show ?thesis using 3 by simp
  next
    case 2
    have h: "int (enc_handled s + 1) < 2 ^ 31" using follows_delta(2) [OF Cons.prems(1)] len by simp
    obtain bias where bias: "adapt (enc_delta s) (int (enc_handled s + 1)) (enc_first s) = Some bias"
      using adapt_Some [OF delta(2), of "int (enc_handled s + 1)" "enc_first s"] by auto
    let ?num = "puny_number (enc_delta s) 36 (enc_bias s)"
    let ?s = "s\<lparr>enc_output := enc_output s @ ?num, enc_handled := enc_handled s + 1, enc_bias := bias,
               enc_first := False, enc_delta := 0\<rparr>"
    have "length pre + length rest + 1 < 2 ^ 31" using len by simp
    from follows_insert [OF Cons.prems(1) [unfolded 2] delta(1) n31 this bias, where x = "enc_output s @ ?num"]
    obtain d1 where d1: "\<forall>r. puny_decode_loop (?num @ r) d = puny_decode_loop r d1" "follows n (pre @ [c]) rest ?s d1"
      unfolding 2 by blast
    from IH [OF d1(2)] obtain s' ds d' where s': "puny_pass n rest ?s = Some s'" "enc_output s' = (enc_output s @ ?num) @ ds"
      "\<forall>r. puny_decode_loop (ds @ r) d1 = puny_decode_loop r d'" "follows n ((pre @ [c]) @ rest) [] s' d'"
      "CHR ''-'' \<notin> set ds" "int (length ds) + 2 ^ 31 * int (enc_handled s + 1) \<le> 2 ^ 31 * int (enc_handled s')"
      by auto
    have "puny_pass n (c # rest) s = Some s'"
      using 2 bias s'(1) by (simp add: to_wchar_small [OF _ h, simplified])
    moreover have "CHR ''-'' \<notin> set (?num @ ds)" using s'(5) puny_number_symbols [OF delta(2)] by simp
    moreover have "int (length (?num @ ds)) + 2 ^ 31 * int (enc_handled s) \<le> 2 ^ 31 * int (enc_handled s')"
      using s'(6) length_puny_number [OF delta(2), of 36 "enc_bias s"] delta by simp
    ultimately show ?thesis
      using s'(2-4) d1(1) by (intro exI [of _ s'] exI [of _ "?num @ ds"] exI [of _ d']) simp
  qed
qed

lemma least_found_le: "least_found n w l \<le> l"
  by (induction w arbitrary: l) (simp, fastforce intro: order_trans)

lemma least_found_lower: "c \<in> set w \<Longrightarrow> n \<le> c \<Longrightarrow> least_found n w l \<le> c"
proof (induction w arbitrary: l)
  case (Cons a w)
  show ?case
  proof (cases "c \<in> set w")
    case False
    then have "c = a" using Cons.prems by simp
    then show ?thesis using least_found_le [of n w "if n \<le> a \<and> a < l then a else l"] Cons.prems(2) by (auto split: if_splits)
  qed (use Cons in simp)
qed simp

lemma least_found_mem: "least_found n w l = l \<or> (least_found n w l \<in> set w \<and> n \<le> least_found n w l)"
proof (induction w arbitrary: l)
  case (Cons a w)
  then show ?case
  proof (cases "n \<le> a \<and> a < l")
    case True
    then show ?thesis using Cons.IH [of a] by auto
  qed auto
qed simp

text \<open>Between two passes: the symbols below \<open>n\<close> are handled, the next pass is for the least other one.\<close>

lemma follows_next_symbol:
  assumes "follows n [] w s d" "n \<le> m" "\<forall>c\<in>set w. n \<le> c \<longrightarrow> m \<le> c"
  shows "follows m [] w (s\<lparr>enc_delta := enc_delta s + (m - n) * (int (enc_handled s) + 1)\<rparr>) d"
proof -
  have "filter (\<lambda>c. c < m) w = filter (\<lambda>c. c < n) w" using assms(2,3) by (intro filter_cong) force+
  then have "kept m w = kept n w" by (simp add: kept_def)
  moreover have "0 \<le> (m - n) * (int (enc_handled s) + 1)" using assms(2) by simp
  moreover have "(m - dec_decoded d) * (int (enc_handled s) + 1)
      = (n - dec_decoded d) * (int (enc_handled s) + 1) + (m - n) * (int (enc_handled s) + 1)"
    by (simp add: algebra_simps)
  ultimately show ?thesis using assms(1,2) by (auto simp: follows_def)
qed

lemma follows_pass_end:
  "follows m w [] s d \<Longrightarrow> follows (m + 1) [] w (s\<lparr>enc_delta := enc_delta s + 1\<rparr>) d"
  by (auto simp: follows_def algebra_simps)

lemma kept_all: "length (kept n w) = length w \<Longrightarrow> kept n w = map puny_lower w"
  unfolding kept_def length_map by (metis filter_True length_filter_less less_irrefl)

lemma kept_not_all: "length (kept n w) < length w \<Longrightarrow> \<exists>c\<in>set w. n \<le> c"
  unfolding kept_def length_map by (metis filter_True less_irrefl not_le)

lemma puny_passes_follows:
  assumes "follows n [] w s d" "\<forall>c\<in>set w. c < M" "35 * (M * (int (length w) + 1)) < 2 ^ 31" "0x80 \<le> n" "n \<le> M"
  shows "\<exists>s' ds d'. puny_passes w n s = Some s' \<and> enc_output s' = enc_output s @ ds
    \<and> (\<forall>r. puny_decode_loop (ds @ r) d = puny_decode_loop r d') \<and> dec_output d' = map puny_lower w
    \<and> CHR ''-'' \<notin> set ds \<and> int (length ds) + 2 ^ 31 * int (enc_handled s) \<le> 2 ^ 31 * int (length w)"
  using assms
proof (induction w n s arbitrary: d rule: puny_passes.induct)
  case (1 w n s)
  have h: "enc_handled s = length (kept n w)" "dec_output d = kept n w" using 1(2) by (simp_all add: follows_def)
  show ?case
  proof (cases "enc_handled s < length w")
    case False
    then have "length (kept n w) = length w" using h(1) length_kept [of n w] by simp
    then show ?thesis using False h kept_all [of n w]
      by (intro exI [of _ s] exI [of _ "[]"] exI [of _ d]) (simp add: puny_passes.simps)
  next
    case True
    define m where "m = least_found n w MAX_WCHAR_T"
    let ?H = "int (enc_handled s) + 1" and ?L = "int (length w) + 1"
    have M: "?L < 2 ^ 31" "M < 2 ^ 31" using product_bounds [OF 1(4)] 1(5,6) by simp_all
    obtain c where c: "c \<in> set w" "n \<le> c" using kept_not_all [of n w] True h(1) by auto
    then have "m \<le> c" "c < M" using least_found_lower 1(3) by (auto simp: m_def)
    then have m: "m \<in> set w" "n \<le> m" "m < M"
      using least_found_mem [of n w MAX_WCHAR_T] M(2) by (auto simp: m_def MAX_WCHAR_T_def)
    have mM: "m + 1 \<le> M" using m(3) by simp
    let ?s = "s\<lparr>enc_delta := enc_delta s + (m - n) * ?H\<rparr>"
    have f: "follows m [] w ?s d"
      using follows_next_symbol [OF 1(2) m(2)] least_found_lower by (auto simp: m_def)
    have "35 * (m * ?L) \<le> 35 * (M * ?L)" using m(3) by simp
    from order.strict_trans1 [OF this 1(4)] have mL: "35 * (m * ?L) < 2 ^ 31" .
    then have bound: "35 * (m * (int (length ([] :: int list) + length w) + 1)) < 2 ^ 31" by simp
    obtain P where P: "m * ?L = P" "35 * P < 2 ^ 31" using mL by blast
    have d0: "0 \<le> enc_delta s" "0 \<le> (m - n) * ?H" using 1(2) m(2) by (simp_all add: follows_def)
    have d1: "enc_delta s + (m - n) * ?H \<le> P" using follows_delta(1) [OF f] P(1) by simp
    have w1: "wchar (m - n) = Some (m - n)" "to_wchar (int (enc_handled s + 1)) = ?H"
      using m M True 1(5) by (simp_all add: to_wchar_small)
    have w2: "wchar ((m - n) * ?H) = Some ((m - n) * ?H)"
      "wchar (enc_delta s + (m - n) * ?H) = Some (enc_delta s + (m - n) * ?H)"
      using d0 d1 P(2) by (intro wchar_Some; linarith)+
    from puny_pass_follows [OF f bound] m(2) 1(5) obtain s1 ds1 d1 where
      s1: "puny_pass m w ?s = Some s1" "enc_output s1 = enc_output s @ ds1"
        "\<forall>r. puny_decode_loop (ds1 @ r) d = puny_decode_loop r d1" "follows m w [] s1 d1"
        "CHR ''-'' \<notin> set ds1" "int (length ds1) + 2 ^ 31 * int (enc_handled s) \<le> 2 ^ 31 * int (enc_handled s1)"
      by auto
    have e1: "enc_delta s1 \<le> P" "0 \<le> enc_delta s1" using follows_delta(1) [OF s1(4)] s1(4) P(1) by (simp_all add: follows_def)
    have w3: "wchar (enc_delta s1 + 1) = Some (enc_delta s1 + 1)" "wchar (m + 1) = Some (m + 1)"
      using e1 P(2) 1(5) m M by (intro wchar_Some; linarith)+
    let ?s1 = "s1\<lparr>enc_delta := enc_delta s1 + 1\<rparr>"
    have "puny_passes w n s = puny_passes w (m + 1) ?s1"
      using True s1(1) w1 w2 w3 by (subst puny_passes.simps) (simp add: Let_def m_def [symmetric])
    moreover have "\<exists>s' ds d'. puny_passes w (m + 1) ?s1 = Some s' \<and> enc_output s' = enc_output ?s1 @ ds
      \<and> (\<forall>r. puny_decode_loop (ds @ r) d1 = puny_decode_loop r d') \<and> dec_output d' = map puny_lower w
      \<and> CHR ''-'' \<notin> set ds \<and> int (length ds) + 2 ^ 31 * int (enc_handled ?s1) \<le> 2 ^ 31 * int (length w)"
      by (rule 1(1) [of m "m - n" "(m - n) * ?H"]) (use True m_def w1 w2 s1(1) w3 1(3-5) m(2) mM follows_pass_end [OF s1(4)] in simp_all)
    ultimately obtain s' ds d' where "puny_passes w n s = Some s'" "enc_output s' = enc_output s @ (ds1 @ ds)"
      "\<forall>r. puny_decode_loop (ds @ r) d1 = puny_decode_loop r d'" "dec_output d' = map puny_lower w"
      "CHR ''-'' \<notin> set ds" "int (length ds) + 2 ^ 31 * int (enc_handled s1) \<le> 2 ^ 31 * int (length w)"
      using s1(2) by auto
    then show ?thesis using s1 by (intro exI [of _ s'] exI [of _ "ds1 @ ds"] exI [of _ d']) simp
  qed
qed

section \<open>Whole names\<close>

lemma lower_ascii:
  assumes "0 \<le> c" "c < 0x80"
  shows "(of_char (to_lower (char_of c)) :: int) < 0x80" "puny_lower c = schar (to_lower (char_of c))"
proof -
  have "(of_char (char_of c) :: nat) = nat c" using char_of_lead [of c] assms by simp
  moreover have "nat c < 128" using assms by simp
  ultimately have "(of_char (to_lower (char_of c)) :: nat) < 128" by (simp add: to_lower_eq)
  then show "(of_char (to_lower (char_of c)) :: int) < 0x80"
    by (metis of_nat_less_numeral_iff of_nat_of_char)
qed (use assms in \<open>simp add: puny_lower_def\<close>)

lemma puny_basic_eq:
  "\<forall>c\<in>set w. 0 \<le> c \<Longrightarrow> puny_basic w = Some (map (\<lambda>c. to_lower (char_of c)) (filter (\<lambda>c. c < 0x80) w))"
  by (induction w) auto

lemma puny_ascii_eq: "\<forall>c\<in>set cs. (of_char c :: int) < 0x80 \<Longrightarrow> puny_ascii cs = Some (map schar cs)"
  by (induction cs) auto

lemma length_puny_ascii: "puny_ascii cs = Some ws \<Longrightarrow> length ws = length cs"
  by (induction cs arbitrary: ws) (auto split: if_splits)

lemma puny_basic_kept:
  assumes "\<forall>c\<in>set w. 0 \<le> c"
  shows "\<exists>basic. puny_basic w = Some basic \<and> puny_ascii basic = Some (kept 0x80 w)"
proof -
  let ?basic = "map (\<lambda>c. to_lower (char_of c)) (filter (\<lambda>c. c < 0x80) w)"
  have "map schar ?basic = kept 0x80 w" using assms lower_ascii(2) by (simp add: kept_def)
  then show ?thesis using puny_basic_eq [OF assms] puny_ascii_eq [of ?basic] lower_ascii(1) assms by simp
qed

lemma rfind_char_last:
  assumes "c \<notin> set ys" "length (xs @ c # ys) \<le> NPOS"
  shows "SubString_rfind_char (xs @ c # ys) c NPOS = Some (length xs)"
proof -
  let ?P = "\<lambda>i. i < length (xs @ c # ys) \<and> (xs @ c # ys) ! i = c"
  have P: "?P (length xs)" by simp
  have "\<not> ?P j" if "length xs < j" for j
    using that assms(1) nth_mem [of "j - length xs - 1" ys] by (auto simp: nth_append nth_Cons')
  then have after: "j \<le> length xs" if "?P j" for j using that by (meson not_le)
  note last = SubString_rfind_char_correct [of "xs @ c # ys" c NPOS]
  have N: "length xs \<le> NPOS" using assms(2) by simp
  show ?thesis
  proof (cases "SubString_rfind_char (xs @ c # ys) c NPOS")
    case None
    then show ?thesis using last P N unfolding last_upto_def None option.case by blast
  next
    case (Some i)
    then have i: "?P i" "\<forall>j. i < j \<and> j \<le> NPOS \<longrightarrow> \<not> ?P j" using last unfolding last_upto_def by simp_all
    then have "\<not> i < length xs" using P N by blast
    then show ?thesis using after [OF i(1)] Some by simp
  qed
qed

lemma rfind_char_none: "c \<notin> set xs \<Longrightarrow> SubString_rfind_char xs c pos = None"
  using SubString_rfind_char_correct [of xs c pos] by (auto simp: last_upto_def split: option.splits)

text \<open>
  (C40) Decoding the encoding of a host name gives the name back, with its ASCII letters in lower case,
  for symbols below \<open>M\<close> and names short enough that no number exceeds the 32 bits of \<^verbatim>\<open>wchar_t\<close>: names of
  up to 54 symbols for all of Unicode. No operation overflows then.
\<close>

theorem punycode_roundtrip:
  assumes "\<forall>c\<in>set input. 0 \<le> c \<and> c < M" "0x80 \<le> M" "35 * (M * (int (length input) + 1)) < 2 ^ 31"
  shows "\<exists>output. punycode_encode input = Some (Some output)
    \<and> punycode_decode output = Some (Some (map puny_lower input))"
proof -
  obtain basic where basic: "puny_basic input = Some basic" "puny_ascii basic = Some (kept 0x80 input)"
    using puny_basic_kept [of input] assms(1) by auto
  have len: "length basic = length (kept 0x80 input)" using length_puny_ascii [OF basic(2)] by simp
  let ?s = "\<lparr>enc_delta = 0, enc_bias = 72, enc_handled = length basic, enc_first = True,
              enc_output = (if basic \<noteq> [] then basic @ ''-'' else basic)\<rparr>"
  let ?d = "\<lparr>dec_out = 0, dec_decoded = 0x80, dec_bias = 72, dec_output = kept 0x80 input\<rparr>"
  have "follows 0x80 [] input ?s ?d" using len by (simp add: follows_def)
  from puny_passes_follows [OF this _ assms(3) _ assms(2)] assms(1) obtain s' ds d' where
    s': "puny_passes input 0x80 ?s = Some s'" "enc_output s' = enc_output ?s @ ds"
      "\<forall>r. puny_decode_loop (ds @ r) ?d = puny_decode_loop r d'" "dec_output d' = map puny_lower input"
      "CHR ''-'' \<notin> set ds" "int (length ds) + 2 ^ 31 * int (length basic) \<le> 2 ^ 31 * int (length input)"
    by auto
  have loop: "puny_decode_loop ds ?d = Some (Some (map puny_lower input))"
    using s'(3) [rule_format, of "[]"] s'(4) by (simp add: puny_decode_loop.simps)
  have "int (length input) + 1 < 2 ^ 31" using product_bounds(1) [OF assms(3,2)] by simp
  then have small: "length (basic @ CHR ''-'' # ds) \<le> NPOS"
    using s'(6) len length_kept [of "0x80" input] by (simp add: NPOS_def)
  have "punycode_decode (enc_output ?s @ ds) = Some (Some (map puny_lower input))"
  proof (cases "basic = []")
    case True
    then show ?thesis using loop s'(5) len by (simp add: punycode_decode_def rfind_char_none)
  next
    case False
    then show ?thesis using loop basic(2) rfind_char_last [OF s'(5) small] by (simp add: punycode_decode_def)
  qed
  then show ?thesis using basic(1) s'(1,2) by (simp add: punycode_encode_def)
qed

text \<open>Witness: the Cyrillic letters of U+043F and U+0440 after a capital Latin one.\<close>

theorem punycode_roundtrip_witness:
  "list_all (\<lambda>c. 0 \<le> c \<and> c < (0x500 :: int)) [0x41, 0x43F, 0x440] \<and> (35 :: int) * (0x500 * 4) < 2 ^ 31
   \<and> (\<exists>output. punycode_encode [0x41, 0x43F, 0x440] = Some (Some output)
        \<and> punycode_decode output = Some (Some [0x61, 0x43F, 0x440]))"
proof -
  have "(char_of (0x41 :: int) :: char) = CHR ''A''" by (simp add: char_of_def)
  moreover have "to_lower CHR ''A'' = CHR ''a''" by (simp add: to_lower_eq char_of_def bit_Suc_0_iff)
  ultimately have "puny_lower 0x41 = 0x61" by (simp add: puny_lower_def schar_def)
  moreover have "puny_lower 0x43F = 0x43F" "puny_lower 0x440 = 0x440" by (simp_all add: puny_lower_def)
  ultimately show ?thesis using punycode_roundtrip [of "[0x41, 0x43F, 0x440]" "0x500"] by simp
qed

end
