(* ===== verification/Simple_Decimal.thy ===== *)
theory Simple_Decimal
  imports Ascii
begin

text \<open>
  Fixed point decimal numbers: src/src/Generics/SimpleDecimal.tpp and .hpp, with the helpers of
  CommonDecimal.hpp. A number is a sign and an unsigned integer \<open>data\<close> in units of the last digit.

  The template parameters (the base type and the two ranks) are a \<open>dec_type\<close>; \<open>dec_type_ok\<close> is what
  the static assertions of the code demand of them. Unsigned integers are naturals: wrap-around is
  written out in \<open>pow10\<close> and \<open>muldiv\<close>, and elsewhere the values are shown to fit.
\<close>

section \<open>Types and constants\<close>

record dec_type =
  Base_bits :: nat
  TOTAL_RANK :: nat
  FRACTION_RANK :: nat

definition INTEGER_RANK :: "dec_type \<Rightarrow> nat" where
  "INTEGER_RANK ty = TOTAL_RANK ty - FRACTION_RANK ty"

abbreviation unsigned_ty :: "nat \<Rightarrow> int_type" where
  "unsigned_ty bits \<equiv> \<lparr>is_signed = False, value_bits = bits\<rparr>"

definition dec_type_ok :: "dec_type \<Rightarrow> bool" where
  "dec_type_ok ty \<longleftrightarrow> TOTAL_RANK ty \<noteq> 0 \<and> FRACTION_RANK ty \<le> TOTAL_RANK ty
     \<and> TOTAL_RANK ty \<le> digits10 (unsigned_ty (Base_bits ty)) \<and> TOTAL_RANK ty \<le> digits10 (unsigned_ty 64)"

primrec Pow10 :: "nat \<Rightarrow> nat" where
  "Pow10 0 = 1"
| "Pow10 (Suc POWER) = 10 * Pow10 POWER"

definition MAX_VALUE :: "dec_type \<Rightarrow> nat" where "MAX_VALUE ty = Pow10 (TOTAL_RANK ty)"
definition MAX_FRACTION :: "dec_type \<Rightarrow> nat" where "MAX_FRACTION ty = Pow10 (FRACTION_RANK ty)"
definition MAX_INTEGER :: "dec_type \<Rightarrow> nat" where "MAX_INTEGER ty = Pow10 (INTEGER_RANK ty)"

record SimpleDecimal =
  negative :: bool
  data :: nat

definition INVALID_FLAG :: "dec_type \<Rightarrow> nat" where "INVALID_FLAG ty = 2 ^ Base_bits ty - 1"

datatype dec_error = Overflow | NotNumber | Sign | Assertion

datatype DecimalMulRemainder = DMR_FLOOR | DMR_ROUND | DMR_CEIL
datatype DecimalDivRemainder = DDR_FLOOR | DDR_CEIL

section \<open>Helpers\<close>

definition READY_POWERS :: "nat list" where
  "READY_POWERS =
     [1, 10, 100, 1000, 10000, 100000, 1000000, 10000000, 100000000, 1000000000, 10000000000,
      100000000000, 1000000000000, 10000000000000, 100000000000000, 1000000000000000,
      10000000000000000, 100000000000000000, 1000000000000000000, 10000000000000000000]"

fun pow10_loop :: "nat \<Rightarrow> nat \<Rightarrow> nat \<Rightarrow> nat \<Rightarrow> nat" where
  "pow10_loop bits pow base res =
     (let res = (if odd pow then res * base mod 2 ^ bits else res);
          pow = pow div 2
      in if pow = 0 then res else pow10_loop bits pow (base * base mod 2 ^ bits) res)"

declare pow10_loop.simps [simp del]

definition pow10 :: "nat \<Rightarrow> nat \<Rightarrow> nat" where
  "pow10 bits pow =
     (if pow < 20 then READY_POWERS ! pow mod 2 ^ bits
      else pow10_loop bits pow (10 mod 2 ^ bits) (1 mod 2 ^ bits))"

text \<open>Splits an integer into sign and absolute value; the smallest one fails an assertion.\<close>

definition split_integer :: "int_type \<Rightarrow> int \<Rightarrow> dec_error + (bool \<times> nat)" where
  "split_integer ity integer =
     (if is_signed ity \<and> integer < 0 then
        if integer \<ge> - numeric_max ity then Inr (True, nat (- integer)) else Inl Assertion
      else Inr (False, nat integer))"

definition exceeds :: "nat \<Rightarrow> nat \<Rightarrow> bool" where
  "exceeds a b \<longleftrightarrow> a \<ge> b"

text \<open>
  The product in two registers, the comparison, and the division only when the quotient fits; the
  result says that it does not fit. Both outputs are then the halves of the product.
\<close>

definition muldiv :: "nat \<Rightarrow> nat \<Rightarrow> nat \<Rightarrow> bool \<times> nat \<times> nat" where
  "muldiv factor1 factor2 divisor =
     (let product = factor1 * factor2; major = product div 2 ^ 64; minor = product mod 2 ^ 64
      in if major \<ge> divisor then (divisor \<noteq> 0, minor, major)
         else (False, product div divisor, product mod divisor))"

section \<open>Construction\<close>

definition SimpleDecimal_default :: "dec_type \<Rightarrow> SimpleDecimal" where
  "SimpleDecimal_default ty = \<lparr>negative = False, data = INVALID_FLAG ty\<rparr>"

definition SimpleDecimal_of_parts :: "dec_type \<Rightarrow> bool \<Rightarrow> nat \<Rightarrow> nat \<Rightarrow> dec_error + SimpleDecimal" where
  "SimpleDecimal_of_parts ty neg integer fraction =
     (if exceeds fraction (MAX_FRACTION ty) then Inl Overflow
      else if exceeds integer (MAX_INTEGER ty) then Inl Overflow
      else Inr \<lparr>negative = neg, data = integer * MAX_FRACTION ty + fraction\<rparr>)"

definition SimpleDecimal_of_integer :: "dec_type \<Rightarrow> int_type \<Rightarrow> int \<Rightarrow> nat \<Rightarrow> dec_error + SimpleDecimal" where
  "SimpleDecimal_of_integer ty ity integer pw =
     (if pw \<ge> digits10 ity + FRACTION_RANK ty \<or> integer = 0 then Inr \<lparr>negative = False, data = 0\<rparr>
      else result_bind (split_integer ity integer) (\<lambda>(neg, integer).
        if pw = FRACTION_RANK ty then
          if exceeds integer (MAX_VALUE ty) then Inl Overflow else Inr \<lparr>negative = neg, data = integer\<rparr>
        else if pw > FRACTION_RANK ty then
          let integer = integer div pow10 (value_bits ity) (pw - FRACTION_RANK ty)
          in if exceeds integer (MAX_VALUE ty) then Inl Overflow else Inr \<lparr>negative = neg, data = integer\<rparr>
        else
          let mul = pow10 (Base_bits ty) (FRACTION_RANK ty - pw)
          in if exceeds integer (MAX_VALUE ty div mul) then Inl Overflow
             else Inr \<lparr>negative = neg, data = integer * mul\<rparr>))"

text \<open>From a less precise type.\<close>

definition SimpleDecimal_of_decimal :: "dec_type \<Rightarrow> dec_type \<Rightarrow> SimpleDecimal \<Rightarrow> dec_error + SimpleDecimal" where
  "SimpleDecimal_of_decimal ty dty diff =
     result_bind (SimpleDecimal_of_integer ty (unsigned_ty (Base_bits dty)) (int (data diff)) (FRACTION_RANK dty))
       (\<lambda>d. Inr (d\<lparr>negative := negative diff\<rparr>))"

definition SimpleDecimal_integer :: "dec_type \<Rightarrow> int_type \<Rightarrow> SimpleDecimal \<Rightarrow> dec_error + int" where
  "SimpleDecimal_integer ty ity d =
     (let int_part = data d div MAX_FRACTION ty
      in if int int_part > numeric_max ity then Inl Overflow
         else if negative d \<and> int_part \<noteq> 0 \<and> \<not> is_signed ity then Inl Sign
         else Inr (if negative d then - int int_part else int int_part))"

section \<open>Parsing\<close>

text \<open>The state after extraction: the two stream bits, and the number or the error message.\<close>

record extract_state =
  failbit :: bool
  eofbit :: bool
  result :: "string + (bool \<times> nat)"

text \<open>\<open>cur\<close> is positioned on a digit; the rest of the digits is skipped.\<close>

definition skip_digits :: "string \<Rightarrow> string" where
  "skip_digits cur = dropWhile is_digit (tl cur)"

definition extract_fail :: "string \<Rightarrow> string \<Rightarrow> extract_state" where
  "extract_fail rest msg = \<lparr>failbit = True, eofbit = (rest = []), result = Inl msg\<rparr>"

fun extract_integer :: "nat \<Rightarrow> nat \<Rightarrow> string \<Rightarrow> extract_state + (nat \<times> string)" where
  "extract_integer LIMIT decimal [] = Inr (decimal, [])"
| "extract_integer LIMIT decimal (c # cur) =
     (if is_digit c then
        if decimal < LIMIT then extract_integer LIMIT (decimal * 10 + digit_val c) cur
        else Inl (extract_fail (skip_digits (c # cur))
               ''number of digits in integer part of string is bigger than expected'')
      else Inr (decimal, c # cur))"

fun extract_fraction :: "nat \<Rightarrow> nat \<Rightarrow> string \<Rightarrow> extract_state + (nat \<times> nat \<times> string)" where
  "extract_fraction digits_left decimal [] = Inr (digits_left, decimal, [])"
| "extract_fraction digits_left decimal (c # cur) =
     (if is_digit c then
        if digits_left \<noteq> 0 then extract_fraction (digits_left - 1) (decimal * 10 + digit_val c) cur
        else Inl (extract_fail (skip_digits (c # cur))
               ''number of digits in fractional part of string is bigger than expected'')
      else Inr (digits_left, decimal, c # cur))"

definition extract_number :: "dec_type \<Rightarrow> bool \<Rightarrow> string \<Rightarrow> extract_state" where
  "extract_number ty neg cur =
     (case extract_integer (MAX_INTEGER ty div 10) 0 cur of
        Inl st \<Rightarrow> st
      | Inr (decimal, cur) \<Rightarrow>
          if FRACTION_RANK ty \<noteq> 0 \<and> cur \<noteq> [] \<and> hd cur = CHR ''.'' then
            (case extract_fraction (FRACTION_RANK ty) decimal (tl cur) of
               Inl st \<Rightarrow> st
             | Inr (digits_left, decimal, cur) \<Rightarrow>
                 \<lparr>failbit = False, eofbit = (cur = []),
                   result = Inr (neg, if FRACTION_RANK ty > 1 \<and> digits_left > 0
                                      then decimal * pow10 (Base_bits ty) digits_left else decimal)\<rparr>)
          else \<lparr>failbit = False, eofbit = (cur = []), result = Inr (neg, decimal * MAX_FRACTION ty)\<rparr>)"

definition extract_decimal :: "dec_type \<Rightarrow> string \<Rightarrow> extract_state" where
  "extract_decimal ty cur =
     (if cur = [] then extract_fail [] ''empty string passed''
      else let signed = (hd cur = CHR ''-'' \<or> hd cur = CHR ''+'');
               neg = (hd cur = CHR ''-'');
               cur = (if signed then tl cur else cur)
           in if cur = [] then extract_fail [] ''empty number passed''
              else if \<not> is_digit (hd cur) then \<lparr>failbit = True, eofbit = False, result = Inl ''empty number passed''\<rparr>
              else extract_number ty neg cur)"

definition SimpleDecimal_of_str :: "dec_type \<Rightarrow> string \<Rightarrow> dec_error + SimpleDecimal" where
  "SimpleDecimal_of_str ty str =
     (let st = extract_decimal ty str
      in if failbit st then Inl Overflow
         else case result st of
                Inl msg \<Rightarrow> Inl NotNumber
              | Inr (neg, decimal) \<Rightarrow>
                  if \<not> eofbit st then Inl NotNumber else Inr \<lparr>negative = neg, data = decimal\<rparr>)"

section \<open>Printing\<close>

text \<open>
  The text is written from the end of the buffer: a character is put in front of \<open>buf\<close>. The first
  loop drops the trailing zeros of a nonzero fraction; it returns the last digit, what is in front of
  it, and the number of digits dropped, the last one included.
\<close>

function fraction_last :: "nat \<Rightarrow> nat \<Rightarrow> nat \<times> nat \<times> nat" where
  "fraction_last fraction_part frac_index =
     (let rest = fraction_part mod 10
      in if rest = 0 \<and> fraction_part \<noteq> 0 then fraction_last (fraction_part div 10) (frac_index + 1)
         else (rest, fraction_part div 10, frac_index + 1))"
  by pat_completeness auto

termination fraction_last
  by (relation "measure fst") auto

function fraction_digits :: "nat \<Rightarrow> nat \<Rightarrow> string \<Rightarrow> nat \<times> string" where
  "fraction_digits fraction_part frac_index buf =
     (if fraction_part \<noteq> 0
      then fraction_digits (fraction_part div 10) (frac_index + 1) (digit_char (fraction_part mod 10) # buf)
      else (frac_index, buf))"
  by pat_completeness auto

termination fraction_digits
  by (relation "measure fst") auto

function integer_digits :: "nat \<Rightarrow> string \<Rightarrow> string" where
  "integer_digits elem buf =
     (let buf = digit_char (elem mod 10) # buf; elem = elem div 10
      in if elem \<noteq> 0 then integer_digits elem buf else buf)"
  by pat_completeness auto

termination integer_digits
  by (relation "measure fst") (auto intro!: div_less_dividend)

declare fraction_last.simps [simp del] fraction_digits.simps [simp del] integer_digits.simps [simp del]

definition fraction_text :: "dec_type \<Rightarrow> nat \<Rightarrow> string" where
  "fraction_text ty fraction_part =
     (if fraction_part \<noteq> 0 then
        let (rest, fraction_part, frac_index) = fraction_last fraction_part 0;
            (frac_index, buf) = fraction_digits fraction_part frac_index [digit_char rest]
        in replicate (FRACTION_RANK ty - frac_index) (CHR ''0'') @ buf
      else ''0'')"

definition decimal_to_char :: "dec_type \<Rightarrow> SimpleDecimal \<Rightarrow> string" where
  "decimal_to_char ty d =
     (if data d = 0 then (if FRACTION_RANK ty \<noteq> 0 then ''0.0'' else ''0'')
      else let elem = data d;
               buf = (if FRACTION_RANK ty \<noteq> 0 then CHR ''.'' # fraction_text ty (elem mod MAX_FRACTION ty) else []);
               elem = (if FRACTION_RANK ty \<noteq> 0 then elem div MAX_FRACTION ty else elem);
               buf = integer_digits elem buf
           in if negative d then CHR ''-'' # buf else buf)"

text \<open>A text longer than the buffer would be written in front of it: no result.\<close>

definition SimpleDecimal_str :: "dec_type \<Rightarrow> SimpleDecimal \<Rightarrow> string option" where
  "SimpleDecimal_str ty d =
     (let str = decimal_to_char ty d in if length str \<le> TOTAL_RANK ty + 2 then Some str else None)"

section \<open>Packing\<close>

primrec le_bytes :: "nat \<Rightarrow> nat \<Rightarrow> nat list" where
  "le_bytes 0 n = []"
| "le_bytes (Suc k) n = n mod 256 # le_bytes k (n div 256)"

fun le_value :: "nat list \<Rightarrow> nat" where
  "le_value [] = 0"
| "le_value (b # bs) = b + 256 * le_value bs"

definition SimpleDecimal_pack :: "dec_type \<Rightarrow> SimpleDecimal \<Rightarrow> nat list" where
  "SimpleDecimal_pack ty d = le_bytes (Base_bits ty div 8) (data d) @ [if negative d then 1 else 0]"

definition SimpleDecimal_unpack :: "dec_type \<Rightarrow> nat list \<Rightarrow> SimpleDecimal" where
  "SimpleDecimal_unpack ty buffer =
     (let n = Base_bits ty div 8 in \<lparr>negative = (buffer ! n \<noteq> 0), data = le_value (take n buffer)\<rparr>)"

section \<open>Operations\<close>

definition SimpleDecimal_negate :: "SimpleDecimal \<Rightarrow> SimpleDecimal" where
  "SimpleDecimal_negate d = d\<lparr>negative := \<not> negative d\<rparr>"

definition SimpleDecimal_floor :: "dec_type \<Rightarrow> SimpleDecimal \<Rightarrow> nat \<Rightarrow> SimpleDecimal" where
  "SimpleDecimal_floor ty d fraction =
     (if fraction > FRACTION_RANK ty \<or> fraction = FRACTION_RANK ty then d
      else let pow = pow10 (Base_bits ty) (FRACTION_RANK ty - fraction)
           in if data d mod pow \<noteq> 0 then d\<lparr>data := data d div pow * pow\<rparr> else d)"

definition SimpleDecimal_ceil :: "dec_type \<Rightarrow> SimpleDecimal \<Rightarrow> nat \<Rightarrow> dec_error + SimpleDecimal" where
  "SimpleDecimal_ceil ty d fraction =
     (if fraction > FRACTION_RANK ty \<or> fraction = FRACTION_RANK ty then Inr d
      else let pow = pow10 (Base_bits ty) (FRACTION_RANK ty - fraction)
           in if data d mod pow \<noteq> 0 then
                let data' = (data d div pow + 1) * pow
                in if data' = MAX_VALUE ty then Inl Overflow else Inr (d\<lparr>data := data'\<rparr>)
              else Inr d)"

definition SimpleDecimal_is_zero :: "SimpleDecimal \<Rightarrow> bool" where
  "SimpleDecimal_is_zero d \<longleftrightarrow> data d = 0"

definition SimpleDecimal_is_nonnegative :: "SimpleDecimal \<Rightarrow> bool" where
  "SimpleDecimal_is_nonnegative d \<longleftrightarrow> \<not> negative d"

definition SimpleDecimal_is_nonpositive :: "SimpleDecimal \<Rightarrow> bool" where
  "SimpleDecimal_is_nonpositive d \<longleftrightarrow> negative d"

definition SimpleDecimal_eq :: "SimpleDecimal \<Rightarrow> SimpleDecimal \<Rightarrow> bool" where
  "SimpleDecimal_eq d test =
     (if negative d = negative test then data d = data test else data d = 0 \<and> data test = 0)"

definition SimpleDecimal_lt :: "SimpleDecimal \<Rightarrow> SimpleDecimal \<Rightarrow> bool" where
  "SimpleDecimal_lt d test =
     (if negative d then
        if negative test then data d > data test else data d \<noteq> 0 \<or> data test \<noteq> 0
      else \<not> negative test \<and> data d < data test)"

definition SimpleDecimal_ne :: "SimpleDecimal \<Rightarrow> SimpleDecimal \<Rightarrow> bool" where
  "SimpleDecimal_ne d test \<longleftrightarrow> \<not> SimpleDecimal_eq d test"
definition SimpleDecimal_gt :: "SimpleDecimal \<Rightarrow> SimpleDecimal \<Rightarrow> bool" where
  "SimpleDecimal_gt d test \<longleftrightarrow> SimpleDecimal_lt test d"
definition SimpleDecimal_ge :: "SimpleDecimal \<Rightarrow> SimpleDecimal \<Rightarrow> bool" where
  "SimpleDecimal_ge d test \<longleftrightarrow> \<not> SimpleDecimal_lt d test"
definition SimpleDecimal_le :: "SimpleDecimal \<Rightarrow> SimpleDecimal \<Rightarrow> bool" where
  "SimpleDecimal_le d test \<longleftrightarrow> \<not> SimpleDecimal_lt test d"

definition SimpleDecimal_add :: "dec_type \<Rightarrow> SimpleDecimal \<Rightarrow> SimpleDecimal \<Rightarrow> dec_error + SimpleDecimal" where
  "SimpleDecimal_add ty summand1 summand2 =
     (if negative summand1 = negative summand2 then
        if MAX_VALUE ty - data summand1 \<le> data summand2 then Inl Overflow
        else Inr \<lparr>negative = negative summand1, data = data summand1 + data summand2\<rparr>
      else if data summand1 < data summand2
        then Inr \<lparr>negative = negative summand2, data = data summand2 - data summand1\<rparr>
        else Inr \<lparr>negative = negative summand1, data = data summand1 - data summand2\<rparr>)"

definition SimpleDecimal_sub :: "dec_type \<Rightarrow> SimpleDecimal \<Rightarrow> SimpleDecimal \<Rightarrow> dec_error + SimpleDecimal" where
  "SimpleDecimal_sub ty minuend subtrahend =
     (if negative minuend \<noteq> negative subtrahend then
        if MAX_VALUE ty - data minuend \<le> data subtrahend then Inl Overflow
        else Inr \<lparr>negative = negative minuend, data = data minuend + data subtrahend\<rparr>
      else if data minuend < data subtrahend
        then Inr \<lparr>negative = (\<not> negative subtrahend), data = data subtrahend - data minuend\<rparr>
        else Inr \<lparr>negative = negative minuend, data = data minuend - data subtrahend\<rparr>)"

definition SimpleDecimal_mul ::
    "dec_type \<Rightarrow> SimpleDecimal \<Rightarrow> SimpleDecimal \<Rightarrow> DecimalMulRemainder \<Rightarrow> dec_error + SimpleDecimal" where
  "SimpleDecimal_mul ty factor1 factor2 dmr =
     (let (big, res, rem) = muldiv (data factor1) (data factor2) (MAX_FRACTION ty)
      in if big \<or> res \<ge> MAX_VALUE ty then Inl Overflow
         else let up = (dmr \<noteq> DMR_FLOOR \<and> FRACTION_RANK ty \<noteq> 0
                        \<and> (if dmr = DMR_ROUND then rem \<ge> MAX_FRACTION ty div 2 else rem \<noteq> 0));
                  res = (if up then res + 1 else res)
              in if up \<and> res = MAX_VALUE ty then Inl Overflow
                 else Inr \<lparr>negative = (negative factor1 \<noteq> negative factor2), data = res\<rparr>)"

definition SimpleDecimal_div_impl ::
    "dec_type \<Rightarrow> SimpleDecimal \<Rightarrow> SimpleDecimal \<Rightarrow> DecimalDivRemainder \<Rightarrow> dec_error + SimpleDecimal" where
  "SimpleDecimal_div_impl ty dividend divisor ddr =
     (if data divisor = 0 then Inl Overflow
      else let (big, quot, rem) = muldiv (data dividend) (MAX_FRACTION ty) (data divisor)
           in if big \<or> quot \<ge> MAX_VALUE ty then Inl Overflow
              else let up = (ddr = DDR_CEIL \<and> rem \<noteq> 0); quot = (if up then quot + 1 else quot)
                   in if up \<and> quot = MAX_VALUE ty then Inl Overflow
                      else Inr \<lparr>negative = (negative dividend \<noteq> negative divisor), data = quot\<rparr>)"

text \<open>Quotient and remainder.\<close>

definition SimpleDecimal_divmod ::
    "dec_type \<Rightarrow> SimpleDecimal \<Rightarrow> SimpleDecimal \<Rightarrow> dec_error + (SimpleDecimal \<times> SimpleDecimal)" where
  "SimpleDecimal_divmod ty dividend divisor =
     result_bind (SimpleDecimal_div_impl ty dividend divisor DDR_FLOOR) (\<lambda>quotient.
     result_bind (SimpleDecimal_mul ty quotient divisor DMR_FLOOR) (\<lambda>product.
     result_bind (SimpleDecimal_sub ty dividend product) (\<lambda>remainder. Inr (quotient, remainder))))"

definition SimpleDecimal_ZERO :: "dec_type \<Rightarrow> dec_error + SimpleDecimal" where
  "SimpleDecimal_ZERO ty = SimpleDecimal_of_parts ty False 0 0"
definition SimpleDecimal_EPSILON :: "dec_type \<Rightarrow> dec_error + SimpleDecimal" where
  "SimpleDecimal_EPSILON ty =
     SimpleDecimal_of_parts ty False (if FRACTION_RANK ty \<noteq> 0 then 0 else 1) (if FRACTION_RANK ty \<noteq> 0 then 1 else 0)"
definition SimpleDecimal_MAXIMUM :: "dec_type \<Rightarrow> dec_error + SimpleDecimal" where
  "SimpleDecimal_MAXIMUM ty = SimpleDecimal_of_parts ty False (MAX_INTEGER ty - 1) (MAX_FRACTION ty - 1)"

section \<open>Lemmas\<close>

text \<open>The value of a number in units of its last digit, and the numbers of a type.\<close>

definition dec_int :: "SimpleDecimal \<Rightarrow> int" where
  "dec_int d = (if negative d then - int (data d) else int (data d))"

definition dec_ok :: "dec_type \<Rightarrow> SimpleDecimal \<Rightarrow> bool" where
  "dec_ok ty d \<longleftrightarrow> data d < MAX_VALUE ty"

lemma Pow10_eq [simp]: "Pow10 n = 10 ^ n"
  by (induction n) simp_all

lemma length_show_nat_bounds: "10 ^ (length (show_nat n) - 1) \<le> max 1 n \<and> n < 10 ^ length (show_nat n)"
proof (induction n rule: show_nat.induct)
  case (1 n)
  show ?case
  proof (cases "n < 10")
    case True
    then show ?thesis by (simp add: show_nat.simps [of n])
  next
    case False
    let ?l = "length (show_nat (n div 10))"
    from 1 False have IH: "10 ^ (?l - 1) \<le> n div 10" "n div 10 < 10 ^ ?l" by auto
    have "?l = Suc (?l - 1)" using show_nat_nonempty [of "n div 10"] by (cases "show_nat (n div 10)") auto
    then have "(10 :: nat) ^ ?l = 10 * 10 ^ (?l - 1)" by (metis power_Suc)
    also have "\<dots> \<le> n" using IH(1) by (metis div_times_less_eq_dividend le_trans mult.commute mult_le_mono2)
    finally show ?thesis using IH(2) False by (simp add: show_nat.simps [of n] div_less_iff_less_mult)
  qed
qed

lemma digits10_power: "10 ^ digits10 ty \<le> (2 :: nat) ^ value_bits ty"
  using length_show_nat_bounds [of "2 ^ value_bits ty"] by (simp add: digits10_def)

lemma dec_type_bounds:
  assumes "dec_type_ok ty" "n \<le> TOTAL_RANK ty"
  shows "10 ^ n < (2 :: nat) ^ Base_bits ty" "10 ^ n < (2 :: nat) ^ 64" "n < 20"
proof -
  have T: "(10 :: nat) ^ TOTAL_RANK ty \<noteq> 2 ^ b" for b
  proof
    assume eq: "(10 :: nat) ^ TOTAL_RANK ty = 2 ^ b"
    obtain k where "TOTAL_RANK ty = Suc k" using assms(1) by (cases "TOTAL_RANK ty") (auto simp: dec_type_ok_def)
    then have "(2 :: int) ^ b = 10 * 10 ^ k" using arg_cong [OF eq, of int] by simp
    then show False using power_two_mod_ten [of b] by simp
  qed
  have "(10 :: nat) ^ TOTAL_RANK ty \<le> 10 ^ digits10 (unsigned_ty (Base_bits ty))"
    "(10 :: nat) ^ TOTAL_RANK ty \<le> 10 ^ digits10 (unsigned_ty 64)"
    using assms(1) by (auto simp: dec_type_ok_def intro!: power_increasing)
  then have "(10 :: nat) ^ TOTAL_RANK ty < 2 ^ Base_bits ty" "(10 :: nat) ^ TOTAL_RANK ty < 2 ^ 64"
    using T [of "Base_bits ty"] T [of 64] digits10_power [of "unsigned_ty (Base_bits ty)"] digits10_power [of "unsigned_ty 64"]
    by (simp_all only: int_type.select_convs)
  moreover have "(10 :: nat) ^ n \<le> 10 ^ TOTAL_RANK ty" using assms(2) by (intro power_increasing) simp_all
  ultimately show "10 ^ n < (2 :: nat) ^ Base_bits ty" "10 ^ n < (2 :: nat) ^ 64" by linarith+
  have "digits10 (unsigned_ty 64) = 19" by (simp add: digits10_def show_nat.simps)
  then show "n < 20" using assms by (simp add: dec_type_ok_def)
qed

lemma READY_POWERS_nth: "n < 20 \<Longrightarrow> READY_POWERS ! n = 10 ^ n"
proof -
  assume "n < 20"
  moreover have "list_all (\<lambda>n. READY_POWERS ! n = 10 ^ n) [0..<20]" by (simp add: READY_POWERS_def upt_rec [of 0] upt_rec [of "Suc 0"] numeral_2_eq_2 [symmetric])
  ultimately show ?thesis unfolding list_all_iff by (metis atLeastLessThan_iff set_upt zero_le)
qed

text \<open>The power of ten by repeated squaring is the power modulo the size of the type.\<close>

lemma pow10_loop_eq: "pow10_loop bits pw b res = res * b ^ pw mod 2 ^ bits" if "0 < pw"
  using that
proof (induction bits pw b res rule: pow10_loop.induct)
  case (1 bits pw b res)
  define r where "r = (if odd pw then res * b mod 2 ^ bits else res)"
  have pw: "b ^ pw = (b * b) ^ (pw div 2) * (if odd pw then b else 1)"
    by (cases "odd pw") (auto simp: power_mult [symmetric] power2_eq_square [symmetric] elim!: oddE evenE)
  have r_mod: "r * x mod 2 ^ bits = res * (if odd pw then b else 1) * x mod 2 ^ bits" for x
    by (simp add: r_def mod_mult_left_eq)
  show ?case
  proof (cases "pw div 2 = 0")
    case True
    then have "pw = 1" using 1(2) by (auto simp: div_eq_0_iff)
    then show ?thesis by (simp add: pow10_loop.simps [of bits])
  next
    case False
    then have "pow10_loop bits pw b res = pow10_loop bits (pw div 2) (b * b mod 2 ^ bits) r"
      by (simp add: pow10_loop.simps [of bits pw] r_def Let_def)
    also have "\<dots> = r * (b * b mod 2 ^ bits) ^ (pw div 2) mod 2 ^ bits"
      using "1.IH" [OF r_def refl] False by simp
    also have "\<dots> = r * (b * b) ^ (pw div 2) mod 2 ^ bits"
      by (metis mod_mult_right_eq power_mod)
    finally show ?thesis by (simp add: r_mod pw mult_ac)
  qed
qed

lemma pow10_eq: "pow10 bits n = 10 ^ n mod 2 ^ bits"
proof (cases "n < 20")
  case False
  then have "pow10 bits n = (1 mod 2 ^ bits) * (10 mod 2 ^ bits) ^ n mod 2 ^ bits"
    by (simp add: pow10_def pow10_loop_eq)
  also have "\<dots> = 10 ^ n mod 2 ^ bits"
    by (metis mod_mult_left_eq mult_1 power_mod)
  finally show ?thesis .
qed (simp add: pow10_def READY_POWERS_nth)

lemma MAX_bounds:
  assumes "dec_type_ok ty"
  shows "MAX_VALUE ty < 2 ^ Base_bits ty" "MAX_VALUE ty < 2 ^ 64" "MAX_FRACTION ty < 2 ^ 64"
    "0 < MAX_FRACTION ty" "0 < MAX_INTEGER ty" "MAX_VALUE ty = MAX_INTEGER ty * MAX_FRACTION ty"
proof -
  have F: "FRACTION_RANK ty \<le> TOTAL_RANK ty" using assms by (simp add: dec_type_ok_def)
  then show "MAX_VALUE ty < 2 ^ Base_bits ty" "MAX_VALUE ty < 2 ^ 64" "MAX_FRACTION ty < 2 ^ 64"
    using dec_type_bounds [OF assms] by (simp_all add: MAX_VALUE_def MAX_FRACTION_def)
  show "MAX_VALUE ty = MAX_INTEGER ty * MAX_FRACTION ty"
    using F by (simp add: MAX_VALUE_def MAX_FRACTION_def MAX_INTEGER_def INTEGER_RANK_def flip: power_add)
qed (simp_all add: MAX_FRACTION_def MAX_INTEGER_def)

lemma pow10_small: "dec_type_ok ty \<Longrightarrow> n \<le> TOTAL_RANK ty \<Longrightarrow> pow10 (Base_bits ty) n = 10 ^ n"
  by (simp add: pow10_eq dec_type_bounds)

text \<open>The quotient of the product is computed exactly when it fits 64 bits.\<close>

lemma muldiv_eq:
  assumes "a < 2 ^ 64" "0 < d"
  shows "muldiv a b d = (if a * b div d \<ge> 2 ^ 64 then (True, a * b mod 2 ^ 64, a * b div 2 ^ 64)
    else (False, a * b div d, a * b mod d))"
proof -
  have "a * b div 2 ^ 64 \<ge> d \<longleftrightarrow> a * b \<ge> d * 2 ^ 64" by (rule less_eq_div_iff_mult_less_eq) simp
  also have "\<dots> \<longleftrightarrow> a * b div d \<ge> 2 ^ 64"
    using less_eq_div_iff_mult_less_eq [OF assms(2), of "2 ^ 64" "a * b"] by (simp add: mult.commute)
  finally show ?thesis using assms(2) by (simp add: muldiv_def Let_def)
qed

lemma nat_div_carry:
  fixes p c F :: nat
  assumes "0 < F" "c < F"
  shows "(p + c) div F = p div F + (if p mod F + c \<ge> F then 1 else 0)"
proof -
  have "p + c = (p mod F + c) + p div F * F" by simp
  then have "(p + c) div F = p div F + (p mod F + c) div F"
    using assms(1) by (metis div_mult_self3 add.commute less_numeral_extra(3))
  moreover have "p mod F < F" using assms(1) by simp
  then have "(p mod F + c) div F = (if p mod F + c \<ge> F then 1 else 0)"
    using add_strict_mono [OF _ assms(2), of "p mod F" F] by (intro div_nat_eqI) auto
  ultimately show ?thesis by simp
qed

lemma ceil_div:
  fixes p F :: nat
  assumes "0 < F"
  shows "(p + F - Suc 0) div F = p div F + (if p mod F \<noteq> 0 then 1 else 0)"
  using nat_div_carry [OF assms, of "F - 1" p] assms by (auto simp: Suc_le_eq)

lemma round_div:
  fixes p F :: nat
  assumes "0 < F" "even F"
  shows "(p + F div 2) div F = p div F + (if p mod F \<ge> F div 2 then 1 else 0)"
  using nat_div_carry [OF assms(1), of "F div 2" p] assms by (auto elim!: evenE)

text \<open>Multiplication rounds the exact product and fails exactly when the result is too big.\<close>

definition round_quotient :: "DecimalMulRemainder \<Rightarrow> nat \<Rightarrow> nat \<Rightarrow> nat" where
  "round_quotient dmr p F = (case dmr of DMR_FLOOR \<Rightarrow> p div F | DMR_ROUND \<Rightarrow> (p + F div 2) div F
     | DMR_CEIL \<Rightarrow> (p + F - 1) div F)"

lemma SimpleDecimal_mul_eq:
  assumes "dec_type_ok ty" "dec_ok ty a"
  shows "SimpleDecimal_mul ty a b dmr =
    (let q = round_quotient dmr (data a * data b) (MAX_FRACTION ty)
     in if q \<ge> MAX_VALUE ty then Inl Overflow else Inr \<lparr>negative = (negative a \<noteq> negative b), data = q\<rparr>)"
proof -
  let ?F = "MAX_FRACTION ty"
  obtain p where p: "data a * data b = p" by blast
  note M = MAX_bounds [OF assms(1)]
  have a: "data a < 2 ^ 64" using assms(2) M by (simp add: dec_ok_def)
  have F: "FRACTION_RANK ty = 0 \<Longrightarrow> ?F = 1" "FRACTION_RANK ty \<noteq> 0 \<Longrightarrow> even ?F"
    by (simp_all add: MAX_FRACTION_def)
  let ?up = "dmr \<noteq> DMR_FLOOR \<and> FRACTION_RANK ty \<noteq> 0 \<and> (if dmr = DMR_ROUND then p mod ?F \<ge> ?F div 2 else p mod ?F \<noteq> 0)"
  have q: "round_quotient dmr p ?F = p div ?F + (if ?up then 1 else 0)"
    using F M(4) by (cases "FRACTION_RANK ty = 0") (auto simp: round_quotient_def ceil_div round_div split: DecimalMulRemainder.split)
  show ?thesis
    unfolding SimpleDecimal_mul_def p Let_def q using M(2)
    by (auto simp: muldiv_eq [OF a M(4), of "data b", unfolded p])
qed

lemma SimpleDecimal_div_eq:
  assumes "dec_type_ok ty" "dec_ok ty a" "data b \<noteq> 0"
  shows "SimpleDecimal_div_impl ty a b ddr =
    (let p = data a * MAX_FRACTION ty; q = (case ddr of DDR_FLOOR \<Rightarrow> p div data b | DDR_CEIL \<Rightarrow> (p + data b - 1) div data b)
     in if q \<ge> MAX_VALUE ty then Inl Overflow else Inr \<lparr>negative = (negative a \<noteq> negative b), data = q\<rparr>)"
proof -
  obtain p where p: "data a * MAX_FRACTION ty = p" by blast
  note M = MAX_bounds [OF assms(1)]
  have a: "data a < 2 ^ 64" "0 < data b" using assms M by (simp_all add: dec_ok_def)
  show ?thesis
    using M(2) assms(3) unfolding SimpleDecimal_div_impl_def p Let_def
    by (cases ddr) (auto simp: muldiv_eq [OF a, of "MAX_FRACTION ty", unfolded p] ceil_div)
qed

lemma dec_int_magnitude: "\<bar>dec_int d\<bar> = int (data d)"
  by (simp add: dec_int_def)

subsection \<open>Printing and parsing\<close>

lemma integer_digits_eq: "integer_digits n buf = show_nat n @ buf"
proof (induction n buf rule: integer_digits.induct)
  case (1 n buf)
  show ?case
  proof (cases "n < 10")
    case True
    then show ?thesis by (simp add: integer_digits.simps [of n] show_nat.simps [of n])
  next
    case False
    then have "n div 10 \<noteq> 0" by simp
    with 1 False show ?thesis by (simp add: integer_digits.simps [of n] show_nat.simps [of n])
  qed
qed

text \<open>
  The digits after the point: \<open>w\<close> of them with leading zeros, with the trailing zeros removed.
\<close>

lemma fraction_last_eq:
  assumes "0 < f"
  shows "\<exists>k r g. fraction_last f i = (r, g, i + k + 1) \<and> f = (g * 10 + r) * 10 ^ k \<and> 0 < r \<and> r < 10"
  using assms
proof (induction f i rule: fraction_last.induct)
  case (1 f i)
  show ?case
  proof (cases "f mod 10 = 0")
    case True
    then have pos: "0 < f div 10" and f: "f = f div 10 * 10" using 1(2) by auto
    from "1.IH" [OF refl _ pos] True 1(2) obtain k r g where
      *: "fraction_last (f div 10) (i + 1) = (r, g, i + 1 + k + 1)" "f div 10 = (g * 10 + r) * 10 ^ k" "0 < r" "r < 10" by auto
    have "fraction_last f i = (r, g, i + Suc k + 1)"
      using True 1(2) *(1) by (simp add: fraction_last.simps [of f])
    moreover have "f = (g * 10 + r) * 10 ^ Suc k" using *(2) f by simp
    ultimately show ?thesis using *(3,4) by blast
  next
    case False
    then have "fraction_last f i = (f mod 10, f div 10, i + 0 + 1)" by (simp add: fraction_last.simps [of f])
    moreover have "f = (f div 10 * 10 + f mod 10) * 10 ^ 0" by simp
    ultimately show ?thesis using False by (metis mod_less_divisor neq0_conv zero_less_numeral)
  qed
qed

lemma fraction_digits_eq:
  "\<exists>ds. fraction_digits f i buf = (i + length ds, ds @ buf) \<and> (\<forall>c\<in>set ds. is_digit c) \<and> digits_val ds = f
     \<and> (\<forall>w. f < 10 ^ w \<longrightarrow> length ds \<le> w)"
proof (induction f i buf rule: fraction_digits.induct)
  case (1 f i buf)
  show ?case
  proof (cases "f = 0")
    case True
    then show ?thesis by (intro exI [of _ "[]"]) (simp add: fraction_digits.simps)
  next
    case False
    from "1.IH" [OF False] obtain ds where
      *: "fraction_digits (f div 10) (i + 1) (digit_char (f mod 10) # buf) = (i + 1 + length ds, ds @ digit_char (f mod 10) # buf)"
      "\<forall>c\<in>set ds. is_digit c" "digits_val ds = f div 10" "\<forall>w. f div 10 < 10 ^ w \<longrightarrow> length ds \<le> w" by blast
    have "length ds < w" if "f < 10 ^ w" for w
    proof (cases w)
      case 0
      with that False show ?thesis by simp
    next
      case (Suc v)
      with that have "f div 10 < 10 ^ v" by (simp add: less_mult_imp_div_less)
      with *(4) Suc show ?thesis by (auto simp: less_Suc_eq_le)
    qed
    then show ?thesis
      using * False
      by (intro exI [of _ "ds @ [digit_char (f mod 10)]"]) (auto simp: fraction_digits.simps [of f] Suc_le_eq)
  qed
qed

lemma digits_val_single [simp]: "digits_val [c] = digit_val c"
  using digits_val_Cons [of c "[]"] by simp

lemma fraction_text_spec:
  assumes "f < MAX_FRACTION ty" "FRACTION_RANK ty \<noteq> 0"
  shows "\<exists>ds. fraction_text ty f = ds \<and> ds \<noteq> [] \<and> (\<forall>c\<in>set ds. is_digit c) \<and> length ds \<le> FRACTION_RANK ty
    \<and> digits_val ds * 10 ^ (FRACTION_RANK ty - length ds) = f"
proof (cases "f = 0")
  case True
  then show ?thesis using assms(2) digits_val_Cons [of "CHR ''0''" "[]"]
    by (simp add: fraction_text_def is_digit_def digit_val_def)
next
  case False
  obtain k r g where last: "fraction_last f 0 = (r, g, k + 1)" and f: "f = (g * 10 + r) * 10 ^ k" and r: "0 < r" "r < 10"
    using fraction_last_eq [of f 0] False by auto
  obtain ds where ds: "fraction_digits g (k + 1) [digit_char r] = (k + 1 + length ds, ds @ [digit_char r])"
    "\<forall>c\<in>set ds. is_digit c" "digits_val ds = g" "\<forall>w. g < 10 ^ w \<longrightarrow> length ds \<le> w"
    using fraction_digits_eq [of g "k + 1" "[digit_char r]"] by blast
  let ?F = "FRACTION_RANK ty"
  have k: "k < ?F"
  proof (rule ccontr)
    assume "\<not> k < ?F"
    then have "(10 :: nat) ^ ?F * 1 \<le> 10 ^ k * (g * 10 + r)"
      using r by (intro mult_le_mono power_increasing) simp_all
    then show False using assms(1) f by (simp add: MAX_FRACTION_def mult.commute)
  qed
  then have "(g * 10 + r) * 10 ^ k < 10 ^ (?F - k) * 10 ^ k"
    using assms(1) f by (simp add: MAX_FRACTION_def flip: power_add)
  then have "g * 10 < 10 ^ (?F - k)" by simp
  moreover have "?F - k = Suc (?F - k - 1)" using k by simp
  ultimately have "g < 10 ^ (?F - k - 1)" by (metis mult.commute mult_less_cancel1 power_Suc)
  then have len: "k + 1 + length ds \<le> ?F" using ds(4) k by fastforce
  let ?z = "replicate (?F - (k + 1 + length ds)) (CHR ''0'')"
  have str: "fraction_text ty f = ?z @ ds @ [digit_char r]"
    using False last ds(1) by (simp add: fraction_text_def)
  have "digits_val (replicate n (CHR ''0'')) = 0" for n
    by (induction n) (simp_all add: digits_val_Cons digit_val_def)
  then have val: "digits_val (?z @ ds @ [digit_char r]) = g * 10 + r"
    using ds(3) r by (simp add: digits_val_append)
  have "\<forall>c\<in>set (?z @ ds @ [digit_char r]). is_digit c"
    using ds(2) r by (auto simp: is_digit_def [of "CHR ''0''"])
  moreover have "?F - length (?z @ ds @ [digit_char r]) = k" using len by simp
  ultimately show ?thesis
    unfolding str using len val f by (intro exI [of _ "?z @ ds @ [digit_char r]"]) simp
qed

lemma extract_integer_digits:
  assumes "\<forall>c\<in>set ds. is_digit c" "rest = [] \<or> \<not> is_digit (hd rest)" "n * 10 ^ length ds + digits_val ds < LIMIT * 10"
  shows "extract_integer LIMIT n (ds @ rest) = Inr (n * 10 ^ length ds + digits_val ds, rest)"
  using assms
proof (induction ds arbitrary: n)
  case Nil
  then show ?case by (cases rest) simp_all
next
  case (Cons c ds)
  have eq: "n * 10 ^ length (c # ds) + digits_val (c # ds) = (n * 10 + digit_val c) * 10 ^ length ds + digits_val ds"
    by (simp add: digits_val_Cons algebra_simps)
  have "n * 10 \<le> n * 10 ^ length (c # ds)" by simp
  then have "n * 10 < LIMIT * 10" using Cons.prems(3) by linarith
  then have "n < LIMIT" by simp
  then show ?case using Cons.prems Cons.IH [of "n * 10 + digit_val c"] unfolding eq by simp
qed

lemma extract_fraction_digits:
  assumes "\<forall>c\<in>set ds. is_digit c" "length ds \<le> left"
  shows "extract_fraction left n ds = Inr (left - length ds, n * 10 ^ length ds + digits_val ds, [])"
  using assms
proof (induction ds arbitrary: n left)
  case (Cons c ds)
  have eq: "n * 10 ^ length (c # ds) + digits_val (c # ds) = (n * 10 + digit_val c) * 10 ^ length ds + digits_val ds"
    by (simp add: digits_val_Cons algebra_simps)
  show ?case using Cons.prems Cons.IH [of "left - 1" "n * 10 + digit_val c"] unfolding eq by auto
qed simp

lemma not_digit_point: "\<not> is_digit CHR ''.''"
  by (simp add: is_digit_def)

lemma extract_number_text:
  assumes "dec_type_ok ty" "0 < INTEGER_RANK ty" "n < MAX_INTEGER ty"
  shows "extract_number ty neg (show_nat n) = \<lparr>failbit = False, eofbit = True, result = Inr (neg, n * MAX_FRACTION ty)\<rparr>"
    and "FRACTION_RANK ty \<noteq> 0 \<Longrightarrow> f < MAX_FRACTION ty \<Longrightarrow>
      extract_number ty neg (show_nat n @ CHR ''.'' # fraction_text ty f)
        = \<lparr>failbit = False, eofbit = True, result = Inr (neg, n * MAX_FRACTION ty + f)\<rparr>"
proof -
  obtain k where "INTEGER_RANK ty = Suc k" using assms(2) by (cases "INTEGER_RANK ty") auto
  then have limit: "n < MAX_INTEGER ty div 10 * 10" using assms(3) by (simp add: MAX_INTEGER_def)
  have int: "extract_integer (MAX_INTEGER ty div 10) 0 (show_nat n @ rest) = Inr (n, rest)"
    if "rest = [] \<or> \<not> is_digit (hd rest)" for rest
    using extract_integer_digits [of "show_nat n" rest 0 "MAX_INTEGER ty div 10"] that limit by simp
  show "extract_number ty neg (show_nat n) = \<lparr>failbit = False, eofbit = True, result = Inr (neg, n * MAX_FRACTION ty)\<rparr>"
    using int [of "[]"] by (simp add: extract_number_def)
  assume F: "FRACTION_RANK ty \<noteq> 0" "f < MAX_FRACTION ty"
  obtain ds where ds: "fraction_text ty f = ds" "ds \<noteq> []" "\<forall>c\<in>set ds. is_digit c" "length ds \<le> FRACTION_RANK ty"
    "digits_val ds * 10 ^ (FRACTION_RANK ty - length ds) = f"
    using fraction_text_spec [OF F(2,1)] by blast
  let ?F = "FRACTION_RANK ty" and ?m = "n * 10 ^ length ds + digits_val ds"
  have "?F - length ds \<le> TOTAL_RANK ty" using assms(1) by (auto simp: dec_type_ok_def)
  note pow = pow10_small [OF assms(1) this]
  have "?m * 10 ^ (?F - length ds) = n * (10 ^ length ds * 10 ^ (?F - length ds)) + f"
    using ds(5) by (simp add: algebra_simps)
  also have "\<dots> = n * MAX_FRACTION ty + f" using ds(4) by (simp add: MAX_FRACTION_def flip: power_add)
  finally have m: "?m * 10 ^ (?F - length ds) = n * MAX_FRACTION ty + f" .
  have "\<not> (?F > 1 \<and> ?F - length ds > 0) \<Longrightarrow> ?F - length ds = 0" using F(1) ds(2,4) by (cases ds) auto
  then have "(if ?F > 1 \<and> ?F - length ds > 0 then ?m * pow10 (Base_bits ty) (?F - length ds) else ?m) = n * MAX_FRACTION ty + f"
    using m pow by (auto simp del: diff_is_0_eq)
  then show "extract_number ty neg (show_nat n @ CHR ''.'' # fraction_text ty f)
        = \<lparr>failbit = False, eofbit = True, result = Inr (neg, n * MAX_FRACTION ty + f)\<rparr>"
    using F int [of "CHR ''.'' # ds"] extract_fraction_digits [OF ds(3,4), of n] ds(1)
    by (simp add: extract_number_def not_digit_point)
qed

lemma hd_show_nat: "is_digit (hd (show_nat n @ s))" "hd (show_nat n @ s) \<noteq> CHR ''-''" "hd (show_nat n @ s) \<noteq> CHR ''+''"
proof -
  obtain c cs where c: "show_nat n = c # cs" using show_nat_nonempty [of n] by (meson neq_Nil_conv)
  then show "is_digit (hd (show_nat n @ s))" using show_nat_digits [of c n] by simp
  show "hd (show_nat n @ s) \<noteq> CHR ''-''" "hd (show_nat n @ s) \<noteq> CHR ''+''"
    using show_nat_not_sign [OF c] c by simp_all
qed

lemma of_str_text:
  assumes "extract_number ty neg (show_nat n @ s) = \<lparr>failbit = False, eofbit = True, result = Inr (neg, m)\<rparr>"
  shows "SimpleDecimal_of_str ty ((if neg then ''-'' else []) @ show_nat n @ s) = Inr \<lparr>negative = neg, data = m\<rparr>"
  using assms hd_show_nat [of n s]
  by (cases neg) (simp_all add: SimpleDecimal_of_str_def extract_decimal_def Let_def)

lemma show_nat_0: "show_nat 0 = ''0''"
  by code_simp

lemma SimpleDecimal_of_integer_eq:
  assumes ty: "dec_type_ok ty" and pw: "pw < digits10 ity + FRACTION_RANK ty" and i: "integer \<noteq> 0"
    and range: "- numeric_max ity \<le> integer" "is_signed ity \<or> 0 \<le> integer"
  shows "SimpleDecimal_of_integer ty ity integer pw =
    (let q = nat \<bar>integer\<bar> * MAX_FRACTION ty div 10 ^ pw
     in if q \<ge> MAX_VALUE ty then Inl Overflow else Inr \<lparr>negative = (integer < 0), data = q\<rparr>)"
proof -
  let ?F = "FRACTION_RANK ty" and ?n = "nat \<bar>integer\<bar>"
  have split: "split_integer ity integer = Inr (integer < 0, ?n)"
    using range by (auto simp: split_integer_def)
  consider "pw = ?F" | "pw > ?F" | "pw < ?F" by linarith
  then show ?thesis
  proof cases
    case 1
    then have "?n * MAX_FRACTION ty div 10 ^ pw = ?n" by (simp add: MAX_FRACTION_def)
    then show ?thesis using 1 pw i by (simp add: SimpleDecimal_of_integer_def split exceeds_def Let_def)
  next
    case 2
    then have "(10 :: nat) ^ pw = 10 ^ (pw - ?F) * 10 ^ ?F" by (simp flip: power_add)
    then have "?n * MAX_FRACTION ty div 10 ^ pw = ?n div 10 ^ (pw - ?F)" by (simp add: MAX_FRACTION_def)
    moreover have "(10 :: nat) ^ (pw - ?F) < 10 ^ digits10 ity"
      using 2 pw by (intro power_strict_increasing) simp_all
    then have "(10 :: nat) ^ (pw - ?F) < 2 ^ value_bits ity" using digits10_power [of ity] by (rule less_le_trans)
    then have "pow10 (value_bits ity) (pw - ?F) = 10 ^ (pw - ?F)" by (simp add: pow10_eq)
    ultimately show ?thesis using 2 pw i by (simp add: SimpleDecimal_of_integer_def split exceeds_def Let_def)
  next
    case 3
    let ?m = "10 ^ (?F - pw) :: nat"
    have F: "MAX_FRACTION ty = ?m * 10 ^ pw" using 3 by (simp add: MAX_FRACTION_def flip: power_add)
    have T: "?F - pw \<le> TOTAL_RANK ty" using ty by (auto simp: dec_type_ok_def)
    then have "MAX_VALUE ty = 10 ^ (TOTAL_RANK ty - (?F - pw)) * ?m" by (simp add: MAX_VALUE_def flip: power_add)
    then have "?n \<ge> MAX_VALUE ty div ?m \<longleftrightarrow> ?n * ?m \<ge> MAX_VALUE ty" by simp
    moreover have "?n * MAX_FRACTION ty div 10 ^ pw = ?n * ?m" by (simp add: F)
    ultimately show ?thesis
      using 3 pw i pow10_small [OF ty T] by (simp add: SimpleDecimal_of_integer_def split exceeds_def Let_def)
  qed
qed

lemma divmod_bounds:
  fixes a b F :: nat
  assumes "0 < b" "0 < F"
  shows "a * F div b * b div F \<le> a" "(a - a * F div b * b div F) * F < b + F"
proof -
  have "a * F div b * b \<le> a * F" by (rule div_times_less_eq_dividend)
  then have "a * F div b * b div F \<le> a * F div F" by (rule div_le_mono)
  then show le: "a * F div b * b div F \<le> a" using assms(2) by simp
  have "a * F < a * F div b * b + b"
    using assms(1) by (metis add_less_cancel_left div_mult_mod_eq mod_less_divisor)
  moreover have "a * F div b * b < a * F div b * b div F * F + F"
    using assms(2) by (metis add_less_cancel_left div_mult_mod_eq mod_less_divisor)
  moreover have "x < y + b \<Longrightarrow> y < z + F \<Longrightarrow> x - z < b + F" for x y z :: nat
    using assms(1) by linarith
  ultimately show "(a - a * F div b * b div F) * F < b + F"
    unfolding diff_mult_distrib by blast
qed

abbreviation money_ty :: dec_type where
  "money_ty \<equiv> \<lparr>Base_bits = 64, TOTAL_RANK = 18, FRACTION_RANK = 8\<rparr>"

lemma money_ty_ok: "dec_type_ok money_ty"
  by (simp add: dec_type_ok_def digits10_def show_nat.simps)

lemma length_show_nat_le: "0 < w \<Longrightarrow> n < 10 ^ w \<Longrightarrow> length (show_nat n) \<le> w"
proof (rule ccontr)
  assume w: "0 < w" "n < 10 ^ w" "\<not> length (show_nat n) \<le> w"
  then have "(10 :: nat) ^ w \<le> 10 ^ (length (show_nat n) - 1)" by (intro power_increasing) simp_all
  also have "\<dots> \<le> max 1 n" using length_show_nat_bounds by blast
  finally have "(10 :: nat) ^ w \<le> 1" using w(2) by (simp add: max_def split: if_splits)
  moreover have "(10 :: nat) ^ 1 \<le> 10 ^ w" using w(1) by (intro power_increasing) simp_all
  ultimately show False by simp
qed

lemma decimal_to_char_eq:
  assumes "data d \<noteq> 0"
  shows "decimal_to_char ty d = (if negative d then ''-'' else []) @ show_nat (data d div MAX_FRACTION ty)
    @ (if FRACTION_RANK ty \<noteq> 0 then CHR ''.'' # fraction_text ty (data d mod MAX_FRACTION ty) else [])"
  using assms by (simp add: decimal_to_char_def Let_def integer_digits_eq MAX_FRACTION_def)

lemma decimal_to_char_length:
  assumes "dec_type_ok ty" "0 < INTEGER_RANK ty" "dec_ok ty d"
  shows "length (decimal_to_char ty d) \<le> TOTAL_RANK ty + 2"
proof (cases "data d = 0")
  case False
  note M = MAX_bounds [OF assms(1)]
  have "data d div MAX_FRACTION ty < 10 ^ INTEGER_RANK ty"
    using assms(3) M(6) by (simp add: dec_ok_def MAX_INTEGER_def less_mult_imp_div_less)
  then have "length (show_nat (data d div MAX_FRACTION ty)) \<le> INTEGER_RANK ty"
    by (rule length_show_nat_le [OF assms(2)])
  moreover have "length (fraction_text ty (data d mod MAX_FRACTION ty)) \<le> FRACTION_RANK ty" if "FRACTION_RANK ty \<noteq> 0"
    using fraction_text_spec [OF _ that, of "data d mod MAX_FRACTION ty"] M(4) by fastforce
  moreover have "TOTAL_RANK ty = INTEGER_RANK ty + FRACTION_RANK ty"
    using assms(1) by (simp add: INTEGER_RANK_def dec_type_ok_def)
  ultimately show ?thesis by (auto simp: decimal_to_char_eq [OF False])
qed (use assms(1) in \<open>auto simp: decimal_to_char_def dec_type_ok_def\<close>)

subsection \<open>Packing\<close>

lemma length_le_bytes [simp]: "length (le_bytes k n) = k"
  by (induction k arbitrary: n) simp_all

lemma le_value_le_bytes: "le_value (le_bytes k n) = n mod 256 ^ k"
  by (induction k arbitrary: n) (simp_all add: mod_mult2_eq add.commute)

lemma SimpleDecimal_unpack_pack:
  "data d < 256 ^ (Base_bits ty div 8) \<Longrightarrow> SimpleDecimal_unpack ty (SimpleDecimal_pack ty d) = d"
  by (simp add: SimpleDecimal_unpack_def SimpleDecimal_pack_def Let_def nth_append le_value_le_bytes)

interpretation dec_pack: codec "SimpleDecimal_pack ty" "\<lambda>b. Some (SimpleDecimal_unpack ty b)"
    "\<lambda>d. data d < 256 ^ (Base_bits ty div 8)" for ty
  by unfold_locales (simp add: SimpleDecimal_unpack_pack)

section \<open>Properties\<close>

text \<open>
  (C28) Sum and difference of two numbers of a type are exact whenever the exact result fits the type,
  and raise Overflow exactly when it does not.
\<close>

theorem SimpleDecimal_add_sub_exact:
  assumes "dec_ok ty a" "dec_ok ty b"
  shows "(case SimpleDecimal_add ty a b of
      Inr r \<Rightarrow> dec_ok ty r \<and> dec_int r = dec_int a + dec_int b
    | Inl e \<Rightarrow> e = Overflow \<and> \<bar>dec_int a + dec_int b\<bar> \<ge> int (MAX_VALUE ty))
    \<and> (case SimpleDecimal_sub ty a b of
      Inr r \<Rightarrow> dec_ok ty r \<and> dec_int r = dec_int a - dec_int b
    | Inl e \<Rightarrow> e = Overflow \<and> \<bar>dec_int a - dec_int b\<bar> \<ge> int (MAX_VALUE ty))"
  using assms
  by (auto simp: SimpleDecimal_add_def SimpleDecimal_sub_def dec_ok_def dec_int_def)

theorem SimpleDecimal_add_sub_exact_witness:
  "case SimpleDecimal_add \<lparr>Base_bits = 64, TOTAL_RANK = 4, FRACTION_RANK = 2\<rparr>
      \<lparr>negative = True, data = 150\<rparr> \<lparr>negative = False, data = 25\<rparr> of
    Inr r \<Rightarrow> dec_int r = - 125 | Inl e \<Rightarrow> False"
proof -
  let ?ty = "\<lparr>Base_bits = 64, TOTAL_RANK = 4, FRACTION_RANK = 2\<rparr>"
  have "dec_ok ?ty \<lparr>negative = True, data = 150\<rparr>" "dec_ok ?ty \<lparr>negative = False, data = 25\<rparr>"
    by (simp_all add: dec_ok_def MAX_VALUE_def)
  from SimpleDecimal_add_sub_exact [OF this] show ?thesis
    by (auto simp: dec_int_def MAX_VALUE_def split: sum.splits)
qed

text \<open>
  The comparison operators order numbers by their values; the two zeros are equal and neither is
  less than the other.
\<close>

theorem SimpleDecimal_compare_values:
  "(SimpleDecimal_eq a b \<longleftrightarrow> dec_int a = dec_int b) \<and> (SimpleDecimal_ne a b \<longleftrightarrow> dec_int a \<noteq> dec_int b)
   \<and> (SimpleDecimal_lt a b \<longleftrightarrow> dec_int a < dec_int b) \<and> (SimpleDecimal_gt a b \<longleftrightarrow> dec_int a > dec_int b)
   \<and> (SimpleDecimal_le a b \<longleftrightarrow> dec_int a \<le> dec_int b) \<and> (SimpleDecimal_ge a b \<longleftrightarrow> dec_int a \<ge> dec_int b)"
  by (auto simp: SimpleDecimal_eq_def SimpleDecimal_ne_def SimpleDecimal_lt_def SimpleDecimal_gt_def
      SimpleDecimal_le_def SimpleDecimal_ge_def dec_int_def)

text \<open>
  (C9) A product is the exact product rounded down, to nearest (a half upwards) or up in magnitude,
  with the sign of the factors; it raises Overflow exactly when the rounded magnitude does not fit.
\<close>

theorem SimpleDecimal_mul_rounds:
  assumes "dec_type_ok ty" "dec_ok ty a" "dec_ok ty b"
  shows "case SimpleDecimal_mul ty a b dmr of
      Inr r \<Rightarrow> dec_ok ty r \<and> \<bar>dec_int r\<bar> = int (round_quotient dmr (data a * data b) (MAX_FRACTION ty))
        \<and> dec_int r * (dec_int a * dec_int b) \<ge> 0
    | Inl e \<Rightarrow> e = Overflow \<and> round_quotient dmr (data a * data b) (MAX_FRACTION ty) \<ge> MAX_VALUE ty"
  using assms(3) SimpleDecimal_mul_eq [OF assms(1,2), of b dmr]
  by (auto simp: Let_def dec_ok_def dec_int_def)

theorem SimpleDecimal_mul_rounds_witness:
  "case SimpleDecimal_mul money_ty \<lparr>negative = True, data = 150000000\<rparr> \<lparr>negative = False, data = 1\<rparr> DMR_ROUND of
    Inr r \<Rightarrow> \<bar>dec_int r\<bar> = 2 | Inl e \<Rightarrow> False"
proof -
  have "dec_ok money_ty \<lparr>negative = True, data = 150000000\<rparr>" "dec_ok money_ty \<lparr>negative = False, data = 1\<rparr>"
    by (simp_all add: dec_ok_def MAX_VALUE_def)
  from SimpleDecimal_mul_rounds [OF money_ty_ok this, of DMR_ROUND] show ?thesis
    by (auto simp: MAX_VALUE_def MAX_FRACTION_def round_quotient_def split: sum.splits)
qed

text \<open>
  (C10) Division with remainder: it raises Overflow exactly for a zero divisor or a quotient that does
  not fit. Otherwise the quotient is truncated, no inner operation overflows, the remainder and the
  truncated product of quotient and divisor add up to the dividend, the remainder has the sign of the
  dividend, and it is less than a unit of the quotient's last digit times the divisor, plus one unit.
\<close>

theorem SimpleDecimal_divmod_correct:
  assumes "dec_type_ok ty" "dec_ok ty a" "dec_ok ty b"
  shows "case SimpleDecimal_divmod ty a b of
      Inr (q, r) \<Rightarrow> dec_ok ty q \<and> dec_ok ty r
        \<and> data q = data a * MAX_FRACTION ty div data b
        \<and> data a = data q * data b div MAX_FRACTION ty + data r
        \<and> negative r = negative a \<and> data r * MAX_FRACTION ty < data b + MAX_FRACTION ty
    | Inl e \<Rightarrow> e = Overflow \<and> (data b = 0 \<or> data a * MAX_FRACTION ty div data b \<ge> MAX_VALUE ty)"
proof (cases "data b = 0")
  case False
  let ?F = "MAX_FRACTION ty" and ?q = "data a * MAX_FRACTION ty div data b"
  note M = MAX_bounds [OF assms(1)]
  show ?thesis
  proof (cases "?q \<ge> MAX_VALUE ty")
    case True
    then show ?thesis
      by (simp add: SimpleDecimal_divmod_def SimpleDecimal_div_eq [OF assms(1,2) False] Let_def)
  next
    case fits: False
    let ?d = "\<lparr>negative = (negative a \<noteq> negative b), data = ?q\<rparr>" and ?p = "?q * data b div ?F"
    have q: "SimpleDecimal_div_impl ty a b DDR_FLOOR = Inr ?d" "dec_ok ty ?d"
      using fits by (simp_all add: SimpleDecimal_div_eq [OF assms(1,2) False] Let_def dec_ok_def)
    have p: "?p \<le> data a" "(data a - ?p) * ?F < data b + ?F" using divmod_bounds [of "data b" ?F "data a"] False M(4) by simp_all
    have "SimpleDecimal_mul ty ?d b DMR_FLOOR = Inr \<lparr>negative = negative a, data = ?p\<rparr>"
      using p(1) assms(2) unfolding SimpleDecimal_mul_eq [OF assms(1) q(2)]
      by (auto simp: round_quotient_def Let_def dec_ok_def)
    moreover have "SimpleDecimal_sub ty a \<lparr>negative = negative a, data = ?p\<rparr> = Inr \<lparr>negative = negative a, data = data a - ?p\<rparr>"
      using p(1) by (simp add: SimpleDecimal_sub_def)
    ultimately have "SimpleDecimal_divmod ty a b = Inr (?d, \<lparr>negative = negative a, data = data a - ?p\<rparr>)"
      using q(1) by (simp add: SimpleDecimal_divmod_def)
    then show ?thesis using p q(2) assms(2) by (simp add: dec_ok_def dec_int_def)
  qed
qed (simp add: SimpleDecimal_divmod_def SimpleDecimal_div_impl_def)

theorem SimpleDecimal_divmod_correct_witness:
  "case SimpleDecimal_divmod money_ty \<lparr>negative = True, data = 1000000000\<rparr> \<lparr>negative = False, data = 300000000\<rparr> of
    Inr (q, r) \<Rightarrow> data q = 333333333 \<and> data r < 4 | Inl e \<Rightarrow> False"
proof -
  have "dec_ok money_ty \<lparr>negative = True, data = 1000000000\<rparr>" "dec_ok money_ty \<lparr>negative = False, data = 300000000\<rparr>"
    by (simp_all add: dec_ok_def MAX_VALUE_def)
  from SimpleDecimal_divmod_correct [OF money_ty_ok this] show ?thesis
    by (auto simp: MAX_VALUE_def MAX_FRACTION_def split: sum.splits)
qed

text \<open>
  (C11) For a type with at least one integer digit, the printed form of a number fits the buffer that
  is reserved for it, and parsing it gives the number back; of the two zeros it is the positive one.
\<close>

theorem SimpleDecimal_str_roundtrip:
  assumes "dec_type_ok ty" "0 < INTEGER_RANK ty" "dec_ok ty d"
  shows "\<exists>s. SimpleDecimal_str ty d = Some s
    \<and> SimpleDecimal_of_str ty s = Inr (if data d = 0 then \<lparr>negative = False, data = 0\<rparr> else d)"
proof (cases "data d = 0")
  case True
  have "extract_number ty False (show_nat 0 @ (if FRACTION_RANK ty \<noteq> 0 then CHR ''.'' # fraction_text ty 0 else []))
      = \<lparr>failbit = False, eofbit = True, result = Inr (False, 0)\<rparr>"
    using extract_number_text(1) [OF assms(1,2), where n = 0 and neg = False]
      extract_number_text(2) [OF assms(1,2), where n = 0 and f = 0 and neg = False] MAX_bounds [OF assms(1)]
    by simp
  from of_str_text [OF this] True show ?thesis
    using decimal_to_char_length [OF assms]
    by (simp add: SimpleDecimal_str_def decimal_to_char_def show_nat_0 fraction_text_def Let_def split: if_splits)
next
  case False
  let ?n = "data d div MAX_FRACTION ty" and ?f = "data d mod MAX_FRACTION ty"
  note M = MAX_bounds [OF assms(1)]
  have n: "?n < MAX_INTEGER ty" using assms(3) M(6) by (simp add: dec_ok_def less_mult_imp_div_less)
  have "extract_number ty (negative d) (show_nat ?n @ (if FRACTION_RANK ty \<noteq> 0 then CHR ''.'' # fraction_text ty ?f else []))
      = \<lparr>failbit = False, eofbit = True, result = Inr (negative d, data d)\<rparr>"
  proof (cases "FRACTION_RANK ty = 0")
    case True
    then show ?thesis
      using extract_number_text(1) [OF assms(1,2) n, where neg = "negative d"] by (simp add: MAX_FRACTION_def)
  next
    case F: False
    have "?n * MAX_FRACTION ty + ?f = data d" by simp
    with F show ?thesis
      using extract_number_text(2) [OF assms(1,2) n F, where f = ?f and neg = "negative d"] M(4) by simp
  qed
  from of_str_text [OF this] False show ?thesis
    using decimal_to_char_length [OF assms] by (simp add: SimpleDecimal_str_def decimal_to_char_eq Let_def)
qed

theorem SimpleDecimal_str_roundtrip_witness:
  "\<exists>s. SimpleDecimal_str money_ty \<lparr>negative = True, data = 1050000000\<rparr> = Some s
    \<and> SimpleDecimal_of_str money_ty s = Inr \<lparr>negative = True, data = 1050000000\<rparr>"
  using SimpleDecimal_str_roundtrip [OF money_ty_ok, of "\<lparr>negative = True, data = 1050000000\<rparr>"]
  by (simp add: INTEGER_RANK_def dec_ok_def MAX_VALUE_def)

text \<open>
  (C29) For a type without integer digits neither holds: the printed form of a negative number with all
  its digits needs one character more than the buffer has, and the printed form of any nonzero number
  is rejected as too big when it is read.
\<close>

theorem SimpleDecimal_str_no_integer:
  assumes "dec_type_ok ty" "INTEGER_RANK ty = 0" "dec_ok ty d"
  shows "(negative d \<and> data d mod 10 \<noteq> 0 \<longrightarrow> SimpleDecimal_str ty d = None)
    \<and> SimpleDecimal_of_str ty (decimal_to_char ty d) = Inl Overflow"
proof
  have F: "FRACTION_RANK ty = TOTAL_RANK ty" "FRACTION_RANK ty \<noteq> 0" "data d < MAX_FRACTION ty"
    using assms MAX_bounds(6) [OF assms(1)] by (auto simp: dec_type_ok_def INTEGER_RANK_def dec_ok_def MAX_INTEGER_def)
  show "negative d \<and> data d mod 10 \<noteq> 0 \<longrightarrow> SimpleDecimal_str ty d = None"
  proof
    assume d: "negative d \<and> data d mod 10 \<noteq> 0"
    obtain ds where ds: "fraction_text ty (data d) = ds" "length ds \<le> FRACTION_RANK ty"
      "digits_val ds * 10 ^ (FRACTION_RANK ty - length ds) = data d"
      using fraction_text_spec [OF F(3,2)] by blast
    have "FRACTION_RANK ty - length ds = 0"
    proof (rule ccontr)
      assume "FRACTION_RANK ty - length ds \<noteq> 0"
      then obtain k where "FRACTION_RANK ty - length ds = Suc k" by (meson not0_implies_Suc)
      with ds(3) have "data d = digits_val ds * 10 ^ k * 10" by simp
      with d show False by simp
    qed
    then have "length ds = TOTAL_RANK ty" using ds(2) F(1) by simp
    moreover have "data d \<noteq> 0" using d by (auto intro: Nat.gr0I)
    ultimately show "SimpleDecimal_str ty d = None"
      using d F ds(1) by (auto simp: SimpleDecimal_str_def decimal_to_char_eq show_nat_0)
  qed
  have fail: "failbit (extract_number ty neg (CHR ''0'' # s))" for neg s
    using assms(2) by (simp add: extract_number_def MAX_INTEGER_def is_digit_def extract_fail_def)
  have zero: "is_digit CHR ''0''" by (simp add: is_digit_def)
  have "\<exists>neg s. decimal_to_char ty d = (if neg then ''-'' else []) @ CHR ''0'' # s"
  proof (cases "data d = 0")
    case True
    then show ?thesis by (intro exI [of _ False]) (simp add: decimal_to_char_def)
  next
    case False
    then show ?thesis using F(3) by (intro exI [of _ "negative d"]) (simp add: decimal_to_char_eq show_nat_0)
  qed
  then obtain neg s where s: "decimal_to_char ty d = (if neg then ''-'' else []) @ CHR ''0'' # s" by blast
  show "SimpleDecimal_of_str ty (decimal_to_char ty d) = Inl Overflow"
    unfolding s using fail [of neg s] zero by (cases neg) (simp_all add: SimpleDecimal_of_str_def extract_decimal_def Let_def)
qed

theorem SimpleDecimal_str_no_integer_witness:
  "SimpleDecimal_str \<lparr>Base_bits = 64, TOTAL_RANK = 3, FRACTION_RANK = 3\<rparr> \<lparr>negative = True, data = 125\<rparr> = None"
  using SimpleDecimal_str_no_integer [of "\<lparr>Base_bits = 64, TOTAL_RANK = 3, FRACTION_RANK = 3\<rparr>" "\<lparr>negative = True, data = 125\<rparr>"]
  by (simp add: INTEGER_RANK_def dec_ok_def MAX_VALUE_def dec_type_ok_def digits10_def show_nat.simps)

text \<open>
  A number made from an integer scaled by a power of ten is the integer's magnitude divided by
  that power and truncated to the fraction digits, with its sign; Overflow is raised exactly when that
  does not fit. A power that shifts every digit out is handled before: it gives zero.
\<close>

theorem SimpleDecimal_of_integer_truncates:
  assumes "dec_type_ok ty" "- numeric_max ity \<le> integer" "is_signed ity \<or> 0 \<le> integer"
    "pw < digits10 ity + FRACTION_RANK ty"
  shows "case SimpleDecimal_of_integer ty ity integer pw of
      Inr d \<Rightarrow> dec_ok ty d \<and> dec_int d = sgn integer * (\<bar>integer\<bar> * 10 ^ FRACTION_RANK ty div 10 ^ pw)
    | Inl e \<Rightarrow> e = Overflow \<and> \<bar>integer\<bar> * 10 ^ FRACTION_RANK ty div 10 ^ pw \<ge> int (MAX_VALUE ty)"
proof (cases "integer = 0")
  case True
  then show ?thesis by (simp add: SimpleDecimal_of_integer_def dec_ok_def dec_int_def MAX_VALUE_def)
next
  case False
  have q: "int (nat \<bar>integer\<bar> * MAX_FRACTION ty div 10 ^ pw) = \<bar>integer\<bar> * 10 ^ FRACTION_RANK ty div 10 ^ pw"
    by (simp add: MAX_FRACTION_def zdiv_int)
  show ?thesis
    using SimpleDecimal_of_integer_eq [OF assms(1,4) False assms(2,3)] q False
    by (auto simp: Let_def dec_ok_def dec_int_def sgn_if not_le)
qed

theorem SimpleDecimal_of_integer_truncates_witness:
  "case SimpleDecimal_of_integer money_ty \<lparr>is_signed = True, value_bits = 63\<rparr> (- 123456) 3 of
     Inr d \<Rightarrow> dec_int d = - 12345600000 | Inl e \<Rightarrow> False"
  using SimpleDecimal_of_integer_truncates [OF money_ty_ok, of "\<lparr>is_signed = True, value_bits = 63\<rparr>" "- 123456" 3]
  by (auto simp: numeric_max_def MAX_VALUE_def split: sum.splits)

text \<open>
  Numbers of a type whose size is a whole number of bytes survive packing, so different numbers
  have different packed forms; the packed form is one byte longer than the base type.
\<close>

theorem SimpleDecimal_pack_injective:
  assumes "dec_type_ok ty" "8 dvd Base_bits ty" "dec_ok ty a" "dec_ok ty b"
  shows "SimpleDecimal_unpack ty (SimpleDecimal_pack ty a) = a
    \<and> (SimpleDecimal_pack ty a = SimpleDecimal_pack ty b \<longleftrightarrow> a = b)
    \<and> length (SimpleDecimal_pack ty a) = Base_bits ty div 8 + 1"
proof -
  have "(256 :: nat) ^ (Base_bits ty div 8) = (2 ^ 8) ^ (Base_bits ty div 8)" by simp
  also have "\<dots> = 2 ^ Base_bits ty" using assms(2) by (simp only: power_mult [symmetric] dvd_mult_div_cancel)
  finally have "data a < 256 ^ (Base_bits ty div 8)" "data b < 256 ^ (Base_bits ty div 8)"
    using MAX_bounds(1) [OF assms(1)] assms(3,4) by (simp_all add: dec_ok_def)
  then show ?thesis
    using dec_pack.enc_eq_iff [where ty = ty] SimpleDecimal_unpack_pack by (simp add: SimpleDecimal_pack_def)
qed

theorem SimpleDecimal_pack_injective_witness:
  "SimpleDecimal_unpack money_ty (SimpleDecimal_pack money_ty \<lparr>negative = True, data = 77\<rparr>) = \<lparr>negative = True, data = 77\<rparr>"
  using SimpleDecimal_pack_injective [OF money_ty_ok, of "\<lparr>negative = True, data = 77\<rparr>" "\<lparr>negative = True, data = 77\<rparr>"]
  by (simp add: dec_ok_def MAX_VALUE_def)

end
