(* ===== verification/Bounded_Map.thy ===== *)
theory Bounded_Map
  imports Time_Arith "HOL-Library.AList"
begin

text \<open>
  \<^verbatim>\<open>Generics::BoundedMap\<close> (src/src/Generics/BoundedMap.hpp): a map of limited capacity that makes room by
  removing entries that were not used for longer than a timeout, least recently used first.

  The hash table is an association list; \<^verbatim>\<open>Item::order\<close>, an iterator into the queue, is represented by
  the key of the queue element it points to (keys occur once in the queue). Each operation holds the
  mutex from its first access of the state to its end, so it is one transition of the state; the
  clock reading and the size policy are arguments. \<^verbatim>\<open>size_t\<close> wraps at 64 bits. The result \<open>None\<close> is a
  failed assertion.
\<close>



section \<open>State\<close>

record BoundedMapStat =
  inserted_new :: int
  insert_existing :: int
  removed_outdated :: int
  removed_updated :: int
  not_inserted :: int
  replaced :: int

definition BoundedMapStat_new :: BoundedMapStat where
  "BoundedMapStat_new = \<lparr>inserted_new = 0, insert_existing = 0, removed_outdated = 0,
     removed_updated = 0, not_inserted = 0, replaced = 0\<rparr>"

record 'k Ordered =
  ord_key :: 'k
  last_used :: timeval

record 'd Item =
  item_data :: 'd
  item_size :: nat

record ('k, 'd) BoundedMap =
  bm_bound :: nat
  bm_timeout :: timeval
  bm_container :: "('k \<times> 'd Item) list"
  bm_queue :: "'k Ordered list"
  bm_size :: nat
  bm_stat :: BoundedMapStat

definition DefaultSizePolicy :: "'k \<Rightarrow> 'd \<Rightarrow> nat" where
  "DefaultSizePolicy _ _ = 1"

definition BoundedMap_new :: "nat \<Rightarrow> timeval \<Rightarrow> ('k, 'd) BoundedMap" where
  "BoundedMap_new bnd tmo = \<lparr>bm_bound = bnd, bm_timeout = tmo, bm_container = [], bm_queue = [],
     bm_size = 0, bm_stat = BoundedMapStat_new\<rparr>"

definition add64 :: "nat \<Rightarrow> nat \<Rightarrow> nat" where
  "add64 a b = (a + b) mod 2 ^ 64"

definition sub64 :: "nat \<Rightarrow> nat \<Rightarrow> nat" where
  "sub64 a b = (a + 2 ^ 64 - b) mod 2 ^ 64"

text \<open>Removal of the queue element that an iterator points to.\<close>

definition queue_erase :: "'k \<Rightarrow> 'k Ordered list \<Rightarrow> 'k Ordered list" where
  "queue_erase k q = filter (\<lambda>ord. ord_key ord \<noteq> k) q"

definition fresh :: "('k, 'd) BoundedMap \<Rightarrow> timeval \<Rightarrow> 'k Ordered \<Rightarrow> bool" where
  "fresh m now ord = Time_gt (Time_add (last_used ord) (bm_timeout m)) now"

section \<open>Operations\<close>

text \<open>Splicing moves the element to the end of the queue.\<close>

definition BoundedMap_find_impl :: "'k \<Rightarrow> timeval \<Rightarrow> ('k, 'd) BoundedMap \<Rightarrow> 'd Item option \<times> ('k, 'd) BoundedMap" where
  "BoundedMap_find_impl k now m =
     (case map_of (bm_container m) k of
        None \<Rightarrow> (None, m)
      | Some item \<Rightarrow>
          (Some item, m\<lparr>bm_queue := queue_erase k (bm_queue m) @ [\<lparr>ord_key = k, last_used = now\<rparr>]\<rparr>))"

definition BoundedMap_find :: "'k \<Rightarrow> timeval \<Rightarrow> ('k, 'd) BoundedMap \<Rightarrow> ('k \<times> 'd) option \<times> ('k, 'd) BoundedMap" where
  "BoundedMap_find k now m =
     (case BoundedMap_find_impl k now m of (itor, m) \<Rightarrow> (map_option (\<lambda>item. (k, item_data item)) itor, m))"

definition stat_upd :: "(BoundedMapStat \<Rightarrow> BoundedMapStat) \<Rightarrow> ('k, 'd) BoundedMap \<Rightarrow> ('k, 'd) BoundedMap" where
  "stat_upd f m = m\<lparr>bm_stat := f (bm_stat m)\<rparr>"

text \<open>The loop that makes room removes the front of the queue; whether \<open>sz\<close> fits at the end, and the state.\<close>

definition drop_front :: "'k Ordered \<Rightarrow> 'k Ordered list \<Rightarrow> 'd Item \<Rightarrow> ('k, 'd) BoundedMap \<Rightarrow> ('k, 'd) BoundedMap" where
  "drop_front ord queue item m =
     (stat_upd (removed_outdated_update (\<lambda>n. n + 1)) m)
       \<lparr>bm_size := sub64 (bm_size m) (item_size item),
        bm_container := AList.delete (ord_key ord) (bm_container m),
        bm_queue := queue\<rparr>"

function BoundedMap_evict :: "nat \<Rightarrow> timeval \<Rightarrow> ('k, 'd) BoundedMap \<Rightarrow> (bool \<times> ('k, 'd) BoundedMap) option" where
  "BoundedMap_evict sz now m =
     (if add64 (bm_size m) sz > bm_bound m then
        (case bm_queue m of
           [] \<Rightarrow> Some (False, stat_upd (not_inserted_update (\<lambda>n. n + 1)) m)
         | ord # queue \<Rightarrow>
             if fresh m now ord then Some (False, stat_upd (not_inserted_update (\<lambda>n. n + 1)) m)
             else case map_of (bm_container m) (ord_key ord) of
                    None \<Rightarrow> None
                  | Some item \<Rightarrow>
                      BoundedMap_evict sz now (drop_front ord queue item m))
      else Some (True, m))"
  by pat_completeness auto

termination BoundedMap_evict
  by (relation "measure (\<lambda>(_, _, m). length (bm_queue m))") (simp_all add: drop_front_def)

declare BoundedMap_evict.simps [simp del]

text \<open>
  Inserting a key that is not present. \<open>throws\<close> says that storing the item raises an exception; the
  queue entry is then taken back. The result is an exception, or the iterator and the flag.
\<close>

datatype ('k, 'd) insert_result = Raised | Inserted "('k \<times> 'd) option" bool

definition BoundedMap_insert_impl ::
    "('k \<Rightarrow> 'd \<Rightarrow> nat) \<Rightarrow> bool \<Rightarrow> 'k \<Rightarrow> 'd \<Rightarrow> timeval \<Rightarrow> ('k, 'd) BoundedMap
     \<Rightarrow> (('k, 'd) insert_result \<times> ('k, 'd) BoundedMap) option" where
  "BoundedMap_insert_impl size_policy throws k d now m =
     (let sz = size_policy k d
      in if sz > bm_bound m then Some (Inserted None False, stat_upd (not_inserted_update (\<lambda>n. n + 1)) m)
         else case BoundedMap_evict sz now m of
                None \<Rightarrow> None
              | Some (False, m) \<Rightarrow> Some (Inserted None False, m)
              | Some (True, m) \<Rightarrow>
                  if throws then Some (Raised, m)
                  else if map_of (bm_container m) k \<noteq> None then None
                  else Some (Inserted (Some (k, d)) True,
                         (stat_upd (inserted_new_update (\<lambda>n. n + 1)) m)
                           \<lparr>bm_queue := bm_queue m @ [\<lparr>ord_key = k, last_used = now\<rparr>],
                            bm_container := AList.update k \<lparr>item_data = d, item_size = sz\<rparr> (bm_container m),
                            bm_size := add64 (bm_size m) sz\<rparr>))"

definition BoundedMap_insert ::
    "('k \<Rightarrow> 'd \<Rightarrow> nat) \<Rightarrow> bool \<Rightarrow> 'k \<Rightarrow> 'd \<Rightarrow> timeval \<Rightarrow> ('k, 'd) BoundedMap
     \<Rightarrow> (('k, 'd) insert_result \<times> ('k, 'd) BoundedMap) option" where
  "BoundedMap_insert size_policy throws k d now m =
     (case BoundedMap_find_impl k now m of
        (Some item, m) \<Rightarrow>
          Some (Inserted (Some (k, item_data item)) False, stat_upd (insert_existing_update (\<lambda>n. n + 1)) m)
      | (None, m) \<Rightarrow> BoundedMap_insert_impl size_policy throws k d now m)"

text \<open>
  The first loop of \<^verbatim>\<open>update_\<close>: how many elements of the queue have to go (the updated entry is passed
  over) and the size that remains, or that the room cannot be made (\<open>Some None\<close>).
\<close>

fun update_scan ::
    "('k, 'd) BoundedMap \<Rightarrow> timeval \<Rightarrow> 'k \<Rightarrow> nat \<Rightarrow> 'k Ordered list \<Rightarrow> (nat \<times> nat) option option" where
  "update_scan m now k new_size queue =
     (if new_size > bm_bound m then
        (case queue of
           [] \<Rightarrow> Some None
         | ord # queue \<Rightarrow>
             if fresh m now ord then Some None
             else if ord_key ord \<noteq> k then
               (case map_of (bm_container m) (ord_key ord) of
                  None \<Rightarrow> None
                | Some item \<Rightarrow>
                    map_option (map_option (\<lambda>(n, s). (Suc n, s)))
                      (update_scan m now k (sub64 new_size (item_size item)) queue))
             else map_option (map_option (\<lambda>(n, s). (Suc n, s))) (update_scan m now k new_size queue))
      else Some (Some (0, new_size)))"

declare update_scan.simps [simp del]

text \<open>The second loop: removes the elements before the position, but for the updated entry.\<close>

fun update_remove :: "'k \<Rightarrow> 'k Ordered list \<Rightarrow> ('k, 'd) BoundedMap \<Rightarrow> ('k, 'd) BoundedMap" where
  "update_remove k [] m = m"
| "update_remove k (ord # before) m =
     (if ord_key ord \<noteq> k then
        update_remove k before
          ((stat_upd (removed_outdated_update (\<lambda>n. n + 1)) m)
             \<lparr>bm_container := AList.delete (ord_key ord) (bm_container m),
              bm_queue := queue_erase (ord_key ord) (bm_queue m)\<rparr>)
      else update_remove k before m)"

text \<open>The entry does not fit any more and is removed.\<close>

definition update_drop :: "'k \<Rightarrow> 'd Item \<Rightarrow> ('k, 'd) BoundedMap \<Rightarrow> ('k, 'd) BoundedMap" where
  "update_drop k item m =
     (stat_upd (removed_updated_update (\<lambda>n. n + 1)) m)
       \<lparr>bm_size := sub64 (bm_size m) (item_size item),
        bm_queue := queue_erase k (bm_queue m),
        bm_container := AList.delete k (bm_container m)\<rparr>"

definition BoundedMap_update_impl ::
    "('k \<Rightarrow> 'd \<Rightarrow> nat) \<Rightarrow> 'k \<Rightarrow> 'd Item \<Rightarrow> timeval \<Rightarrow> ('k, 'd) BoundedMap \<Rightarrow> (bool \<times> ('k, 'd) BoundedMap) option" where
  "BoundedMap_update_impl size_policy k item now m =
     (let sz = size_policy k (item_data item);
          new_size = sub64 (add64 (bm_size m) sz) (item_size item);
          resized = item\<lparr>item_size := sz\<rparr>
      in if new_size \<le> bm_bound m then
           Some (True, m\<lparr>bm_container := AList.update k resized (bm_container m), bm_size := new_size\<rparr>)
         else if sz > bm_bound m then Some (False, update_drop k item m)
         else case update_scan m now k new_size (bm_queue m) of
                None \<Rightarrow> None
              | Some None \<Rightarrow> Some (False, update_drop k item m)
              | Some (Some (n, new_size)) \<Rightarrow>
                  let m = update_remove k (take n (bm_queue m)) m
                  in Some (True, m\<lparr>bm_container := AList.update k resized (bm_container m), bm_size := new_size\<rparr>))"

definition BoundedMap_insert_or_update ::
    "('k \<Rightarrow> 'd \<Rightarrow> nat) \<Rightarrow> bool \<Rightarrow> 'k \<Rightarrow> 'd \<Rightarrow> timeval \<Rightarrow> ('k, 'd) BoundedMap \<Rightarrow> (bool \<times> ('k, 'd) BoundedMap) option" where
  "BoundedMap_insert_or_update size_policy throws k d now m =
     (case BoundedMap_find_impl k now m of
        (Some item, m) \<Rightarrow>
          let item = item\<lparr>item_data := d\<rparr>;
              m = m\<lparr>bm_container := AList.update k item (bm_container m)\<rparr>
          in map_option (\<lambda>(ok, m). (False, if ok then stat_upd (replaced_update (\<lambda>n. n + 1)) m else m))
               (BoundedMap_update_impl size_policy k item now m)
      | (None, m) \<Rightarrow>
          map_option (\<lambda>(res, m). (res = Raised, m)) (BoundedMap_insert_impl size_policy throws k d now m))"

definition BoundedMap_update ::
    "('k \<Rightarrow> 'd \<Rightarrow> nat) \<Rightarrow> 'k \<Rightarrow> timeval \<Rightarrow> ('k, 'd) BoundedMap \<Rightarrow> ('k, 'd) BoundedMap option" where
  "BoundedMap_update size_policy k now m =
     (case map_of (bm_container m) k of
        None \<Rightarrow> Some m
      | Some item \<Rightarrow> map_option snd (BoundedMap_update_impl size_policy k item now m))"

definition BoundedMap_erase :: "'k \<Rightarrow> ('k, 'd) BoundedMap \<Rightarrow> ('k, 'd) BoundedMap" where
  "BoundedMap_erase k m =
     (case map_of (bm_container m) k of
        None \<Rightarrow> m
      | Some item \<Rightarrow>
          m\<lparr>bm_size := sub64 (bm_size m) (item_size item),
            bm_container := AList.delete k (bm_container m),
            bm_queue := queue_erase k (bm_queue m)\<rparr>)"

definition BoundedMap_clear :: "('k, 'd) BoundedMap \<Rightarrow> ('k, 'd) BoundedMap" where
  "BoundedMap_clear m = m\<lparr>bm_size := 0, bm_container := [], bm_queue := []\<rparr>"

definition BoundedMap_copy_to :: "('k, 'd) BoundedMap \<Rightarrow> ('k \<times> 'd) list" where
  "BoundedMap_copy_to m = map (\<lambda>(k, item). (k, item_data item)) (bm_container m)"

definition BoundedMap_size :: "('k, 'd) BoundedMap \<Rightarrow> nat" where
  "BoundedMap_size m = length (bm_container m)"

definition BoundedMap_statistics :: "bool \<Rightarrow> ('k, 'd) BoundedMap \<Rightarrow> BoundedMapStat \<times> ('k, 'd) BoundedMap" where
  "BoundedMap_statistics reset m = (bm_stat m, if reset then m\<lparr>bm_stat := BoundedMapStat_new\<rparr> else m)"

definition BoundedMap_set_bound :: "nat \<Rightarrow> ('k, 'd) BoundedMap \<Rightarrow> ('k, 'd) BoundedMap" where
  "BoundedMap_set_bound new_bound m = m\<lparr>bm_bound := new_bound\<rparr>"

definition BoundedMap_set_timeout :: "timeval \<Rightarrow> ('k, 'd) BoundedMap \<Rightarrow> ('k, 'd) BoundedMap" where
  "BoundedMap_set_timeout new_timeout m = m\<lparr>bm_timeout := new_timeout\<rparr>"

section \<open>Queue and container\<close>

definition total_size :: "('k \<times> 'd Item) list \<Rightarrow> nat" where
  "total_size c = (\<Sum>(k, item)\<leftarrow>c. item_size item)"

definition linked :: "'k Ordered list \<Rightarrow> ('k \<times> 'd Item) list \<Rightarrow> bool" where
  "linked q c \<longleftrightarrow> distinct (map ord_key q) \<and> distinct (map fst c) \<and> ord_key ` set q = fst ` set c"

lemma total_size_simps [simp]:
  "total_size [] = 0"
  "total_size ((k, item) # c) = item_size item + total_size c"
  by (simp_all add: total_size_def)

lemma total_size_delete:
  assumes "distinct (map fst c)" and "map_of c k = Some item"
  shows "total_size c = item_size item + total_size (AList.delete k c)"
  using assms
proof (induction c)
  case (Cons kv c)
  show ?case
  proof (cases "fst kv = k")
    case True
    then have "AList.delete k c = c" using Cons.prems by (auto simp: AList.delete_id dom_map_of_conv_image_fst)
    then show ?thesis using True Cons.prems by (cases kv) auto
  next
    case False
    then show ?thesis using Cons by (cases kv) auto
  qed
qed simp

lemma total_size_update:
  assumes "distinct (map fst c)"
  shows "total_size (AList.update k item c) = total_size (AList.delete k c) + item_size item"
  using assms
proof (induction c)
  case (Cons kv c)
  show ?case
  proof (cases "fst kv = k")
    case True
    then have "AList.delete k c = c" using Cons.prems by (auto simp: AList.delete_id dom_map_of_conv_image_fst)
    then show ?thesis using True by (cases kv) auto
  next
    case False
    then show ?thesis using Cons by (cases kv) auto
  qed
qed simp

lemma linked_keys: "linked q c \<Longrightarrow> ord \<in> set q \<Longrightarrow> \<exists>item. map_of c (ord_key ord) = Some item"
  unfolding linked_def by (metis image_eqI map_of_eq_None_iff not_None_eq)

lemma queue_erase_simps [simp]:
  "queue_erase k [] = []"
  "set (queue_erase k q) = {ord \<in> set q. ord_key ord \<noteq> k}"
  "queue_erase k (ord # q) = (if ord_key ord = k then queue_erase k q else ord # queue_erase k q)"
  by (auto simp: queue_erase_def)

lemma queue_erase_distinct [simp]: "distinct (map ord_key q) \<Longrightarrow> distinct (map ord_key (queue_erase k q))"
  by (simp add: queue_erase_def distinct_map_filter)

lemma fst_set_delete [simp]: "fst ` set (AList.delete k c) = fst ` set c - {k}"
  by (auto simp: AList.delete_eq image_iff)

lemma queue_erase_keys: "ord_key ` set (queue_erase k q) = ord_key ` set q - {k}"
  by auto

lemma linked_touch:
  "linked q c \<Longrightarrow> map_of c k \<noteq> None \<Longrightarrow> linked (queue_erase k q @ [\<lparr>ord_key = k, last_used = now\<rparr>]) c"
  unfolding linked_def by (auto simp: map_of_eq_None_iff queue_erase_keys simp del: queue_erase_simps)

lemma linked_delete: "linked q c \<Longrightarrow> linked (queue_erase k q) (AList.delete k c)"
  unfolding linked_def by (simp add: AList.distinct_delete queue_erase_keys del: queue_erase_simps)

lemma linked_pop: "linked (ord # q) c \<Longrightarrow> linked q (AList.delete (ord_key ord) c)"
  unfolding linked_def by (simp add: AList.distinct_delete) (metis Diff_insert_absorb)

lemma linked_push:
  "linked q c \<Longrightarrow> map_of c k = None \<Longrightarrow>
   linked (q @ [\<lparr>ord_key = k, last_used = now\<rparr>]) (AList.update k item c)"
  by (auto simp: linked_def map_of_eq_None_iff AList.distinct_update AList.update_keys dom_update)

lemma linked_update: "linked q c \<Longrightarrow> map_of c k \<noteq> None \<Longrightarrow> linked q (AList.update k item c)"
  by (auto simp: linked_def map_of_eq_None_iff AList.distinct_update dom_update)

lemmas linked_intros = linked_touch linked_delete linked_pop linked_push linked_update

lemma sub64_exact: "b \<le> a \<Longrightarrow> a < 2 ^ 64 \<Longrightarrow> sub64 a b = a - b"
proof -
  assume "b \<le> a" and "a < 2 ^ 64"
  then have "a + 2 ^ 64 - b = (a - b) + 2 ^ 64" and "a - b < 2 ^ 64" by simp_all
  then show ?thesis unfolding sub64_def by (simp only: mod_add_self2 mod_less)
qed

lemma add64_exact: "a + b < 2 ^ 64 \<Longrightarrow> add64 a b = a + b"
  by (simp add: add64_def)

section \<open>The invariant\<close>

text \<open>\<open>cap\<close> is an upper bound of the capacities the map has had.\<close>

definition BoundedMap_ok :: "nat \<Rightarrow> ('k, 'd) BoundedMap \<Rightarrow> bool" where
  "BoundedMap_ok cap m \<longleftrightarrow>
     linked (bm_queue m) (bm_container m) \<and> bm_size m = total_size (bm_container m) \<and>
     bm_size m \<le> cap \<and> bm_bound m \<le> cap"

text \<open>The state after the \<open>n\<close> least recently used entries were removed.\<close>

definition drop_oldest :: "nat \<Rightarrow> ('k, 'd) BoundedMap \<Rightarrow> ('k, 'd) BoundedMap" where
  "drop_oldest n m =
     (let c = filter (\<lambda>(k, _). k \<notin> ord_key ` set (take n (bm_queue m))) (bm_container m)
      in (stat_upd (removed_outdated_update (\<lambda>r. r + int n)) m)
           \<lparr>bm_queue := drop n (bm_queue m), bm_container := c, bm_size := total_size c\<rparr>)"

lemma BoundedMap_ok_stat [simp]: "BoundedMap_ok cap (stat_upd f m) = BoundedMap_ok cap m"
  by (simp add: BoundedMap_ok_def stat_upd_def)

lemma stat_upd_fields [simp]:
  "bm_bound (stat_upd f m) = bm_bound m" "bm_timeout (stat_upd f m) = bm_timeout m"
  "bm_container (stat_upd f m) = bm_container m" "bm_queue (stat_upd f m) = bm_queue m"
  "bm_size (stat_upd f m) = bm_size m" "bm_stat (stat_upd f m) = f (bm_stat m)"
  by (simp_all add: stat_upd_def)

lemma drop_oldest_fields [simp]:
  "bm_bound (drop_oldest n m) = bm_bound m" "bm_timeout (drop_oldest n m) = bm_timeout m"
  "bm_queue (drop_oldest n m) = drop n (bm_queue m)"
  by (simp_all add: drop_oldest_def Let_def)

lemma drop_oldest_0: "BoundedMap_ok cap m \<Longrightarrow> drop_oldest 0 m = m"
  by (simp add: drop_oldest_def BoundedMap_ok_def stat_upd_def)

lemma drop_front_ok:
  assumes ok: "BoundedMap_ok cap m" and cap: "cap < 2 ^ 63"
    and q: "bm_queue m = ord # queue" and item: "map_of (bm_container m) (ord_key ord) = Some item"
  shows "BoundedMap_ok cap (drop_front ord queue item m)"
    and "bm_size (drop_front ord queue item m) = bm_size m - item_size item"
proof -
  have lk: "linked (ord # queue) (bm_container m)" and sz: "bm_size m = total_size (bm_container m)"
    using ok q by (simp_all add: BoundedMap_ok_def)
  have tot: "total_size (bm_container m)
      = item_size item + total_size (AList.delete (ord_key ord) (bm_container m))"
    using lk item by (intro total_size_delete) (simp_all add: linked_def)
  have sub: "sub64 (bm_size m) (item_size item) = bm_size m - item_size item"
    using ok cap sz tot by (intro sub64_exact) (simp_all add: BoundedMap_ok_def)
  show "bm_size (drop_front ord queue item m) = bm_size m - item_size item"
    by (simp add: drop_front_def sub)
  show "BoundedMap_ok cap (drop_front ord queue item m)"
    unfolding BoundedMap_ok_def using ok linked_pop [OF lk] tot sub
    by (simp add: BoundedMap_ok_def drop_front_def)
qed

lemma drop_oldest_Suc:
  assumes ok: "BoundedMap_ok cap m" and q: "bm_queue m = ord # queue"
  shows "drop_oldest n (drop_front ord queue item m) = drop_oldest (Suc n) m"
proof -
  have "filter (\<lambda>(k, _). k \<notin> ord_key ` set (take n queue)) (AList.delete (ord_key ord) (bm_container m))
      = filter (\<lambda>(k, _). k \<notin> ord_key ` set (take (Suc n) (ord # queue))) (bm_container m)"
    by (auto simp: AList.delete_eq intro!: filter_cong)
  then show ?thesis
    by (simp add: drop_oldest_def drop_front_def q stat_upd_def Let_def)
qed

lemma drop_front_fields [simp]:
  "bm_queue (drop_front ord q item m) = q" "bm_bound (drop_front ord q item m) = bm_bound m"
  "fresh (drop_front ord q item m) = fresh m"
  by (auto simp: drop_front_def fresh_def fun_eq_iff)

lemma drop_oldest_ok: "BoundedMap_ok cap m \<Longrightarrow> cap < 2 ^ 63 \<Longrightarrow> n \<le> length (bm_queue m) \<Longrightarrow> BoundedMap_ok cap (drop_oldest n m)"
proof (induction n arbitrary: m)
  case 0
  then show ?case by (simp add: drop_oldest_0)
next
  case (Suc n)
  then obtain ord q where q: "bm_queue m = ord # q" by (cases "bm_queue m") auto
  obtain item where item: "map_of (bm_container m) (ord_key ord) = Some item"
    using linked_keys [of "bm_queue m" "bm_container m" ord] Suc.prems(1) q by (auto simp: BoundedMap_ok_def)
  show ?case
    using Suc.IH [OF drop_front_ok(1) [OF Suc.prems(1,2) q item]] Suc.prems q
    by (simp add: drop_oldest_Suc [OF Suc.prems(1) q])
qed

text \<open>
  Room is made by removing the shortest prefix of the queue that is enough, as far as its entries
  are expired.
\<close>

definition evicted :: "nat \<Rightarrow> timeval \<Rightarrow> ('k, 'd) BoundedMap \<Rightarrow> nat \<Rightarrow> bool" where
  "evicted sz now m n \<longleftrightarrow> n \<le> length (bm_queue m) \<and>
     (\<forall>i<n. \<not> fresh m now (bm_queue m ! i) \<and> bm_size (drop_oldest i m) + sz > bm_bound m)"

definition evict_result :: "nat \<Rightarrow> timeval \<Rightarrow> ('k, 'd) BoundedMap \<Rightarrow> nat \<Rightarrow> bool \<Rightarrow> bool" where
  "evict_result sz now m n ok \<longleftrightarrow> evicted sz now m n \<and>
     (ok \<longleftrightarrow> bm_size (drop_oldest n m) + sz \<le> bm_bound m) \<and>
     (\<not> ok \<longrightarrow> n < length (bm_queue m) \<and> fresh m now (bm_queue m ! n))"

lemma evict_result_Suc:
  assumes ok: "BoundedMap_ok cap m" and q: "bm_queue m = ord # queue"
    and nf: "\<not> fresh m now ord" and big: "bm_size m + sz > bm_bound m"
    and res: "evict_result sz now (drop_front ord queue item m) n r"
  shows "evict_result sz now m (Suc n) r"
proof -
  have "\<not> fresh m now (bm_queue m ! i) \<and> bm_size (drop_oldest i m) + sz > bm_bound m" if "i < Suc n" for i
  proof (cases i)
    case 0
    then show ?thesis using nf big q drop_oldest_0 [OF ok] by simp
  next
    case (Suc j)
    then show ?thesis using that res q
      by (auto simp: evict_result_def evicted_def drop_oldest_Suc [OF ok q])
  qed
  then show ?thesis
    using res q drop_oldest_Suc [OF ok q, of n item] by (simp add: evict_result_def evicted_def)
qed

lemma BoundedMap_evict_spec:
  assumes "BoundedMap_ok cap m" and "cap < 2 ^ 63" and "sz \<le> bm_bound m"
  shows "\<exists>n r. evict_result sz now m n r \<and>
    BoundedMap_evict sz now m =
      Some (r, if r then drop_oldest n m else stat_upd (not_inserted_update (\<lambda>n. n + 1)) (drop_oldest n m))"
  using assms
proof (induction "bm_queue m" arbitrary: m)
  case Nil
  then have "bm_size m = 0" by (auto simp: BoundedMap_ok_def linked_def)
  moreover have "bm_size m + sz < 2 ^ 64" using Nil by (simp add: BoundedMap_ok_def)
  ultimately show ?case using Nil
    by (intro exI [of _ 0] exI [of _ True])
      (auto simp: BoundedMap_evict.simps add64_exact evict_result_def evicted_def drop_oldest_0)
next
  case (Cons ord queue)
  note q = Cons.hyps(2) [symmetric]
  have add: "add64 (bm_size m) sz = bm_size m + sz"
    using Cons.prems by (intro add64_exact) (simp add: BoundedMap_ok_def)
  obtain item where item: "map_of (bm_container m) (ord_key ord) = Some item"
    using linked_keys [of "bm_queue m" "bm_container m" ord] Cons.prems(1) q by (auto simp: BoundedMap_ok_def)
  consider "bm_size m + sz \<le> bm_bound m" | "bm_size m + sz > bm_bound m" "fresh m now ord"
    | "bm_size m + sz > bm_bound m" "\<not> fresh m now ord" by linarith
  then show ?case
  proof cases
    case 1
    then show ?thesis using Cons.prems(1) add
      by (intro exI [of _ 0] exI [of _ True])
        (simp add: BoundedMap_evict.simps evict_result_def evicted_def drop_oldest_0)
  next
    case 2
    then show ?thesis using Cons.prems(1) add q
      by (intro exI [of _ 0] exI [of _ False])
        (simp add: BoundedMap_evict.simps evict_result_def evicted_def drop_oldest_0)
  next
    case 3
    obtain n r where "evict_result sz now (drop_front ord queue item m) n r"
      and ev: "BoundedMap_evict sz now (drop_front ord queue item m) = Some (r,
        if r then drop_oldest n (drop_front ord queue item m)
        else stat_upd (not_inserted_update (\<lambda>n. n + 1)) (drop_oldest n (drop_front ord queue item m)))"
      using Cons.hyps(1) [of "drop_front ord queue item m"] drop_front_ok(1) [OF Cons.prems(1,2) q item]
        Cons.prems by auto
    then have "evict_result sz now m (Suc n) r"
      using evict_result_Suc [OF Cons.prems(1) q 3(2,1)] by blast
    moreover have "BoundedMap_evict sz now m = BoundedMap_evict sz now (drop_front ord queue item m)"
      using 3 add q item by (subst BoundedMap_evict.simps) simp
    ultimately show ?thesis using ev by (metis drop_oldest_Suc [OF Cons.prems(1) q])
  qed
qed

definition others_size :: "'k \<Rightarrow> ('k \<times> 'd Item) list \<Rightarrow> 'k Ordered list \<Rightarrow> nat" where
  "others_size k c before =
     (\<Sum>ord\<leftarrow>filter (\<lambda>ord. ord_key ord \<noteq> k) before. item_size (the (map_of c (ord_key ord))))"

lemma others_size_simps [simp]:
  "others_size k c [] = 0"
  "others_size k c (ord # before) =
     (if ord_key ord = k then 0 else item_size (the (map_of c (ord_key ord)))) + others_size k c before"
  by (simp_all add: others_size_def)

lemma others_size_delete:
  "k' \<notin> ord_key ` set before \<Longrightarrow> others_size k (AList.delete k' c) before = others_size k c before"
  by (induction before) (auto simp: AList.delete_conv')

lemma update_remove_fields [simp]:
  "bm_bound (update_remove k before m) = bm_bound m" "bm_size (update_remove k before m) = bm_size m"
  "bm_timeout (update_remove k before m) = bm_timeout m"
  "map_of (bm_container (update_remove k before m)) k = map_of (bm_container m) k"
  by (induction k before m rule: update_remove.induct) (simp_all add: AList.delete_conv')

lemma update_remove_linked:
  "linked (bm_queue m) (bm_container m) \<Longrightarrow>
   linked (bm_queue (update_remove k before m)) (bm_container (update_remove k before m))"
  by (induction k before m rule: update_remove.induct) (simp_all add: linked_delete)

lemma update_remove_total:
  assumes "distinct (map ord_key before)" and "distinct (map fst (bm_container m))"
    and "\<forall>ord\<in>set before. map_of (bm_container m) (ord_key ord) \<noteq> None"
  shows "total_size (bm_container (update_remove k before m)) + others_size k (bm_container m) before
    = total_size (bm_container m)"
  using assms
proof (induction k before m rule: update_remove.induct)
  case (2 k ord before m)
  show ?case
  proof (cases "ord_key ord = k")
    case False
    obtain item where item: "map_of (bm_container m) (ord_key ord) = Some item" using 2(5) by auto
    have "\<forall>o'\<in>set before. map_of (AList.delete (ord_key ord) (bm_container m)) (ord_key o') \<noteq> None"
      using 2(3,5) by (auto simp: AList.delete_conv' image_iff)
    then show ?thesis
      using 2(1) [OF False] 2(3,4) False item total_size_delete [OF 2(4) item]
      by (simp add: others_size_delete AList.distinct_delete)
  qed (use 2 in auto)
qed simp

text \<open>The sizes of the item and of other entries are parts of the total.\<close>

lemma others_size_le:
  assumes "linked q c" and "map_of c k = Some item" and "distinct (map ord_key before)"
    and "ord_key ` set before \<subseteq> fst ` set c"
  shows "others_size k c before + item_size item \<le> total_size c"
proof -
  define m where "m = (BoundedMap_new 0 Time_ZERO)\<lparr>bm_queue := q, bm_container := c\<rparr>"
  let ?m' = "update_remove k before m"
  have c: "bm_container m = c" "bm_queue m = q" by (simp_all add: m_def)
  have "map_of c (ord_key ord) \<noteq> None" if "ord \<in> set before" for ord
    using assms(4) that by (auto simp: map_of_eq_None_iff image_subset_iff)
  then have "total_size (bm_container ?m') + others_size k c before = total_size c"
    using update_remove_total [of before m k] assms by (simp add: c linked_def)
  moreover have "item_size item \<le> total_size (bm_container ?m')"
    using total_size_delete [of "bm_container ?m'" k item] update_remove_linked [of m k before] assms
    by (simp add: c linked_def)
  ultimately show ?thesis by simp
qed

lemma update_scan_spec:
  assumes "ord_key ` set q \<subseteq> fst ` set (bm_container m)"
    and "others_size k (bm_container m) q \<le> new_size" and "new_size < 2 ^ 64"
  shows "update_scan m now k new_size q = Some None \<or>
    (\<exists>n s. update_scan m now k new_size q = Some (Some (n, s)) \<and> n \<le> length q \<and> s \<le> bm_bound m \<and>
       s = new_size - others_size k (bm_container m) (take n q))"
  using assms
proof (induction q arbitrary: new_size)
  case Nil
  then show ?case by (simp add: update_scan.simps)
next
  case (Cons ord q)
  obtain item where item: "map_of (bm_container m) (ord_key ord) = Some item"
    using Cons.prems(1) by (cases "map_of (bm_container m) (ord_key ord)") (auto simp: map_of_eq_None_iff)
  consider "new_size \<le> bm_bound m" | "new_size > bm_bound m" "fresh m now ord"
    | "new_size > bm_bound m" "\<not> fresh m now ord" by linarith
  then show ?case
  proof cases
    case 3
    define s where "s = new_size - (if ord_key ord = k then 0 else item_size item)"
    have s: "others_size k (bm_container m) q \<le> s" "s < 2 ^ 64"
      using Cons.prems item by (auto simp: s_def)
    have "update_scan m now k new_size (ord # q) = map_option (map_option (\<lambda>(n, s). (Suc n, s))) (update_scan m now k s q)"
      using 3 item Cons.prems by (subst update_scan.simps) (auto simp: s_def sub64_exact)
    moreover have "ord_key ` set q \<subseteq> fst ` set (bm_container m)" using Cons.prems(1) by simp
    note Cons.IH [OF this s]
    ultimately show ?thesis
    proof (elim disjE exE conjE, goal_cases)
      case (2 n s')
      then show ?thesis using 3 item by (intro disjI2 exI [of _ "Suc n"] exI [of _ s']) (auto simp: s_def)
    qed simp
  qed (simp_all add: update_scan.simps)
qed

section \<open>Operations keep the invariant\<close>

lemma BoundedMap_new_ok: "b \<le> cap \<Longrightarrow> BoundedMap_ok cap (BoundedMap_new b t)"
  by (simp add: BoundedMap_new_def BoundedMap_ok_def linked_def)

lemma BoundedMap_find_impl_ok:
  assumes "BoundedMap_ok cap m" and "BoundedMap_find_impl k now m = (itor, m')"
  shows "BoundedMap_ok cap m'" and "bm_container m' = bm_container m" and "itor = map_of (bm_container m) k"
  using assms linked_touch [of "bm_queue m" "bm_container m" k now]
  by (auto simp: BoundedMap_find_impl_def BoundedMap_ok_def split: option.splits)

lemma BoundedMap_insert_impl_ok:
  assumes ok: "BoundedMap_ok cap m" and cap: "cap < 2 ^ 63" and new: "map_of (bm_container m) k = None"
  shows "\<exists>res m'. BoundedMap_insert_impl sp throws k d now m = Some (res, m') \<and> BoundedMap_ok cap m'"
proof (cases "sp k d > bm_bound m")
  case True
  then show ?thesis using ok by (simp add: BoundedMap_insert_impl_def)
next
  case False
  then obtain n r where res: "evict_result (sp k d) now m n r"
    and ev: "BoundedMap_evict (sp k d) now m =
      Some (r, if r then drop_oldest n m else stat_upd (not_inserted_update (\<lambda>n. n + 1)) (drop_oldest n m))"
    using BoundedMap_evict_spec [OF ok cap, of "sp k d" now] by auto
  have m1: "BoundedMap_ok cap (drop_oldest n m)"
    using res by (intro drop_oldest_ok ok cap) (simp add: evict_result_def evicted_def)
  have new1: "map_of (bm_container (drop_oldest n m)) k = None"
    using new by (auto simp: drop_oldest_def Let_def map_of_eq_None_iff)
  show ?thesis
  proof (cases "r \<and> \<not> throws")
    case True
    let ?m1 = "drop_oldest n m"
    have fits: "bm_size ?m1 + sp k d \<le> bm_bound m" using res True by (simp add: evict_result_def)
    then have "add64 (bm_size ?m1) (sp k d) = bm_size ?m1 + sp k d"
      using ok cap by (intro add64_exact) (simp add: BoundedMap_ok_def)
    moreover have "total_size (AList.update k \<lparr>item_data = d, item_size = sp k d\<rparr> (bm_container ?m1))
        = total_size (bm_container ?m1) + sp k d"
      using m1 new1 by (subst total_size_update)
        (auto simp: BoundedMap_ok_def linked_def AList.delete_id dom_map_of_conv_image_fst map_of_eq_None_iff)
    ultimately show ?thesis
      using False True ev fits m1 new1 linked_push [of "drop n (bm_queue m)" "bm_container ?m1" k]
      by (simp add: BoundedMap_insert_impl_def BoundedMap_ok_def Let_def)
  qed (use False ev m1 in \<open>auto simp: BoundedMap_insert_impl_def\<close>)
qed

lemma total_size_resize:
  assumes "distinct (map fst c)" and "map_of c k = Some item"
  shows "total_size (AList.update k item' c) + item_size item = total_size c + item_size item'"
  using total_size_delete [OF assms] total_size_update [OF assms(1), of k item'] by simp

lemma update_drop_ok:
  assumes ok: "BoundedMap_ok cap m" and cap: "cap < 2 ^ 63" and item: "map_of (bm_container m) k = Some item"
  shows "BoundedMap_ok cap (update_drop k item m)"
proof -
  have lk: "linked (bm_queue m) (bm_container m)" and sz: "bm_size m = total_size (bm_container m)"
    using ok by (simp_all add: BoundedMap_ok_def)
  have tot: "total_size (bm_container m) = item_size item + total_size (AList.delete k (bm_container m))"
    using lk item by (intro total_size_delete) (simp_all add: linked_def)
  have sub: "sub64 (bm_size m) (item_size item) = bm_size m - item_size item"
    using ok cap sz tot by (intro sub64_exact) (simp_all add: BoundedMap_ok_def)
  show ?thesis
    unfolding BoundedMap_ok_def using ok linked_delete [OF lk, of k] tot sub
    by (simp add: BoundedMap_ok_def update_drop_def)
qed

lemma update_remove_resize:
  assumes lk: "linked (bm_queue m) (bm_container m)" and item: "map_of (bm_container m) k = Some item"
    and m': "m' = update_remove k (take n (bm_queue m)) m"
  shows "linked (bm_queue m') (AList.update k item' (bm_container m'))"
    and "total_size (AList.update k item' (bm_container m')) + others_size k (bm_container m) (take n (bm_queue m))
      = total_size (bm_container m) - item_size item + item_size item'"
proof -
  let ?c = "bm_container m" and ?before = "take n (bm_queue m)"
  have lk': "linked (bm_queue m') (bm_container m')" using update_remove_linked [OF lk] by (simp add: m')
  then show "linked (bm_queue m') (AList.update k item' (bm_container m'))"
    using item by (intro linked_update) (simp_all add: m')
  have dist: "distinct (map ord_key ?before)" using lk by (simp add: linked_def take_map [symmetric])
  have keys: "ord_key ` set ?before \<subseteq> fst ` set ?c"
    using lk set_take_subset [of n "bm_queue m"] by (auto simp: linked_def)
  have "\<forall>ord\<in>set ?before. map_of ?c (ord_key ord) \<noteq> None"
    using keys by (simp add: map_of_eq_None_iff image_subset_iff)
  then have "total_size (bm_container m') + others_size k ?c ?before = total_size ?c"
    using lk dist unfolding m' by (intro update_remove_total) (simp_all add: linked_def)
  moreover have "total_size (AList.update k item' (bm_container m')) + item_size item
      = total_size (bm_container m') + item_size item'"
    using lk' item by (intro total_size_resize) (simp_all add: linked_def m')
  ultimately show "total_size (AList.update k item' (bm_container m')) + others_size k ?c ?before
      = total_size ?c - item_size item + item_size item'"
    using others_size_le [OF lk item dist keys] by linarith
qed

lemma BoundedMap_update_impl_ok:
  assumes ok: "BoundedMap_ok cap m" and cap: "cap < 2 ^ 63" and item: "map_of (bm_container m) k = Some item"
    and sp: "sp k (item_data item) < 2 ^ 63"
  shows "\<exists>r m'. BoundedMap_update_impl sp k item now m = Some (r, m') \<and> BoundedMap_ok cap m'"
proof -
  let ?sz = "sp k (item_data item)" and ?c = "bm_container m"
  let ?item' = "item\<lparr>item_size := ?sz\<rparr>"
  define s where "s = bm_size m - item_size item + ?sz"
  have lk: "linked (bm_queue m) ?c" and tot: "bm_size m = total_size ?c" and lt: "bm_size m < 2 ^ 63"
    using ok cap by (simp_all add: BoundedMap_ok_def)
  have sub: "ord_key ` set (bm_queue m) \<subseteq> fst ` set ?c" using lk by (simp add: linked_def)
  have le: "item_size item \<le> bm_size m"
    using total_size_delete [of ?c k item] lk item tot by (simp add: linked_def)
  have s64: "s < 2 ^ 64" using lt sp unfolding s_def by simp
  have "add64 (bm_size m) ?sz = bm_size m + ?sz" using lt sp by (intro add64_exact) simp
  then have new_size: "sub64 (add64 (bm_size m) ?sz) (item_size item) = s"
    using le lt sp by (simp add: s_def sub64_exact)
  have others: "others_size k ?c (bm_queue m) \<le> s"
    using others_size_le [OF lk item, of "bm_queue m"] lk tot by (simp add: s_def linked_def)
  consider "s \<le> bm_bound m" | "s > bm_bound m" "?sz > bm_bound m \<or> update_scan m now k s (bm_queue m) = Some None"
    | n s' where "s > bm_bound m" "?sz \<le> bm_bound m" "update_scan m now k s (bm_queue m) = Some (Some (n, s'))"
      "s' \<le> bm_bound m" "s' = s - others_size k ?c (take n (bm_queue m))"
    using update_scan_spec [OF sub others s64, of now] by (metis not_le)
  then show ?thesis
  proof cases
    case 1
    then have "BoundedMap_update_impl sp k item now m
        = Some (True, m\<lparr>bm_container := AList.update k ?item' ?c, bm_size := s\<rparr>)"
      by (simp add: BoundedMap_update_impl_def new_size Let_def)
    moreover have "total_size (AList.update k ?item' ?c) = s"
      using total_size_resize [of ?c k item ?item'] lk item tot le by (simp add: linked_def s_def)
    then have "BoundedMap_ok cap (m\<lparr>bm_container := AList.update k ?item' ?c, bm_size := s\<rparr>)"
      using 1 ok item linked_update [OF lk, of k ?item'] by (simp add: BoundedMap_ok_def)
    ultimately show ?thesis by blast
  next
    case 2
    then show ?thesis
      using update_drop_ok [OF ok cap item] by (auto simp: BoundedMap_update_impl_def new_size Let_def)
  next
    case (3 n s')
    define m' where "m' = update_remove k (take n (bm_queue m)) m"
    let ?m' = "m'\<lparr>bm_container := AList.update k ?item' (bm_container m'), bm_size := s'\<rparr>"
    have "BoundedMap_update_impl sp k item now m = Some (True, ?m')"
      using 3 by (simp add: BoundedMap_update_impl_def new_size Let_def m'_def)
    moreover have "BoundedMap_ok cap ?m'"
      using 3 ok tot update_remove_resize [OF lk item m'_def, of ?item']
      by (simp add: BoundedMap_ok_def s_def m'_def)
    ultimately show ?thesis by blast
  qed
qed

section \<open>Sequences of operations\<close>

datatype ('k, 'd) bm_op =
  OpFind 'k | OpInsert bool 'k 'd | OpInsertOrUpdate bool 'k 'd | OpUpdate 'k | OpErase 'k | OpClear
| OpStatistics bool | OpBound nat | OpTimeout timeval

fun BoundedMap_exec ::
    "('k \<Rightarrow> 'd \<Rightarrow> nat) \<Rightarrow> timeval \<Rightarrow> ('k, 'd) bm_op \<Rightarrow> ('k, 'd) BoundedMap \<Rightarrow> ('k, 'd) BoundedMap option" where
  "BoundedMap_exec sp now (OpFind k) m = Some (snd (BoundedMap_find k now m))"
| "BoundedMap_exec sp now (OpInsert throws k d) m = map_option snd (BoundedMap_insert sp throws k d now m)"
| "BoundedMap_exec sp now (OpInsertOrUpdate throws k d) m =
     map_option snd (BoundedMap_insert_or_update sp throws k d now m)"
| "BoundedMap_exec sp now (OpUpdate k) m = BoundedMap_update sp k now m"
| "BoundedMap_exec sp now (OpErase k) m = Some (BoundedMap_erase k m)"
| "BoundedMap_exec sp now OpClear m = Some (BoundedMap_clear m)"
| "BoundedMap_exec sp now (OpStatistics reset) m = Some (snd (BoundedMap_statistics reset m))"
| "BoundedMap_exec sp now (OpBound b) m = Some (BoundedMap_set_bound b m)"
| "BoundedMap_exec sp now (OpTimeout t) m = Some (BoundedMap_set_timeout t m)"

text \<open>Sizes and capacities stay below half of the range of \<^verbatim>\<open>size_t\<close>.\<close>

fun bm_op_ok :: "nat \<Rightarrow> ('k, 'd) bm_op \<Rightarrow> bool" where
  "bm_op_ok cap (OpBound b) = (b \<le> cap)"
| "bm_op_ok cap _ = True"

lemma BoundedMap_erase_drop:
  "BoundedMap_ok cap m \<Longrightarrow> cap < 2 ^ 63 \<Longrightarrow> BoundedMap_ok cap (BoundedMap_erase k m)"
  using update_drop_ok [of cap m k]
  by (auto simp: BoundedMap_erase_def update_drop_def BoundedMap_ok_def split: option.splits)

lemma BoundedMap_insert_ok:
  assumes "BoundedMap_ok cap m" and "cap < 2 ^ 63"
  shows "\<exists>res m'. BoundedMap_insert sp throws k d now m = Some (res, m') \<and> BoundedMap_ok cap m'"
proof -
  obtain itor m1 where f: "BoundedMap_find_impl k now m = (itor, m1)" by fastforce
  note ok = BoundedMap_find_impl_ok [OF assms(1) f]
  show ?thesis
    using ok(1) BoundedMap_insert_impl_ok [OF ok(1) assms(2), of k sp throws d now] ok(2,3) [symmetric]
    by (auto simp: BoundedMap_insert_def f split: option.split)
qed

lemma write_data_ok:
  assumes "BoundedMap_ok cap m" and "map_of (bm_container m) k = Some item"
  shows "BoundedMap_ok cap (m\<lparr>bm_container := AList.update k (item\<lparr>item_data := d\<rparr>) (bm_container m)\<rparr>)"
  using assms linked_update [of "bm_queue m" "bm_container m" k "item\<lparr>item_data := d\<rparr>"]
    total_size_resize [of "bm_container m" k item "item\<lparr>item_data := d\<rparr>"]
  by (simp add: BoundedMap_ok_def linked_def)

lemma BoundedMap_insert_or_update_ok:
  assumes "BoundedMap_ok cap m" and "cap < 2 ^ 63" and "sp k d < 2 ^ 63"
  shows "\<exists>res m'. BoundedMap_insert_or_update sp throws k d now m = Some (res, m') \<and> BoundedMap_ok cap m'"
proof -
  obtain itor m1 where f: "BoundedMap_find_impl k now m = (itor, m1)" by fastforce
  note ok = BoundedMap_find_impl_ok [OF assms(1) f]
  show ?thesis
  proof (cases itor)
    case None
    then obtain res m' where "BoundedMap_insert_impl sp throws k d now m1 = Some (res, m')" "BoundedMap_ok cap m'"
      using BoundedMap_insert_impl_ok [OF ok(1) assms(2)] ok by metis
    then show ?thesis using None by (simp add: BoundedMap_insert_or_update_def f)
  next
    case (Some item)
    let ?item = "item\<lparr>item_data := d\<rparr>"
    let ?m2 = "m1\<lparr>bm_container := AList.update k ?item (bm_container m1)\<rparr>"
    have old: "map_of (bm_container m1) k = Some item" using ok Some by simp
    have "BoundedMap_ok cap ?m2"
      by (rule write_data_ok [OF ok(1) old])
    moreover have "map_of (bm_container ?m2) k = Some ?item" by (simp add: AList.update_conv')
    ultimately obtain r m' where "BoundedMap_update_impl sp k ?item now ?m2 = Some (r, m')" "BoundedMap_ok cap m'"
      using BoundedMap_update_impl_ok [of cap ?m2 k ?item sp now] assms(2,3) by auto
    then show ?thesis using Some by (auto simp: BoundedMap_insert_or_update_def f Let_def)
  qed
qed

lemma BoundedMap_exec_ok:
  assumes ok: "BoundedMap_ok cap m" and cap: "cap < 2 ^ 63" and sp: "\<forall>k d. sp k d < 2 ^ 63" and "bm_op_ok cap op"
  shows "\<exists>m'. BoundedMap_exec sp now op m = Some m' \<and> BoundedMap_ok cap m'"
proof (cases op)
  case (OpFind k)
  then show ?thesis
    using BoundedMap_find_impl_ok(1) [OF ok, of k now] by (simp add: BoundedMap_find_def split: prod.splits)
next
  case (OpInsert throws k d)
  then show ?thesis using BoundedMap_insert_ok [OF ok cap, of sp throws k d now] by auto
next
  case (OpInsertOrUpdate throws k d)
  then show ?thesis using BoundedMap_insert_or_update_ok [OF ok cap, of sp k d throws now] sp by auto
next
  case (OpUpdate k)
  then show ?thesis
    using ok BoundedMap_update_impl_ok [OF ok cap, of k _ sp now] sp
    by (cases "map_of (bm_container m) k") (fastforce simp: BoundedMap_update_def)+
next
  case (OpErase k)
  then show ?thesis using BoundedMap_erase_drop [OF ok cap] by simp
qed (use assms in \<open>auto simp: BoundedMap_clear_def BoundedMap_statistics_def
  BoundedMap_set_bound_def BoundedMap_set_timeout_def BoundedMap_ok_def linked_def\<close>)

section \<open>The abstract map\<close>

text \<open>The map of keys to data and time of last use.\<close>

definition used :: "'k Ordered list \<Rightarrow> 'k \<Rightarrow> timeval option" where
  "used q = map_of (map (\<lambda>ord. (ord_key ord, last_used ord)) q)"

definition BoundedMap_abs :: "('k, 'd) BoundedMap \<Rightarrow> 'k \<Rightarrow> ('d \<times> timeval) option" where
  "BoundedMap_abs m k =
     (case map_of (bm_container m) k of
        None \<Rightarrow> None
      | Some item \<Rightarrow> map_option (\<lambda>t. (item_data item, t)) (used (bm_queue m) k))"

text \<open>Entries that were not used during the timeout.\<close>

definition all_expired :: "timeval \<Rightarrow> timeval \<Rightarrow> ('k \<Rightarrow> ('d \<times> timeval) option) \<Rightarrow> 'k set \<Rightarrow> bool" where
  "all_expired tmo now a E \<longleftrightarrow> (\<forall>k d t. k \<in> E \<longrightarrow> a k = Some (d, t) \<longrightarrow> Time_le (Time_add t tmo) now)"

lemma used_simps [simp]:
  "used [] = Map.empty" "used (ord # q) = (used q)(ord_key ord \<mapsto> last_used ord)"
  by (simp_all add: used_def fun_eq_iff)

lemma used_erase: "used (queue_erase k q) = (used q)(k := None)"
  by (induction q) (auto simp: fun_eq_iff)

lemma used_append: "ord_key ord \<notin> ord_key ` set q \<Longrightarrow> used (q @ [ord]) = (used q)(ord_key ord \<mapsto> last_used ord)"
  by (induction q) (auto simp: fun_eq_iff)

lemma used_None: "used q k = None \<longleftrightarrow> k \<notin> ord_key ` set q"
  by (induction q) auto

lemma used_drop: "distinct (map ord_key q) \<Longrightarrow> used (drop n q) = used q |` (- ord_key ` set (take n q))"
proof (induction q arbitrary: n)
  case (Cons ord q)
  show ?case
  proof (cases n)
    case (Suc j)
    have "used (drop j q) (ord_key ord) = None"
      using Cons.prems set_drop_subset [of j q] by (auto simp: used_None)
    then show ?thesis using Cons Suc by (auto simp: fun_eq_iff restrict_map_def)
  qed simp
qed simp

lemma map_of_filter_notin: "map_of (filter (\<lambda>(k, _). k \<notin> S) c) = map_of c |` (- S)"
  by (induction c) (auto simp: fun_eq_iff restrict_map_def)

lemma abs_drop_oldest:
  "linked (bm_queue m) (bm_container m) \<Longrightarrow>
   BoundedMap_abs (drop_oldest n m) = BoundedMap_abs m |` (- ord_key ` set (take n (bm_queue m)))"
  by (auto simp: fun_eq_iff BoundedMap_abs_def drop_oldest_def Let_def map_of_filter_notin used_drop linked_def
      restrict_map_def split: option.split)

lemma abs_delete:
  "BoundedMap_abs (m\<lparr>bm_size := s, bm_queue := queue_erase k (bm_queue m),
     bm_container := AList.delete k (bm_container m)\<rparr>) = (BoundedMap_abs m)(k := None)"
  by (auto simp: fun_eq_iff BoundedMap_abs_def used_erase AList.delete_conv' split: option.split)

lemma abs_stat [simp]: "BoundedMap_abs (stat_upd f m) = BoundedMap_abs m"
  by (simp add: fun_eq_iff BoundedMap_abs_def split: option.split)

lemma abs_simps [simp]:
  "BoundedMap_abs (m\<lparr>bm_stat := st\<rparr>) = BoundedMap_abs m"
  "BoundedMap_abs (m\<lparr>bm_bound := b\<rparr>) = BoundedMap_abs m"
  "BoundedMap_abs (m\<lparr>bm_timeout := t\<rparr>) = BoundedMap_abs m"
  "BoundedMap_abs (m\<lparr>bm_size := s\<rparr>) = BoundedMap_abs m"
  by (simp_all add: fun_eq_iff BoundedMap_abs_def split: option.split)

lemma abs_update_remove:
  "BoundedMap_abs (update_remove k before m) = BoundedMap_abs m |` (- (ord_key ` set before - {k}))"
proof (induction k before m rule: update_remove.induct)
  case (2 k ord before m)
  have "BoundedMap_abs ((stat_upd f m)\<lparr>bm_container := AList.delete (ord_key ord) (bm_container m),
      bm_queue := queue_erase (ord_key ord) (bm_queue m)\<rparr>) = (BoundedMap_abs m)(ord_key ord := None)" for f
    by (simp add: fun_eq_iff BoundedMap_abs_def AList.delete_conv' used_erase split: option.split)
  then show ?case using 2 by (auto simp: fun_eq_iff restrict_map_def)
qed simp

lemma abs_None_iff:
  "linked (bm_queue m) (bm_container m) \<Longrightarrow> BoundedMap_abs m k = None \<longleftrightarrow> map_of (bm_container m) k = None"
  by (auto simp: linked_def BoundedMap_abs_def used_None map_of_eq_None_iff split: option.splits)

lemma abs_Some:
  assumes "linked (bm_queue m) (bm_container m)" and "map_of (bm_container m) k = Some item"
  obtains t where "BoundedMap_abs m k = Some (item_data item, t)"
  using abs_None_iff [OF assms(1), of k] assms(2)
  by (cases "used (bm_queue m) k") (auto simp: BoundedMap_abs_def)

lemma abs_write:
  assumes "BoundedMap_abs m k = Some (d, t)"
  shows "BoundedMap_abs (m\<lparr>bm_container := AList.update k item (bm_container m), bm_size := s\<rparr>)
    = (BoundedMap_abs m)(k \<mapsto> (item_data item, t))"
  using assms by (auto simp: fun_eq_iff BoundedMap_abs_def AList.update_conv' split: option.splits)

lemma used_mem: "distinct (map ord_key q) \<Longrightarrow> ord \<in> set q \<Longrightarrow> used q (ord_key ord) = Some (last_used ord)"
  by (induction q) (auto simp: image_iff)

lemma all_expired_take:
  assumes "linked (bm_queue m) (bm_container m)" and "\<forall>ord\<in>set (take n (bm_queue m)). \<not> fresh m now ord"
  shows "all_expired (bm_timeout m) now (BoundedMap_abs m) (ord_key ` set (take n (bm_queue m)))"
  unfolding all_expired_def
proof (intro allI impI)
  fix k d t assume k: "k \<in> ord_key ` set (take n (bm_queue m))" and a: "BoundedMap_abs m k = Some (d, t)"
  from k obtain ord where ord: "ord \<in> set (take n (bm_queue m))" "k = ord_key ord" by auto
  have "used (bm_queue m) k = Some (last_used ord)"
    using assms(1) ord in_set_takeD [of ord n "bm_queue m"] by (simp add: used_mem linked_def)
  then have "t = last_used ord" using a by (auto simp: BoundedMap_abs_def split: option.splits)
  then show "Time_le (Time_add t (bm_timeout m)) now"
    using assms(2) ord by (auto simp: fresh_def Time_gt_def Time_le_def)
qed

text \<open>
  What each operation may do to the abstract map: entries of other keys are lost only by an operation
  that stores something, and only if they are expired.
\<close>

definition touch :: "'k \<Rightarrow> timeval \<Rightarrow> ('k \<Rightarrow> ('d \<times> timeval) option) \<Rightarrow> 'k \<Rightarrow> ('d \<times> timeval) option" where
  "touch k now a = (case a k of None \<Rightarrow> a | Some (d, t) \<Rightarrow> a(k \<mapsto> (d, now)))"

inductive bm_spec ::
    "timeval \<Rightarrow> ('k, 'd) bm_op \<Rightarrow> timeval \<times> ('k \<Rightarrow> ('d \<times> timeval) option)
     \<Rightarrow> timeval \<times> ('k \<Rightarrow> ('d \<times> timeval) option) \<Rightarrow> bool" where
  spec_find: "bm_spec now (OpFind k) (tmo, a) (tmo, touch k now a)"
| spec_existing: "k \<in> dom a \<Longrightarrow> bm_spec now (OpInsert throws k d) (tmo, a) (tmo, touch k now a)"
| spec_inserted: "k \<notin> dom a \<Longrightarrow> all_expired tmo now a E \<Longrightarrow> \<not> throws \<Longrightarrow>
    op = OpInsert throws k d \<or> op = OpInsertOrUpdate throws k d \<Longrightarrow>
    bm_spec now op (tmo, a) (tmo, (a |` (- E))(k \<mapsto> (d, now)))"
| spec_not_inserted: "k \<notin> dom a \<Longrightarrow> all_expired tmo now a E \<Longrightarrow>
    op = OpInsert throws k d \<or> op = OpInsertOrUpdate throws k d \<Longrightarrow>
    bm_spec now op (tmo, a) (tmo, a |` (- E))"
| spec_replaced: "k \<in> dom a \<Longrightarrow> all_expired tmo now a E \<Longrightarrow> k \<notin> E \<Longrightarrow>
    bm_spec now (OpInsertOrUpdate throws k d) (tmo, a) (tmo, (a |` (- E))(k \<mapsto> (d, now)))"
| spec_updated: "all_expired tmo now a E \<Longrightarrow> k \<notin> E \<Longrightarrow> bm_spec now (OpUpdate k) (tmo, a) (tmo, a |` (- E))"
| spec_removed: "op = OpErase k \<or> op = OpUpdate k \<or> op = OpInsertOrUpdate throws k d \<and> k \<in> dom a \<Longrightarrow>
    bm_spec now op (tmo, a) (tmo, a(k := None))"
| spec_clear: "bm_spec now OpClear (tmo, a) (tmo, Map.empty)"
| spec_keep: "op = OpStatistics reset \<or> op = OpBound b \<Longrightarrow> bm_spec now op (tmo, a) (tmo, a)"
| spec_timeout: "bm_spec now (OpTimeout tmo') (tmo, a) (tmo', a)"

definition bm_view :: "('k, 'd) BoundedMap \<Rightarrow> timeval \<times> ('k \<Rightarrow> ('d \<times> timeval) option)" where
  "bm_view m = (bm_timeout m, BoundedMap_abs m)"

lemma BoundedMap_find_impl_abs:
  assumes lk: "linked (bm_queue m) (bm_container m)" and "BoundedMap_find_impl k now m = (itor, m')"
  shows "bm_timeout m' = bm_timeout m" and "bm_bound m' = bm_bound m"
    and "BoundedMap_abs m' = touch k now (BoundedMap_abs m)"
proof -
  show "BoundedMap_abs m' = touch k now (BoundedMap_abs m)"
  proof (cases "map_of (bm_container m) k")
    case None
    then have "BoundedMap_abs m k = None" using lk by (simp add: abs_None_iff)
    then show ?thesis using assms None by (simp add: BoundedMap_find_impl_def touch_def)
  next
    case (Some item)
    obtain t where "BoundedMap_abs m k = Some (item_data item, t)" by (rule abs_Some [OF lk Some])
    moreover have "used (queue_erase k (bm_queue m) @ [\<lparr>ord_key = k, last_used = now\<rparr>]) = (used (bm_queue m))(k \<mapsto> now)"
      by (subst used_append) (auto simp: used_erase)
    ultimately show ?thesis
      using assms Some by (auto simp: fun_eq_iff BoundedMap_find_impl_def touch_def BoundedMap_abs_def split: option.split)
  qed
qed (use assms in \<open>auto simp: BoundedMap_find_impl_def split: option.splits\<close>)

lemma BoundedMap_insert_impl_abs:
  assumes ok: "BoundedMap_ok cap m" and cap: "cap < 2 ^ 63" and new: "map_of (bm_container m) k = None"
    and ins: "BoundedMap_insert_impl sp throws k d now m = Some (res, m')"
  shows "bm_timeout m' = bm_timeout m \<and> (\<exists>E. all_expired (bm_timeout m) now (BoundedMap_abs m) E \<and>
      (BoundedMap_abs m' = BoundedMap_abs m |` (- E) \<or>
       \<not> throws \<and> BoundedMap_abs m' = (BoundedMap_abs m |` (- E))(k \<mapsto> (d, now))))"
proof (cases "sp k d > bm_bound m")
  case True
  then show ?thesis using ins
    by (intro conjI exI [of _ "{}"]) (auto simp: BoundedMap_insert_impl_def all_expired_def)
next
  case False
  have lk: "linked (bm_queue m) (bm_container m)" using ok by (simp add: BoundedMap_ok_def)
  obtain n r where res: "evict_result (sp k d) now m n r"
    and ev: "BoundedMap_evict (sp k d) now m =
      Some (r, if r then drop_oldest n m else stat_upd (not_inserted_update (\<lambda>n. n + 1)) (drop_oldest n m))"
    using BoundedMap_evict_spec [OF ok cap, of "sp k d" now] False by auto
  let ?E = "ord_key ` set (take n (bm_queue m))" and ?m1 = "drop_oldest n m"
  have "\<forall>ord\<in>set (take n (bm_queue m)). \<not> fresh m now ord"
    using res by (auto simp: evict_result_def evicted_def in_set_conv_nth)
  then have E: "all_expired (bm_timeout m) now (BoundedMap_abs m) ?E" by (rule all_expired_take [OF lk])
  have abs1: "BoundedMap_abs ?m1 = BoundedMap_abs m |` (- ?E)" by (rule abs_drop_oldest [OF lk])
  have "k \<notin> ord_key ` set (drop n (bm_queue m))"
    using new lk set_drop_subset [of n "bm_queue m"] by (auto simp: linked_def map_of_eq_None_iff)
  then have "used (drop n (bm_queue m) @ [\<lparr>ord_key = k, last_used = now\<rparr>]) = (used (drop n (bm_queue m)))(k \<mapsto> now)"
    by (simp add: used_append)
  then have push: "BoundedMap_abs ((stat_upd f ?m1)\<lparr>bm_queue := drop n (bm_queue m) @ [\<lparr>ord_key = k, last_used = now\<rparr>],
      bm_container := AList.update k \<lparr>item_data = d, item_size = s\<rparr> (bm_container ?m1), bm_size := s'\<rparr>)
      = (BoundedMap_abs ?m1)(k \<mapsto> (d, now))" for f s s'
    by (auto simp: fun_eq_iff BoundedMap_abs_def AList.update_conv' split: option.split)
  show ?thesis
    using ins False ev E abs1 push
    by (intro conjI exI [of _ ?E]) (auto simp: BoundedMap_insert_impl_def Let_def split: if_splits)
qed

lemma update_scan_expired:
  "update_scan m now k s q = Some (Some (n, s')) \<Longrightarrow> \<forall>ord\<in>set (take n q). \<not> fresh m now ord"
proof (induction q arbitrary: s n)
  case (Cons ord q)
  then show ?case by (subst (asm) (2) update_scan.simps) (auto split: if_splits option.splits)
qed simp

lemma BoundedMap_update_impl_abs:
  assumes ok: "BoundedMap_ok cap m" and cap: "cap < 2 ^ 63" and item: "map_of (bm_container m) k = Some item"
    and sp: "sp k (item_data item) < 2 ^ 63" and upd: "BoundedMap_update_impl sp k item now m = Some (r, m')"
  shows "bm_timeout m' = bm_timeout m \<and> (BoundedMap_abs m' = (BoundedMap_abs m)(k := None) \<or>
    (\<exists>E. all_expired (bm_timeout m) now (BoundedMap_abs m) E \<and> k \<notin> E \<and> BoundedMap_abs m' = BoundedMap_abs m |` (- E)))"
proof -
  let ?item' = "item\<lparr>item_size := sp k (item_data item)\<rparr>" and ?c = "bm_container m"
  let ?s = "sub64 (add64 (bm_size m) (sp k (item_data item))) (item_size item)"
  have lk: "linked (bm_queue m) ?c" using ok by (simp add: BoundedMap_ok_def)
  obtain t where t: "BoundedMap_abs m k = Some (item_data item, t)" by (rule abs_Some [OF lk item])
  have drop: "BoundedMap_abs (update_drop k item m) = (BoundedMap_abs m)(k := None)"
    unfolding update_drop_def by (simp add: fun_eq_iff BoundedMap_abs_def AList.delete_conv' used_erase split: option.split)
  consider "m' = m\<lparr>bm_container := AList.update k ?item' ?c, bm_size := ?s\<rparr>" | "m' = update_drop k item m"
    | n s' where "update_scan m now k ?s (bm_queue m) = Some (Some (n, s'))"
      "m' = update_remove k (take n (bm_queue m)) m
         \<lparr>bm_container := AList.update k ?item' (bm_container (update_remove k (take n (bm_queue m)) m)), bm_size := s'\<rparr>"
    using upd by (auto simp: BoundedMap_update_impl_def Let_def split: if_splits option.splits)
  then show ?thesis
  proof cases
    case 1
    then show ?thesis using t abs_write [OF t, where item = ?item' and s = ?s]
      by (intro conjI disjI2 exI [of _ "{}"]) (auto simp: all_expired_def fun_eq_iff)
  next
    case 2
    then show ?thesis using drop by (simp add: update_drop_def)
  next
    case (3 n s')
    let ?E = "ord_key ` set (take n (bm_queue m)) - {k}" and ?m1 = "update_remove k (take n (bm_queue m)) m"
    have "all_expired (bm_timeout m) now (BoundedMap_abs m) ?E"
      using all_expired_take [OF lk, of n now] update_scan_expired [OF 3(1)] by (auto simp: all_expired_def)
    moreover have "BoundedMap_abs ?m1 k = Some (item_data item, t)" using t by (simp add: abs_update_remove)
    then have "BoundedMap_abs m' = (BoundedMap_abs ?m1)(k \<mapsto> (item_data item, t))"
      using abs_write [of ?m1 k _ t, where item = ?item' and s = s'] 3(2) by simp
    then have "BoundedMap_abs m' = BoundedMap_abs m |` (- ?E)"
      using t by (auto simp: fun_eq_iff abs_update_remove restrict_map_def)
    ultimately show ?thesis using 3(2) by auto
  qed
qed

lemma BoundedMap_insert_impl_refines:
  assumes ok: "BoundedMap_ok cap m" and cap: "cap < 2 ^ 63" and new: "map_of (bm_container m) k = None"
    and ins: "BoundedMap_insert_impl sp throws k d now m = Some (res, m')"
    and op: "op = OpInsert throws k d \<or> op = OpInsertOrUpdate throws k d"
  shows "bm_spec now op (bm_view m) (bm_view m')"
proof -
  have "BoundedMap_abs m k = None" using abs_None_iff [of m k] ok new by (simp add: BoundedMap_ok_def)
  then have k: "k \<notin> dom (BoundedMap_abs m)" by auto
  obtain E where tmo: "bm_timeout m' = bm_timeout m" and E: "all_expired (bm_timeout m) now (BoundedMap_abs m) E"
    and m': "BoundedMap_abs m' = BoundedMap_abs m |` (- E) \<or>
       \<not> throws \<and> BoundedMap_abs m' = (BoundedMap_abs m |` (- E))(k \<mapsto> (d, now))"
    using BoundedMap_insert_impl_abs [OF ok cap new ins] by blast
  from m' show ?thesis
    unfolding bm_view_def tmo using spec_inserted [OF k E _ op] spec_not_inserted [OF k E op] by metis
qed

lemma find_impl_view:
  assumes ok: "BoundedMap_ok cap m" and f: "BoundedMap_find_impl k now m = (itor, m1)"
  shows "itor = None \<Longrightarrow> bm_view m1 = bm_view m"
    and "itor = Some item \<Longrightarrow> k \<in> dom (BoundedMap_abs m)"
    and "bm_view m1 = (bm_timeout m, touch k now (BoundedMap_abs m))"
proof -
  have lk: "linked (bm_queue m) (bm_container m)" using ok by (simp add: BoundedMap_ok_def)
  note itor = BoundedMap_find_impl_ok(3) [OF ok f]
  show "bm_view m1 = (bm_timeout m, touch k now (BoundedMap_abs m))"
    using BoundedMap_find_impl_abs [OF lk f] by (simp add: bm_view_def)
  then show "bm_view m1 = bm_view m" if "itor = None"
    using abs_None_iff [OF lk, of k] itor that by (simp add: bm_view_def touch_def)
  show "k \<in> dom (BoundedMap_abs m)" if "itor = Some item"
    using abs_None_iff [OF lk, of k] itor that by auto
qed

lemma BoundedMap_insert_refines:
  assumes ok: "BoundedMap_ok cap m" and cap: "cap < 2 ^ 63"
    and ins: "BoundedMap_insert sp throws k d now m = Some (res, m')"
  shows "bm_spec now (OpInsert throws k d) (bm_view m) (bm_view m')"
proof -
  obtain itor m1 where f: "BoundedMap_find_impl k now m = (itor, m1)" by fastforce
  note ok1 = BoundedMap_find_impl_ok [OF ok f] and view = find_impl_view [OF ok f]
  show ?thesis
  proof (cases itor)
    case None
    then show ?thesis
      using BoundedMap_insert_impl_refines [OF ok1(1) cap, of k sp throws d now res m'] ins ok1 view(1)
      by (simp add: BoundedMap_insert_def f)
  next
    case (Some item)
    then have "bm_view m' = bm_view m1" using ins by (auto simp: BoundedMap_insert_def f bm_view_def)
    then show ?thesis using view(3) spec_existing [OF view(2) [OF Some]] by (simp add: bm_view_def)
  qed
qed

lemma BoundedMap_insert_or_update_refines:
  assumes ok: "BoundedMap_ok cap m" and cap: "cap < 2 ^ 63" and sp: "sp k d < 2 ^ 63"
    and ins: "BoundedMap_insert_or_update sp throws k d now m = Some (res, m')"
  shows "bm_spec now (OpInsertOrUpdate throws k d) (bm_view m) (bm_view m')"
proof -
  obtain itor m1 where f: "BoundedMap_find_impl k now m = (itor, m1)" by fastforce
  note ok1 = BoundedMap_find_impl_ok [OF ok f] and view = find_impl_view [OF ok f]
  show ?thesis
  proof (cases itor)
    case None
    then obtain r where "BoundedMap_insert_impl sp throws k d now m1 = Some (r, m')"
      using ins by (auto simp: BoundedMap_insert_or_update_def f)
    then show ?thesis
      using BoundedMap_insert_impl_refines [OF ok1(1) cap] ok1 view(1) None by metis
  next
    case (Some item)
    let ?item = "item\<lparr>item_data := d\<rparr>"
    define m2 where "m2 = m1\<lparr>bm_container := AList.update k ?item (bm_container m1)\<rparr>"
    have old: "map_of (bm_container m1) k = Some item" using ok1 Some by simp
    have ok2: "BoundedMap_ok cap m2" and item2: "map_of (bm_container m2) k = Some ?item"
      using write_data_ok [OF ok1(1) old] by (simp_all add: m2_def AList.update_conv')
    obtain d0 t0 where a: "BoundedMap_abs m k = Some (d0, t0)" using view(2) [OF Some] by auto
    then have a1: "BoundedMap_abs m1 k = Some (d0, now)" using view(3) by (simp add: bm_view_def touch_def)
    have a2: "BoundedMap_abs m2 = (BoundedMap_abs m)(k \<mapsto> (d, now))" and tm2: "bm_timeout m2 = bm_timeout m"
      using abs_write [OF a1, where item = ?item and s = "bm_size m1"] view(3) a
      by (simp_all add: m2_def bm_view_def touch_def)
    obtain r m3 where upd: "BoundedMap_update_impl sp k ?item now m2 = Some (r, m3)"
      and m': "bm_view m' = bm_view m3"
      using ins Some by (auto simp: BoundedMap_insert_or_update_def f Let_def m2_def bm_view_def)
    have tm: "bm_timeout m3 = bm_timeout m" and
      "BoundedMap_abs m3 = (BoundedMap_abs m)(k := None) \<or>
       (\<exists>E. all_expired (bm_timeout m) now ((BoundedMap_abs m)(k \<mapsto> (d, now))) E \<and> k \<notin> E \<and>
          BoundedMap_abs m3 = (BoundedMap_abs m)(k \<mapsto> (d, now)) |` (- E))"
      using BoundedMap_update_impl_abs [OF ok2 cap item2 _ upd] sp by (auto simp: a2 tm2)
    moreover have "(BoundedMap_abs m)(k \<mapsto> (d, now)) |` (- E) = (BoundedMap_abs m |` (- E))(k \<mapsto> (d, now))"
      if "k \<notin> E" for E using that by (auto simp: fun_eq_iff restrict_map_def)
    moreover have "all_expired tmo now ((BoundedMap_abs m)(k \<mapsto> (d, now))) E = all_expired tmo now (BoundedMap_abs m) E"
      if "k \<notin> E" for E tmo using that by (auto simp: all_expired_def)
    ultimately consider "bm_view m3 = (bm_timeout m, (BoundedMap_abs m)(k := None))"
      | E where "all_expired (bm_timeout m) now (BoundedMap_abs m) E" "k \<notin> E"
          "bm_view m3 = (bm_timeout m, (BoundedMap_abs m |` (- E))(k \<mapsto> (d, now)))"
      unfolding bm_view_def by metis
    then show ?thesis
    proof cases
      case 1
      then show ?thesis using m' view(2) [OF Some] by (simp add: bm_view_def [of m] spec_removed)
    next
      case (2 E)
      then show ?thesis using m' spec_replaced [OF view(2) [OF Some]] by (simp add: bm_view_def [of m])
    qed
  qed
qed

lemma BoundedMap_exec_refines:
  assumes ok: "BoundedMap_ok cap m" and cap: "cap < 2 ^ 63" and sp: "\<forall>k d. sp k d < 2 ^ 63"
    and ex: "BoundedMap_exec sp now op m = Some m'"
  shows "bm_spec now op (bm_view m) (bm_view m')"
proof -
  have lk: "linked (bm_queue m) (bm_container m)" using ok by (simp add: BoundedMap_ok_def)
  show ?thesis
  proof (cases op)
    case (OpFind k)
    then show ?thesis
      using ex find_impl_view(3) [OF ok, of k now] spec_find [of now k "bm_timeout m" "BoundedMap_abs m"]
      by (auto simp: BoundedMap_find_def bm_view_def split: prod.splits)
  next
    case (OpInsert throws k d)
    then show ?thesis using ex BoundedMap_insert_refines [OF ok cap] by auto
  next
    case (OpInsertOrUpdate throws k d)
    then show ?thesis using ex sp BoundedMap_insert_or_update_refines [OF ok cap, of sp k d throws now _ m'] by auto
  next
    case (OpUpdate k)
    show ?thesis
    proof (cases "map_of (bm_container m) k")
      case None
      then show ?thesis using ex OpUpdate spec_updated [of "bm_timeout m" now "BoundedMap_abs m" "{}" k]
        by (simp add: BoundedMap_update_def bm_view_def all_expired_def restrict_map_def)
    next
      case (Some item)
      then obtain r where "BoundedMap_update_impl sp k item now m = Some (r, m')"
        using ex OpUpdate by (auto simp: BoundedMap_update_def)
      from BoundedMap_update_impl_abs [OF ok cap Some _ this] sp show ?thesis
        unfolding bm_view_def OpUpdate using spec_updated spec_removed by metis
    qed
  next
    case (OpErase k)
    have "BoundedMap_abs (BoundedMap_erase k m) = (BoundedMap_abs m)(k := None)"
      by (auto simp: fun_eq_iff BoundedMap_erase_def BoundedMap_abs_def AList.delete_conv' used_erase split: option.split)
    moreover have "bm_timeout (BoundedMap_erase k m) = bm_timeout m"
      by (simp add: BoundedMap_erase_def split: option.split)
    ultimately show ?thesis using ex OpErase spec_removed [of op k] by (auto simp: bm_view_def)
  next
    case OpClear
    moreover have "BoundedMap_abs (BoundedMap_clear m) = Map.empty"
      by (simp add: fun_eq_iff BoundedMap_abs_def BoundedMap_clear_def)
    ultimately show ?thesis using ex spec_clear [of now "bm_timeout m" "BoundedMap_abs m"]
      by (auto simp: bm_view_def) (simp add: BoundedMap_clear_def)
  qed (use ex in \<open>auto simp: BoundedMap_statistics_def BoundedMap_set_bound_def BoundedMap_set_timeout_def bm_view_def
    intro: spec_keep spec_timeout\<close>)
qed

section \<open>Counters\<close>

definition stat_le :: "('k, 'd) BoundedMap \<Rightarrow> bool" where
  "stat_le m \<longleftrightarrow>
     removed_outdated (bm_stat m) + removed_updated (bm_stat m) + int (BoundedMap_size m) \<le> inserted_new (bm_stat m)"

definition insert_calls :: "('k, 'd) BoundedMap \<Rightarrow> int" where
  "insert_calls m = inserted_new (bm_stat m) + insert_existing (bm_stat m) + not_inserted (bm_stat m)"

lemma linked_length: "linked q c \<Longrightarrow> length c = length q"
  by (metis linked_def distinct_card length_map list.set_map)

lemma drop_oldest_stat:
  assumes "BoundedMap_ok cap m" and "cap < 2 ^ 63" and "n \<le> length (bm_queue m)"
  shows "stat_le (drop_oldest n m) \<longleftrightarrow> stat_le m" and "insert_calls (drop_oldest n m) = insert_calls m"
proof -
  have "length (bm_container (drop_oldest n m)) = length (bm_queue m) - n" "length (bm_container m) = length (bm_queue m)"
    using linked_length [of "bm_queue (drop_oldest n m)" "bm_container (drop_oldest n m)"]
      linked_length [of "bm_queue m" "bm_container m"] drop_oldest_ok [OF assms] assms(1)
    by (simp_all add: BoundedMap_ok_def)
  then show "stat_le (drop_oldest n m) \<longleftrightarrow> stat_le m" "insert_calls (drop_oldest n m) = insert_calls m"
    using assms(3) by (auto simp: stat_le_def insert_calls_def BoundedMap_size_def drop_oldest_def Let_def)
qed

lemma length_delete:
  assumes "distinct (map fst c)" and "map_of c k \<noteq> None"
  shows "length c = Suc (length (AList.delete k c))"
proof -
  have "card (fst ` set (AList.delete k c)) = card (fst ` set c) - 1"
    using assms by (simp add: map_of_eq_None_iff)
  moreover have "card (fst ` set c) = length c" "card (fst ` set (AList.delete k c)) = length (AList.delete k c)"
    using assms distinct_card [of "map fst c"] distinct_card [of "map fst (AList.delete k c)"]
    by (simp_all add: AList.distinct_delete)
  moreover have "0 < length c" using assms(2) by auto
  ultimately show ?thesis by linarith
qed

lemma length_update_alist:
  "length (AList.update k i c) = (if map_of c k = None then Suc (length c) else length c)"
  by (induction c) (auto split: if_splits)

lemma update_remove_stat:
  assumes "distinct (map ord_key before)" and "distinct (map fst (bm_container m))"
    and "\<forall>ord\<in>set before. map_of (bm_container m) (ord_key ord) \<noteq> None"
  shows "stat_le (update_remove k before m) \<longleftrightarrow> stat_le m"
  using assms
proof (induction k before m rule: update_remove.induct)
  case (2 k ord before m)
  have "\<forall>o'\<in>set before. map_of (AList.delete (ord_key ord) (bm_container m)) (ord_key o') \<noteq> None"
    using 2(3,5) by (auto simp: AList.delete_conv' image_iff)
  then show ?case
    using 2(1,2) 2(3-5) length_delete [OF 2(4), of "ord_key ord"]
    by (auto simp: AList.distinct_delete stat_le_def BoundedMap_size_def)
qed simp

lemma BoundedMap_insert_impl_stat:
  assumes ok: "BoundedMap_ok cap m" and cap: "cap < 2 ^ 63" and new: "map_of (bm_container m) k = None"
    and ins: "BoundedMap_insert_impl sp throws k d now m = Some (res, m')"
  shows "(stat_le m' \<longleftrightarrow> stat_le m) \<and> insert_calls m' = insert_calls m + (if res = Raised then 0 else 1)"
proof (cases "sp k d > bm_bound m")
  case True
  then show ?thesis using ins
    by (auto simp: BoundedMap_insert_impl_def stat_le_def insert_calls_def BoundedMap_size_def)
next
  case False
  then obtain n r where res: "evict_result (sp k d) now m n r"
    and ev: "BoundedMap_evict (sp k d) now m =
      Some (r, if r then drop_oldest n m else stat_upd (not_inserted_update (\<lambda>n. n + 1)) (drop_oldest n m))"
    using BoundedMap_evict_spec [OF ok cap, of "sp k d" now] by auto
  let ?m1 = "drop_oldest n m"
  have "n \<le> length (bm_queue m)" using res by (simp add: evict_result_def evicted_def)
  note m1 = drop_oldest_stat [OF ok cap this]
  have "length (AList.update k i (bm_container ?m1)) = Suc (length (bm_container ?m1))"
    if "map_of (bm_container ?m1) k = None" for i
    using that by (simp add: length_update_alist)
  then show ?thesis
    using ins False ev m1 [unfolded stat_le_def insert_calls_def]
    by (auto simp: BoundedMap_insert_impl_def Let_def stat_le_def insert_calls_def BoundedMap_size_def split: if_splits)
qed

lemma BoundedMap_update_impl_stat:
  assumes lk: "linked (bm_queue m) (bm_container m)" and item: "map_of (bm_container m) k = Some item"
    and upd: "BoundedMap_update_impl sp k item now m = Some (r, m')"
  shows "stat_le m' \<longleftrightarrow> stat_le m"
proof -
  have "stat_le (update_drop k item m) \<longleftrightarrow> stat_le m"
    using length_delete [of "bm_container m" k] lk item
    by (auto simp: update_drop_def stat_le_def BoundedMap_size_def linked_def)
  moreover have "stat_le (update_remove k (take n (bm_queue m)) m) \<longleftrightarrow> stat_le m" for n
    using lk in_set_takeD [of _ n "bm_queue m"] linked_keys [OF lk]
    by (intro update_remove_stat) (auto simp: linked_def take_map [symmetric])
  moreover have "stat_le (m1\<lparr>bm_container := AList.update k i (bm_container m1), bm_size := s\<rparr>) \<longleftrightarrow> stat_le m1"
    if "map_of (bm_container m1) k = Some item" for m1 :: "('a, 'b) BoundedMap" and i s
    using that by (simp add: stat_le_def BoundedMap_size_def length_update_alist)
  ultimately show ?thesis
    using upd item by (auto simp: BoundedMap_update_impl_def Let_def split: if_splits option.splits)
qed

lemma BoundedMap_exec_stat:
  assumes ok: "BoundedMap_ok cap m" and cap: "cap < 2 ^ 63"
    and ex: "BoundedMap_exec sp now op m = Some m'" and op: "op \<noteq> OpStatistics True" and m: "stat_le m"
  shows "stat_le m'"
proof -
  have touch: "stat_le m1 \<longleftrightarrow> stat_le m" if "BoundedMap_find_impl k now m = (itor, m1)" for k itor m1
    using that by (auto simp: BoundedMap_find_impl_def stat_le_def BoundedMap_size_def split: option.splits)
  show ?thesis
  proof (cases op)
    case (OpFind k)
    then show ?thesis using ex m touch [of k] by (auto simp: BoundedMap_find_def split: prod.splits)
  next
    case (OpInsert throws k d)
    obtain itor m1 where f: "BoundedMap_find_impl k now m = (itor, m1)" by fastforce
    note ok1 = BoundedMap_find_impl_ok [OF ok f]
    show ?thesis
    proof (cases itor)
      case None
      then show ?thesis
        using ex OpInsert m touch [OF f] BoundedMap_insert_impl_stat [OF ok1(1) cap, of k sp throws d now _ m'] ok1
        by (auto simp: BoundedMap_insert_def f)
    next
      case (Some item)
      then show ?thesis
        using ex OpInsert m touch [OF f] by (auto simp: BoundedMap_insert_def f stat_le_def BoundedMap_size_def)
    qed
  next
    case (OpInsertOrUpdate throws k d)
    obtain itor m1 where f: "BoundedMap_find_impl k now m = (itor, m1)" by fastforce
    note ok1 = BoundedMap_find_impl_ok [OF ok f]
    show ?thesis
    proof (cases itor)
      case None
      then show ?thesis
        using ex OpInsertOrUpdate m touch [OF f] BoundedMap_insert_impl_stat [OF ok1(1) cap, of k sp throws d now _ m'] ok1
        by (auto simp: BoundedMap_insert_or_update_def f)
    next
      case (Some item)
      let ?item = "item\<lparr>item_data := d\<rparr>"
      let ?m2 = "m1\<lparr>bm_container := AList.update k ?item (bm_container m1)\<rparr>"
      have old: "map_of (bm_container m1) k = Some item" using ok1 Some by simp
      have lk: "linked (bm_queue ?m2) (bm_container ?m2)"
        using write_data_ok [OF ok1(1) old, of d] by (simp add: BoundedMap_ok_def)
      obtain r m3 where upd: "BoundedMap_update_impl sp k ?item now ?m2 = Some (r, m3)"
        and m': "stat_le m' = stat_le m3"
        using ex OpInsertOrUpdate Some
        by (auto simp: BoundedMap_insert_or_update_def f Let_def stat_le_def BoundedMap_size_def split: if_splits)
      have "stat_le m3 \<longleftrightarrow> stat_le ?m2"
        by (rule BoundedMap_update_impl_stat [OF lk _ upd]) (simp add: AList.update_conv')
      then show ?thesis
        using m' m touch [OF f] old by (simp add: stat_le_def BoundedMap_size_def length_update_alist)
    qed
  next
    case (OpUpdate k)
    then show ?thesis using ex m BoundedMap_update_impl_stat [of m k _ sp now _ m'] ok
      by (auto simp: BoundedMap_update_def BoundedMap_ok_def split: option.splits)
  next
    case (OpErase k)
    then show ?thesis
      using ex m AList.length_delete_le [of k "bm_container m"]
      by (auto simp: BoundedMap_erase_def stat_le_def BoundedMap_size_def split: option.splits)
  qed (use ex op m in \<open>auto simp: BoundedMap_clear_def BoundedMap_statistics_def BoundedMap_set_bound_def
    BoundedMap_set_timeout_def stat_le_def BoundedMap_size_def\<close>)
qed

section \<open>Runs\<close>

definition bm_step :: "nat \<Rightarrow> ('k \<Rightarrow> 'd \<Rightarrow> nat) \<times> timeval \<times> ('k, 'd) bm_op
    \<Rightarrow> ('k, 'd) BoundedMap \<Rightarrow> ('k, 'd) BoundedMap \<Rightarrow> bool" where
  "bm_step cap l m m' \<longleftrightarrow>
     (case l of (sp, now, op) \<Rightarrow>
        (\<forall>k d. sp k d < 2 ^ 63) \<and> bm_op_ok cap op \<and> BoundedMap_exec sp now op m = Some m')"

definition bm_spec_step :: "('k \<Rightarrow> 'd \<Rightarrow> nat) \<times> timeval \<times> ('k, 'd) bm_op
    \<Rightarrow> timeval \<times> ('k \<Rightarrow> ('d \<times> timeval) option) \<Rightarrow> timeval \<times> ('k \<Rightarrow> ('d \<times> timeval) option) \<Rightarrow> bool" where
  "bm_spec_step l = (case l of (sp, now, op) \<Rightarrow> bm_spec now op)"

interpretation bm: simulation "\<lambda>m. cap < 2 ^ 63 \<and> BoundedMap_ok cap m" "bm_step cap" bm_view bm_spec_step for cap
proof
  fix c c' :: "('k, 'd) BoundedMap" and l
  assume inv: "cap < 2 ^ 63 \<and> BoundedMap_ok cap c" and "bm_step cap l c c'"
  then obtain sp now op where l: "l = (sp, now, op)" and sp: "\<forall>k d. sp k d < 2 ^ 63"
    and op: "bm_op_ok cap op" and ex: "BoundedMap_exec sp now op c = Some c'"
    by (cases l) (auto simp: bm_step_def)
  show "cap < 2 ^ 63 \<and> BoundedMap_ok cap c'"
    using BoundedMap_exec_ok [of cap c sp op now] inv sp op ex by auto
  show "bm_spec_step l (bm_view c) (bm_view c')"
    using BoundedMap_exec_refines [of cap c sp now op c'] inv sp ex by (simp add: bm_spec_step_def l)
qed

lemma run_stat_le:
  "runs (bm_step cap) m ls m' \<Longrightarrow> cap < 2 ^ 63 \<Longrightarrow> BoundedMap_ok cap m \<Longrightarrow> stat_le m \<Longrightarrow>
   (\<forall>(sp, now, op)\<in>set ls. op \<noteq> OpStatistics True) \<Longrightarrow> stat_le m'"
proof (induction rule: runs.induct)
  case (runs_Cons l s s' ls s'')
  then show ?case
    using bm.invar_step [of cap s l s'] BoundedMap_exec_stat [of cap s]
    by (cases l) (auto simp: bm_step_def)
qed simp

lemma BoundedMap_insert_calls:
  assumes ok: "BoundedMap_ok cap m" and cap: "cap < 2 ^ 63"
    and ins: "BoundedMap_insert sp throws k d now m = Some (res, m')"
  shows "insert_calls m' = insert_calls m + (if res = Raised then 0 else 1)"
proof -
  obtain itor m1 where f: "BoundedMap_find_impl k now m = (itor, m1)" by fastforce
  have "bm_stat m1 = bm_stat m" using f by (auto simp: BoundedMap_find_impl_def split: option.splits)
  then have m1: "insert_calls m1 = insert_calls m" by (simp add: insert_calls_def)
  note ok1 = BoundedMap_find_impl_ok [OF ok f]
  show ?thesis
  proof (cases itor)
    case None
    then show ?thesis
      using ins m1 ok1 BoundedMap_insert_impl_stat [OF ok1(1) cap, of k sp throws d now res m']
      by (simp add: BoundedMap_insert_def f)
  next
    case (Some item)
    then show ?thesis using ins m1 by (auto simp: BoundedMap_insert_def f insert_calls_def)
  qed
qed

section \<open>Properties\<close>

text \<open>
  (C5) Invariant of the bounded map, for every sequence of operations from the empty map and any clock
  readings: the queue and the container have the same keys, each once; the accounted size is the sum
  of the sizes of the entries and never exceeds the largest capacity set; and no operation runs into
  a failed assertion. Sizes and capacities are below 2^63.
\<close>
theorem BoundedMap_run_ok:
  assumes "cap < 2 ^ 63" and "b \<le> cap" and "runs (bm_step cap) (BoundedMap_new b tmo) ls m"
    and "\<forall>k d. sp k d < 2 ^ 63" and "bm_op_ok cap op"
  shows "distinct (map ord_key (bm_queue m)) \<and> distinct (map fst (bm_container m)) \<and>
    ord_key ` set (bm_queue m) = fst ` set (bm_container m) \<and>
    bm_size m = (\<Sum>(k, item)\<leftarrow>bm_container m. item_size item) \<and> bm_size m \<le> cap \<and>
    BoundedMap_exec sp now op m \<noteq> None"
proof -
  have ok: "BoundedMap_ok cap m"
    using bm.run_invar [OF assms(3)] BoundedMap_new_ok [OF assms(2)] assms(1) by blast
  then have "BoundedMap_exec sp now op m \<noteq> None"
    using BoundedMap_exec_ok [OF ok assms(1,4,5), of now] by auto
  then show ?thesis using ok by (simp add: BoundedMap_ok_def linked_def total_size_def)
qed

theorem BoundedMap_run_ok_witness:
  "\<exists>m. runs (bm_step 2) (BoundedMap_new 2 (Time_mk 10 0) :: (nat, nat) BoundedMap)
         [(DefaultSizePolicy, Time_mk 1 0, OpInsert False 5 50), (DefaultSizePolicy, Time_mk 2 0, OpErase 5)] m \<and>
       bm_size m = (\<Sum>(k, item)\<leftarrow>bm_container m. item_size item) \<and> bm_size m \<le> 2"
proof -
  let ?ls = "[(DefaultSizePolicy, Time_mk 1 0, OpInsert False 5 50),
    (DefaultSizePolicy, Time_mk 2 0, OpErase 5)] :: ((nat \<Rightarrow> nat \<Rightarrow> nat) \<times> timeval \<times> (nat, nat) bm_op) list"
  obtain m where m: "runs (bm_step 2) (BoundedMap_new 2 (Time_mk 10 0) :: (nat, nat) BoundedMap) ?ls m"
    by (simp add: bm_step_def DefaultSizePolicy_def BoundedMap_insert_def BoundedMap_find_impl_def BoundedMap_new_def
        BoundedMap_insert_impl_def BoundedMap_evict.simps add64_def)
  with BoundedMap_run_ok [of 2 2 "Time_mk 10 0" ?ls m DefaultSizePolicy OpClear "Time_mk 3 0"] show ?thesis
    by (auto simp: DefaultSizePolicy_def)
qed

text \<open>
  (C1) Refinement: every run of the bounded map is a run of the abstract map of keys to data and time
  of last use, in which only an operation that stores something may lose entries of other keys, and
  only entries not used during the timeout; \<^verbatim>\<open>find\<close> returns exactly what the abstract map holds.
\<close>
theorem BoundedMap_refines_spec:
  fixes m :: "('k, 'd) BoundedMap"
  assumes "cap < 2 ^ 63" and "b \<le> cap" and "runs (bm_step cap) (BoundedMap_new b tmo) ls m"
  shows "runs bm_spec_step (tmo, Map.empty) ls (bm_timeout m, BoundedMap_abs m) \<and>
    fst (BoundedMap_find k now m) = map_option (\<lambda>(d, t). (k, d)) (BoundedMap_abs m k)"
proof
  have inv: "cap < 2 ^ 63 \<and> BoundedMap_ok cap (BoundedMap_new b tmo)"
    using BoundedMap_new_ok [OF assms(2)] assms(1) by simp
  have "bm_view (BoundedMap_new b tmo :: ('k, 'd) BoundedMap) = (tmo, Map.empty)"
    by (simp add: bm_view_def BoundedMap_new_def BoundedMap_abs_def fun_eq_iff)
  then show "runs bm_spec_step (tmo, Map.empty) ls (bm_timeout m, BoundedMap_abs m)"
    using bm.run_refines [OF assms(3) inv] by (simp add: bm_view_def [of m])
  have lk: "linked (bm_queue m) (bm_container m)"
    using bm.run_invar [OF assms(3) inv] by (simp add: BoundedMap_ok_def)
  show "fst (BoundedMap_find k now m) = map_option (\<lambda>(d, t). (k, d)) (BoundedMap_abs m k)"
  proof (cases "map_of (bm_container m) k")
    case None
    then show ?thesis using abs_None_iff [OF lk, of k] by (simp add: BoundedMap_find_def BoundedMap_find_impl_def)
  next
    case (Some item)
    then obtain t where "BoundedMap_abs m k = Some (item_data item, t)" by (rule abs_Some [OF lk])
    then show ?thesis using Some by (simp add: BoundedMap_find_def BoundedMap_find_impl_def)
  qed
qed

theorem BoundedMap_refines_spec_witness:
  "\<exists>m. runs (bm_step 2) (BoundedMap_new 2 (Time_mk 10 0) :: (nat, nat) BoundedMap)
         [(DefaultSizePolicy, Time_mk 1 0, OpInsert False 5 50)] m \<and>
       runs bm_spec_step (Time_mk 10 0, Map.empty)
         [(DefaultSizePolicy, Time_mk 1 0, OpInsert False 5 50)] (bm_timeout m, BoundedMap_abs m) \<and>
       fst (BoundedMap_find 5 (Time_mk 2 0) m) = Some (5, 50)"
proof -
  let ?ls = "[(DefaultSizePolicy, Time_mk 1 0, OpInsert False 5 50)] :: ((nat \<Rightarrow> nat \<Rightarrow> nat) \<times> timeval \<times> (nat, nat) bm_op) list"
  obtain m where m: "runs (bm_step 2) (BoundedMap_new 2 (Time_mk 10 0) :: (nat, nat) BoundedMap) ?ls m"
    and a: "BoundedMap_abs m 5 = Some (50, Time_mk 1 0)"
    by (simp add: bm_step_def DefaultSizePolicy_def BoundedMap_insert_def BoundedMap_find_impl_def BoundedMap_new_def
        BoundedMap_insert_impl_def BoundedMap_evict.simps add64_def BoundedMap_abs_def)
  show ?thesis
    using m a BoundedMap_refines_spec [of 2 2 "Time_mk 10 0" ?ls m 5 "Time_mk 2 0"] by (intro exI [of _ m]) simp
qed

text \<open>
  (C30) Inserting a key that is not present and whose size is within the capacity removes the shortest
  prefix of the usage queue that makes enough room, as far as its entries are expired: either the
  entry is then stored and is the most recently used one, or the first remaining entry is not expired
  yet and nothing is stored.
\<close>
theorem BoundedMap_insert_evicts_oldest:
  assumes "BoundedMap_ok cap m" and "cap < 2 ^ 63" and "map_of (bm_container m) k = None"
    and "sp k d \<le> bm_bound m"
  shows "\<exists>n m'. n \<le> length (bm_queue m) \<and>
    (\<forall>i<n. \<not> Time_gt (Time_add (last_used (bm_queue m ! i)) (bm_timeout m)) now \<and>
            bm_size (drop_oldest i m) + sp k d > bm_bound m) \<and>
    (if bm_size (drop_oldest n m) + sp k d \<le> bm_bound m then
       BoundedMap_insert sp False k d now m = Some (Inserted (Some (k, d)) True, m') \<and>
       bm_queue m' = drop n (bm_queue m) @ [\<lparr>ord_key = k, last_used = now\<rparr>] \<and>
       map_of (bm_container m') =
         (map_of (bm_container (drop_oldest n m)))(k \<mapsto> \<lparr>item_data = d, item_size = sp k d\<rparr>) \<and>
       bm_size m' = bm_size (drop_oldest n m) + sp k d
     else
       n < length (bm_queue m) \<and>
       Time_gt (Time_add (last_used (bm_queue m ! n)) (bm_timeout m)) now \<and>
       BoundedMap_insert sp False k d now m = Some (Inserted None False, m') \<and>
       bm_queue m' = drop n (bm_queue m) \<and> bm_container m' = bm_container (drop_oldest n m))"
proof -
  obtain n r where res: "evict_result (sp k d) now m n r"
    and ev: "BoundedMap_evict (sp k d) now m =
      Some (r, if r then drop_oldest n m else stat_upd (not_inserted_update (\<lambda>n. n + 1)) (drop_oldest n m))"
    using BoundedMap_evict_spec [OF assms(1,2,4), of now] by auto
  have ins: "BoundedMap_insert sp False k d now m = BoundedMap_insert_impl sp False k d now m"
    using assms(3) by (simp add: BoundedMap_insert_def BoundedMap_find_impl_def)
  have new: "map_of (bm_container (drop_oldest n m)) k = None"
    using assms(3) by (auto simp: drop_oldest_def Let_def map_of_eq_None_iff)
  show ?thesis
  proof (cases r)
    case True
    define m' where "m' = (stat_upd (inserted_new_update (\<lambda>n. n + 1)) (drop_oldest n m))
      \<lparr>bm_queue := drop n (bm_queue m) @ [\<lparr>ord_key = k, last_used = now\<rparr>],
       bm_container := AList.update k \<lparr>item_data = d, item_size = sp k d\<rparr> (bm_container (drop_oldest n m)),
       bm_size := add64 (bm_size (drop_oldest n m)) (sp k d)\<rparr>"
    have fits: "bm_size (drop_oldest n m) + sp k d \<le> bm_bound m" using True res by (simp add: evict_result_def)
    then have "add64 (bm_size (drop_oldest n m)) (sp k d) = bm_size (drop_oldest n m) + sp k d"
      using assms(1,2) by (intro add64_exact) (simp add: BoundedMap_ok_def)
    then have "bm_size m' = bm_size (drop_oldest n m) + sp k d" by (simp add: m'_def)
    moreover have "BoundedMap_insert sp False k d now m = Some (Inserted (Some (k, d)) True, m')"
      using True ev new assms(4) by (simp add: ins BoundedMap_insert_impl_def Let_def m'_def)
    moreover have "bm_queue m' = drop n (bm_queue m) @ [\<lparr>ord_key = k, last_used = now\<rparr>]"
      and "map_of (bm_container m') =
         (map_of (bm_container (drop_oldest n m)))(k \<mapsto> \<lparr>item_data = d, item_size = sp k d\<rparr>)"
      by (simp_all add: m'_def AList.update_conv')
    ultimately show ?thesis
      using res fits unfolding evict_result_def evicted_def fresh_def by (intro exI [of _ n] exI [of _ m']) simp
  next
    case False
    define m' where "m' = stat_upd (not_inserted_update (\<lambda>n. n + 1)) (drop_oldest n m)"
    have "BoundedMap_insert sp False k d now m = Some (Inserted None False, m')"
      using False ev assms(4) by (simp add: ins BoundedMap_insert_impl_def Let_def m'_def)
    moreover have "bm_queue m' = drop n (bm_queue m)" "bm_container m' = bm_container (drop_oldest n m)"
      by (simp_all add: m'_def)
    ultimately show ?thesis
      using res False unfolding evict_result_def evicted_def fresh_def by (intro exI [of _ n] exI [of _ m']) simp
  qed
qed

theorem BoundedMap_insert_evicts_oldest_witness:
  "\<exists>m'. BoundedMap_insert DefaultSizePolicy False (7::nat) (70::nat) (Time_mk 30 0)
      \<lparr>bm_bound = 1, bm_timeout = Time_mk 10 0, bm_container = [(5, \<lparr>item_data = 50, item_size = 1\<rparr>)],
       bm_queue = [\<lparr>ord_key = 5, last_used = Time_mk 1 0\<rparr>], bm_size = 1, bm_stat = BoundedMapStat_new\<rparr>
      = Some (Inserted (Some (7, 70)) True, m') \<and> bm_queue m' = [\<lparr>ord_key = 7, last_used = Time_mk 30 0\<rparr>]"
proof -
  let ?m = "\<lparr>bm_bound = 1, bm_timeout = Time_mk 10 0, bm_container = [(5, \<lparr>item_data = 50, item_size = 1\<rparr>)],
       bm_queue = [\<lparr>ord_key = 5, last_used = Time_mk 1 0\<rparr>], bm_size = 1, bm_stat = BoundedMapStat_new\<rparr>
       :: (nat, nat) BoundedMap"
  have "BoundedMap_ok 1 ?m" by (simp add: BoundedMap_ok_def linked_def)
  from BoundedMap_insert_evicts_oldest [OF this, of 7 DefaultSizePolicy 70 "Time_mk 30 0"] show ?thesis
    by (auto simp: DefaultSizePolicy_def drop_oldest_def Let_def stat_upd_def Time_gt_def Time_lt_def Time_add_def
        USEC_MAX_def le_Suc_eq split: if_splits)
qed



end
