(* ===== verification/Compressed_Set.thy ===== *)
theory Compressed_Set
  imports Prelude
begin

text \<open>
  \<^verbatim>\<open>Generics::CompressedSet\<close> (src/src/Generics/CompressedSet.hpp): a set of integers stored as a map from the
  low to the high bound of disjoint intervals, and \<^verbatim>\<open>safe_next\<close> (src/src/Generics/TypeTraits.hpp).

  The map is the list of its elements in the order of their keys; an iterator is a position, and
  \<open>length\<close> is \<^verbatim>\<open>end()\<close>. \<open>mx\<close> is the largest value of the integer type. \<open>last_found\<close> is the iterator
  cached by \<^verbatim>\<open>belongs\<close>, \<open>None\<close> being \<^verbatim>\<open>end()\<close>.
\<close>

section \<open>Operations\<close>

type_synonym holder = "(int \<times> int) list"

record CompressedSet =
  holder :: holder
  last_found :: "nat option"

datatype CheckStatus = CS_NONE | CS_ALL | CS_SOME

definition safe_next :: "int \<Rightarrow> int \<Rightarrow> int" where
  "safe_next mx number = (if number < mx then number + 1 else number)"

text \<open>Lookup and insertion of the ordered map; an existing key is not overwritten.\<close>

definition lower_bound :: "int \<Rightarrow> holder \<Rightarrow> nat" where
  "lower_bound k h = length (takeWhile (\<lambda>(first, second). first < k) h)"

definition holder_insert :: "int \<times> int \<Rightarrow> holder \<Rightarrow> holder \<times> nat" where
  "holder_insert kv h =
     (let i = lower_bound (fst kv) h
      in if i < length h \<and> fst (h ! i) = fst kv then (h, i) else (take i h @ kv # drop i h, i))"

definition CompressedSet_new :: CompressedSet where
  "CompressedSet_new = \<lparr>holder = [], last_found = None\<rparr>"

definition CompressedSet_empty :: "CompressedSet \<Rightarrow> bool" where
  "CompressedSet_empty cs = (holder cs = [])"

text \<open>The element with the largest low bound not above \<open>low\<close>, if there is one.\<close>

definition start_element :: "int \<Rightarrow> holder \<Rightarrow> nat" where
  "start_element low h =
     (let i = lower_bound low h
      in if (i = length h \<or> fst (h ! i) \<noteq> low) \<and> i \<noteq> 0 then i - 1 else i)"

fun remove_overlapped :: "int \<Rightarrow> int \<Rightarrow> int \<times> int \<Rightarrow> holder \<Rightarrow> holder" where
  "remove_overlapped high high_next base [] = [base]"
| "remove_overlapped high high_next base ((first, second) # rest) =
     (if first \<le> high_next then
        if second > high then (fst base, second) # rest
        else remove_overlapped high high_next base rest
      else base # (first, second) # rest)"

definition add_interval :: "int \<Rightarrow> int \<Rightarrow> int \<Rightarrow> holder \<Rightarrow> holder" where
  "add_interval mx low high h =
     (let i = start_element low h;
          (h, i) =
            (if i = length h \<or> fst (h ! i) > low \<or> safe_next mx (snd (h ! i)) < low
             then holder_insert (low, high) h
             else (if snd (h ! i) < high then h[i := (fst (h ! i), high)] else h, i))
      in take i h @ remove_overlapped high (safe_next mx high) (h ! i) (drop (Suc i) h))"

definition CompressedSet_add :: "int \<Rightarrow> int \<Rightarrow> int \<Rightarrow> CompressedSet \<Rightarrow> CompressedSet" where
  "CompressedSet_add mx low high cs =
     (if low > high then cs
      else \<lparr>holder = add_interval mx low high (holder cs), last_found = None\<rparr>)"

definition CompressedSet_add_value :: "int \<Rightarrow> int \<Rightarrow> CompressedSet \<Rightarrow> CompressedSet" where
  "CompressedSet_add_value mx v cs = CompressedSet_add mx v v cs"

text \<open>\<open>same\<close> says that both sets are the same object.\<close>

definition CompressedSet_add_set :: "int \<Rightarrow> bool \<Rightarrow> CompressedSet \<Rightarrow> CompressedSet \<Rightarrow> CompressedSet" where
  "CompressedSet_add_set mx same cset cs =
     (if same then cs else fold (\<lambda>(first, second). CompressedSet_add mx first second) (holder cset) cs)"

text \<open>The loop of \<^verbatim>\<open>remove\<close>, from the position it has reached.\<close>

function remove_loop :: "int \<Rightarrow> int \<Rightarrow> int \<Rightarrow> holder \<Rightarrow> holder" where
  "remove_loop low high high_next [] = []"
| "remove_loop low high high_next ((first, second) # rest) =
     (if first < high_next then
        if first \<ge> low then
          if second \<le> high then remove_loop low high high_next rest
          else fst (holder_insert (high_next, second) rest)
        else if second < low then (first, second) # remove_loop low high high_next rest
        else if second \<le> high then remove_loop low high high_next ((first, low - 1) # rest)
        else remove_loop low high high_next ((first, low - 1) # fst (holder_insert (high_next, second) rest))
      else (first, second) # rest)"
  by pat_completeness auto

text \<open>
  Each pass either leaves an element behind or cuts one that reaches to \<open>low\<close>; an inserted element starts
  at \<open>high_next\<close> and is not visited.
\<close>

definition remove_measure :: "int \<Rightarrow> int \<Rightarrow> holder \<Rightarrow> nat" where
  "remove_measure low high_next h =
     (\<Sum>(first, second)\<leftarrow>h. if first < high_next then if first < low \<and> low \<le> second then 2 else 1 else 0)"

lemma remove_measure_insert:
  "remove_measure low high_next (fst (holder_insert (high_next, s) h)) = remove_measure low high_next h"
proof -
  have "remove_measure low high_next (take i h @ (high_next, s) # drop i h) = remove_measure low high_next (take i h @ drop i h)" for i
    by (simp only: remove_measure_def map_append sum_list_append list.map sum_list.Cons) simp
  then show ?thesis by (simp add: holder_insert_def Let_def)
qed

lemma remove_measure_Cons:
  "remove_measure low high_next ((first, second) # h) =
     (if first < high_next then if first < low \<and> low \<le> second then 2 else 1 else 0) + remove_measure low high_next h"
  by (simp add: remove_measure_def)

termination remove_loop
  by (relation "measure (\<lambda>(low, _, high_next, h). remove_measure low high_next h)")
    (simp_all add: remove_measure_Cons remove_measure_insert)

definition CompressedSet_remove :: "int \<Rightarrow> int \<Rightarrow> int \<Rightarrow> CompressedSet \<Rightarrow> CompressedSet" where
  "CompressedSet_remove mx low high cs =
     (if low > high then cs
      else let i = start_element low (holder cs)
           in \<lparr>holder = take i (holder cs) @ remove_loop low high (safe_next mx high) (drop i (holder cs)),
               last_found = None\<rparr>)"

definition CompressedSet_remove_value :: "int \<Rightarrow> int \<Rightarrow> CompressedSet \<Rightarrow> CompressedSet" where
  "CompressedSet_remove_value mx v cs = CompressedSet_remove mx v v cs"

definition CompressedSet_remove_set :: "int \<Rightarrow> bool \<Rightarrow> CompressedSet \<Rightarrow> CompressedSet \<Rightarrow> CompressedSet" where
  "CompressedSet_remove_set mx same cset cs =
     (if same then cs else fold (\<lambda>(first, second). CompressedSet_remove mx first second) (holder cset) cs)"

definition CompressedSet_clear :: "CompressedSet \<Rightarrow> CompressedSet" where
  "CompressedSet_clear cs = \<lparr>holder = [], last_found = None\<rparr>"

definition CompressedSet_belongs :: "int \<Rightarrow> CompressedSet \<Rightarrow> bool \<times> CompressedSet" where
  "CompressedSet_belongs v cs =
     (let h = holder cs
      in if (case last_found cs of None \<Rightarrow> False | Some i \<Rightarrow> fst (h ! i) \<le> v \<and> snd (h ! i) \<ge> v) then (True, cs)
         else let i = lower_bound v h
              in if i < length h \<and> fst (h ! i) = v then (True, cs\<lparr>last_found := Some i\<rparr>)
                 else if i = 0 then (False, cs\<lparr>last_found := if i = length h then None else Some i\<rparr>)
                 else (v \<le> snd (h ! (i - 1)), cs\<lparr>last_found := Some (i - 1)\<rparr>))"

definition CompressedSet_check_presence :: "int \<Rightarrow> int \<Rightarrow> CompressedSet \<Rightarrow> CheckStatus" where
  "CompressedSet_check_presence low high cs =
     (if low > high then CS_NONE
      else let h = holder cs; i = lower_bound low h
           in if i < length h \<and> fst (h ! i) = low then if snd (h ! i) \<ge> high then CS_ALL else CS_SOME
              else if i < length h \<and> fst (h ! i) \<le> high then CS_SOME
              else if i = 0 then CS_NONE
              else if snd (h ! (i - 1)) < low then CS_NONE
              else if snd (h ! (i - 1)) \<ge> high then CS_ALL else CS_SOME)"

section \<open>Intervals as a set\<close>

text \<open>The documented invariant: nonempty intervals, and a gap between two successive ones.\<close>

definition holder_ok :: "int \<Rightarrow> holder \<Rightarrow> bool" where
  "holder_ok mx h \<longleftrightarrow>
     sorted_wrt (\<lambda>p q. snd p + 1 < fst q) h \<and> (\<forall>p\<in>set h. fst p \<le> snd p \<and> snd p \<le> mx)"

definition members :: "holder \<Rightarrow> int set" where
  "members h = (\<Union>p\<in>set h. {fst p..snd p})"

lemma members_simps [simp]:
  "members [] = {}" "members (p # h) = {fst p..snd p} \<union> members h" "members (a @ b) = members a \<union> members b"
  by (auto simp: members_def)

lemma holder_ok_Nil [simp]: "holder_ok mx []"
  by (simp add: holder_ok_def)

lemma holder_ok_Cons:
  "holder_ok mx (p # h) \<longleftrightarrow>
     fst p \<le> snd p \<and> snd p \<le> mx \<and> (\<forall>q\<in>set h. snd p + 1 < fst q) \<and> holder_ok mx h"
  by (auto simp: holder_ok_def)

lemma holder_ok_append:
  "holder_ok mx (a @ b) \<longleftrightarrow>
     holder_ok mx a \<and> holder_ok mx b \<and> (\<forall>p\<in>set a. \<forall>q\<in>set b. snd p + 1 < fst q)"
  by (auto simp: holder_ok_def sorted_wrt_append)

lemma holder_ok_bounds: "holder_ok mx h \<Longrightarrow> p \<in> set h \<Longrightarrow> fst p \<le> snd p \<and> snd p \<le> mx"
  by (simp add: holder_ok_def)

lemma members_bounds: "x \<in> members h \<Longrightarrow> \<exists>p\<in>set h. fst p \<le> x \<and> x \<le> snd p"
  by (auto simp: members_def)

lemma lower_bound_split:
  assumes "holder_ok mx h"
  obtains a b where "h = a @ b" "lower_bound k h = length a" "\<forall>p\<in>set a. fst p < k" "\<forall>p\<in>set b. k \<le> fst p"
proof
  let ?P = "\<lambda>(first, second). first < k"
  show "h = takeWhile ?P h @ dropWhile ?P h" "lower_bound k h = length (takeWhile ?P h)"
    by (simp_all add: lower_bound_def)
  show "\<forall>p\<in>set (takeWhile ?P h). fst p < k" by (auto dest: set_takeWhileD)
  show "\<forall>p\<in>set (dropWhile ?P h). k \<le> fst p"
    using assms
  proof (induction h)
    case (Cons q h)
    have "k \<le> fst p" if "k \<le> fst q" "p \<in> set h" for p
      using Cons.prems that by (auto simp: holder_ok_Cons)
    then show ?case using Cons by (auto simp: holder_ok_Cons)
  qed simp
qed

lemma start_element_split:
  assumes "holder_ok mx h"
  obtains (found) a f s b where "h = a @ (f, s) # b" "start_element low h = length a" "f \<le> low" "\<forall>p\<in>set b. low < fst p"
  | (front) "start_element low h = 0" "\<forall>p\<in>set h. low < fst p"
proof -
  obtain a b where ab: "h = a @ b" "lower_bound low h = length a" "\<forall>p\<in>set a. fst p < low" "\<forall>p\<in>set b. low \<le> fst p"
    by (rule lower_bound_split [OF assms])
  show ?thesis
  proof (cases "b \<noteq> [] \<and> fst (hd b) = low")
    case True
    then obtain s r where b: "b = (low, s) # r" by (cases b) auto
    have "\<forall>p\<in>set r. low < fst p" using assms holder_ok_bounds [OF assms, of "(low, s)"] by (auto simp: ab b holder_ok_append holder_ok_Cons)
    then show ?thesis
      using ab(1,2) b by (intro found [of a low s r]) (simp_all add: start_element_def)
  next
    case False
    have b: "\<forall>p\<in>set b. low < fst p"
    proof (cases b)
      case (Cons q r)
      then have "low < fst q" using ab(4) False by auto
      then show ?thesis using assms holder_ok_bounds [OF assms, of q] by (auto simp: ab(1) Cons holder_ok_append holder_ok_Cons)
    qed simp
    have "length a = length h \<or> fst (h ! length a) \<noteq> low" using False unfolding ab(1) by (cases b) auto
    then have start: "start_element low h = length a - 1" by (auto simp: start_element_def ab(2) Let_def)
    show ?thesis
    proof (cases a rule: rev_cases)
      case Nil
      then show ?thesis using start b ab(1) by (intro front) simp_all
    next
      case (snoc a' q)
      have "fst q \<le> low" using ab(3) snoc by fastforce
      then show ?thesis using start b ab(1) snoc by (intro found [of a' "fst q" "snd q" b]) simp_all
    qed
  qed
qed

lemma holder_insert_pos:
  assumes "\<forall>p\<in>set a. fst p < k" and "\<forall>p\<in>set b. k < fst p"
  shows "holder_insert (k, v) (a @ b) = (a @ (k, v) # b, length a)"
proof -
  have "lower_bound k (a @ b) = length a"
    using assms(1)
  proof (induction a)
    case Nil
    then show ?case using assms(2) by (cases b) (auto simp: lower_bound_def)
  qed (auto simp: lower_bound_def)
  moreover have "\<not> (length a < length (a @ b) \<and> fst ((a @ b) ! length a) = k)"
    using assms(2) by (cases b) auto
  ultimately show ?thesis by (simp add: holder_insert_def Let_def)
qed

section \<open>Adding\<close>

lemma remove_overlapped_ok:
  assumes "holder_ok mx rest" and "f \<le> s" and "s \<le> mx" and "\<forall>p\<in>set rest. f < fst p"
    and "high \<le> s" and "s > high \<Longrightarrow> \<forall>p\<in>set rest. s + 1 < fst p"
  defines "h \<equiv> remove_overlapped high (safe_next mx high) (f, s) rest"
  shows "holder_ok mx h \<and> members h = {f..s} \<union> members rest \<and> (\<forall>p\<in>set h. f \<le> fst p)"
  using assms(1-6) unfolding h_def
proof (induction rest)
  case (Cons q rest)
  obtain f' s' where q: "q = (f', s')" by (cases q)
  have rest: "holder_ok mx rest" "f' \<le> s'" "s' \<le> mx" "\<forall>p\<in>set rest. s' + 1 < fst p" "f < f'"
    using Cons.prems by (auto simp: q holder_ok_Cons)
  consider "f' > safe_next mx high" | "f' \<le> safe_next mx high" "s' > high" | "f' \<le> safe_next mx high" "s' \<le> high"
    by linarith
  then show ?case
  proof cases
    case 1
    then have "high + 1 < f'" using rest by (auto simp: safe_next_def split: if_splits)
    then have "s + 1 < f'" using Cons.prems by (cases "s > high") (auto simp: q)
    then show ?thesis using 1 Cons.prems rest by (auto simp: q holder_ok_Cons)
  next
    case 2
    then have "f' \<le> high + 1" by (auto simp: safe_next_def split: if_splits)
    then have "s = high" using Cons.prems by (cases "s > high") (auto simp: q)
    then show ?thesis using 2 Cons.prems rest \<open>f' \<le> high + 1\<close> by (auto simp: q holder_ok_Cons)
  next
    case 3
    then have "members (q # rest) \<union> {f..s} = {f..s} \<union> members rest" using Cons.prems rest by (auto simp: q)
    then show ?thesis using 3 Cons.IH Cons.prems rest by (auto simp: q)
  qed
qed (auto simp: holder_ok_Cons)

lemma add_interval_ok:
  assumes ok: "holder_ok mx h" and "low \<le> high" and "high \<le> mx"
  shows "holder_ok mx (add_interval mx low high h) \<and> members (add_interval mx low high h) = members h \<union> {low..high}"
  using ok
proof (cases rule: start_element_split [where low = low])
  case (found a f s b)
  have ab: "holder_ok mx a" "holder_ok mx b" "f \<le> s" "s \<le> mx" "\<forall>p\<in>set a. snd p + 1 < f" "\<forall>p\<in>set b. s + 1 < fst p"
    using ok by (auto simp: found(1) holder_ok_append holder_ok_Cons)
  have start: "start_element low (a @ (f, s) # b) = length a" using found(1,2) by simp
  show ?thesis
  proof (cases "safe_next mx s < low")
    case True
    then have s: "s + 1 < low" using assms(2,3) by (auto simp: safe_next_def split: if_splits)
    have "holder_insert (low, high) ((a @ [(f, s)]) @ b) = ((a @ [(f, s)]) @ (low, high) # b, length (a @ [(f, s)]))"
      using found ab s holder_ok_bounds [OF ab(1)] by (intro holder_insert_pos) force+
    then have eq: "add_interval mx low high h
        = a @ (f, s) # remove_overlapped high (safe_next mx high) (low, high) b"
      using True start by (simp add: add_interval_def found(1) Let_def nth_append)
    show ?thesis
      using remove_overlapped_ok [of mx b low high high] ab s found(4) assms
      unfolding eq by (fastforce simp: holder_ok_append holder_ok_Cons found(1))
  next
    case False
    then have s: "low \<le> s + 1" by (auto simp: safe_next_def split: if_splits)
    have "add_interval mx low high h = a @ remove_overlapped high (safe_next mx high) (f, max s high) b"
      using False found(3) start by (auto simp: add_interval_def found(1) Let_def nth_append list_update_append max_def)
    moreover have "{f..max s high} = {f..s} \<union> {low..high}" using s ab found(3) assms(2) by auto
    ultimately show ?thesis
      using remove_overlapped_ok [of mx b f "max s high" high] ab found(3,4) assms
      by (fastforce simp: holder_ok_append found(1))
  qed
next
  case front
  have "holder_insert (low, high) ([] @ h) = ([] @ (low, high) # h, length ([] :: holder))"
    using front by (intro holder_insert_pos) simp_all
  then have "add_interval mx low high h = remove_overlapped high (safe_next mx high) (low, high) h"
    using front by (cases h) (simp_all add: add_interval_def Let_def)
  then show ?thesis using remove_overlapped_ok [of mx h low high high] ok front assms by auto
qed

section \<open>Removing\<close>

text \<open>
  The values that a removal takes out: those of the interval, but an interval that consists of the
  largest value of the type alone is not reached if that value is the high bound.
\<close>

definition removed :: "int \<Rightarrow> int \<Rightarrow> int \<Rightarrow> holder \<Rightarrow> int set" where
  "removed mx low high h = {low..high} - (if high = mx \<and> (mx, mx) \<in> set h then {mx} else {})"

lemma removed_Cons: "(f, s) \<noteq> (mx, mx) \<Longrightarrow> removed mx low high ((f, s) # h) = removed mx low high h"
  by (auto simp: removed_def)

lemma members_above: "\<forall>p\<in>set h. x < fst p \<Longrightarrow> y \<le> x \<Longrightarrow> y \<notin> members h"
  by (force simp: members_def)

lemma members_below: "\<forall>p\<in>set h. snd p < x \<Longrightarrow> x \<le> y \<Longrightarrow> y \<notin> members h"
  by (force simp: members_def)

lemma remove_loop_ok:
  assumes "holder_ok mx h" and "low \<le> high" and "high \<le> mx" and "hn = safe_next mx high"
  shows "holder_ok mx (remove_loop low high hn h) \<and>
    members (remove_loop low high hn h) = members h - removed mx low high h \<and>
    (\<forall>q\<in>set (remove_loop low high hn h). \<exists>p\<in>set h. fst p \<le> fst q)"
  using assms
proof (induction low high hn h rule: remove_loop.induct)
  case step: (2 low high hn f s rest)
  have rest: "holder_ok mx rest" "f \<le> s" "s \<le> mx" "\<forall>p\<in>set rest. s + 1 < fst p"
    using step(5) by (auto simp: holder_ok_Cons)
  have ins: "fst (holder_insert (hn, s) rest) = (hn, s) # rest" if "s > high"
    using holder_insert_pos [of "[]" hn rest s] rest that step(7,8) by (fastforce simp: safe_next_def split: if_splits)
  have hn: "hn = high + 1 \<and> high \<noteq> mx" if "s > high" using that rest step(8) by (simp add: safe_next_def)
  consider "f \<ge> hn" | "f < hn" "low \<le> f" "s \<le> high" | "f < hn" "low \<le> f" "s > high"
    | "f < hn" "f < low" "s < low" | "f < hn" "f < low" "low \<le> s" "s \<le> high" | "f < hn" "f < low" "low \<le> s" "s > high"
    by linarith
  then show ?case
  proof cases
    case 1
    have "\<forall>p\<in>set rest. high < fst p" using 1 rest step(8) by (fastforce simp: safe_next_def split: if_splits)
    then have "members rest \<inter> {low..high} = {}" using members_above [of rest high] by auto
    moreover have "{f..s} \<inter> removed mx low high ((f, s) # rest) = {}"
      using 1 rest step(8) by (auto simp: removed_def safe_next_def split: if_splits)
    moreover have "removed mx low high ((f, s) # rest) \<subseteq> {low..high}" by (auto simp: removed_def)
    ultimately show ?thesis using 1 step(5) by auto
  next
    case 2
    then have "(f, s) \<noteq> (mx, mx)" "{f..s} \<subseteq> removed mx low high rest"
      using rest step(7,8) by (auto simp: removed_def safe_next_def split: if_splits)
    then show ?thesis using 2 step.IH(1) rest step.prems by (auto simp: removed_Cons)
  next
    case 3
    have "members rest \<inter> {low..high} = {}" using members_above [of rest high] rest 3 by fastforce
    then show ?thesis using 3 rest hn ins by (auto simp: holder_ok_Cons removed_def)
  next
    case 4
    then have "(f, s) \<noteq> (mx, mx)" "{f..s} \<inter> removed mx low high rest = {}" using step.prems by (auto simp: removed_def)
    then show ?thesis using 4 step.IH(2) rest step.prems by (fastforce simp: removed_Cons holder_ok_Cons)
  next
    case 5
    have X: "removed mx low high ((f, s) # rest) = removed mx low high rest" 
      "removed mx low high ((f, low - 1) # rest) = removed mx low high rest"
      using 5 step.prems by (auto simp: removed_Cons)
    have "{low..s} \<subseteq> removed mx low high rest" 
      using 5 rest step.prems by (auto simp: removed_def)
    moreover have "{f..low - 1} \<union> {low..s} = {f..s}" using 5 by auto
    moreover have "holder_ok mx ((f, low - 1) # rest)" using 5 rest step.prems by (auto simp: holder_ok_Cons)
    note step.IH(3) [OF 5(1) _ _ 5(4) this step.prems(2-)]
    moreover have "remove_loop low high hn ((f, s) # rest) = remove_loop low high hn ((f, low - 1) # rest)"
      using 5 by simp
    ultimately show ?thesis using 5 by (auto simp: X simp del: remove_loop.simps)
  next
    case 6
    have "holder_ok mx ((f, low - 1) # (hn, s) # rest)" using 6 rest hn step.prems by (auto simp: holder_ok_Cons)
    note step.IH(4) [unfolded ins [OF 6(4)], OF 6(1) _ _ _ this step.prems(2-)]
    moreover have "remove_loop low high hn ((f, s) # rest) = remove_loop low high hn ((f, low - 1) # (hn, s) # rest)"
      using 6 ins by simp
    moreover have "removed mx low high h = {low..high}" for h using hn 6 by (simp add: removed_def)
    moreover have "{f..s} - {low..high} = {f..low - 1} \<union> {hn..s}" using 6 hn by auto
    ultimately show ?thesis using 6 hn by (auto simp del: remove_loop.simps)
  qed
qed simp

section \<open>The set\<close>

definition CompressedSet_set :: "CompressedSet \<Rightarrow> int set" where
  "CompressedSet_set cs = members (holder cs)"

definition CompressedSet_ok :: "int \<Rightarrow> CompressedSet \<Rightarrow> bool" where
  "CompressedSet_ok mx cs \<longleftrightarrow>
     holder_ok mx (holder cs) \<and> (\<forall>i. last_found cs = Some i \<longrightarrow> i < length (holder cs))"

lemma CompressedSet_add_ok:
  assumes "CompressedSet_ok mx cs" and "high \<le> mx"
  shows "CompressedSet_ok mx (CompressedSet_add mx low high cs) \<and>
    CompressedSet_set (CompressedSet_add mx low high cs) = CompressedSet_set cs \<union> {low..high}"
  using assms add_interval_ok [of mx "holder cs" low high]
  by (cases "low \<le> high") (simp_all add: CompressedSet_add_def CompressedSet_ok_def CompressedSet_set_def)

lemma remove_interval_ok:
  assumes ok: "holder_ok mx h" and "low \<le> high" and "high \<le> mx"
  defines "h' \<equiv> take (start_element low h) h @ remove_loop low high (safe_next mx high) (drop (start_element low h) h)"
  shows "holder_ok mx h' \<and> members h' = members h - removed mx low high h"
  using ok
proof (cases rule: start_element_split [where low = low])
  case (found a f s b)
  let ?r = "remove_loop low high (safe_next mx high) ((f, s) # b)"
  have ab: "holder_ok mx a" "holder_ok mx ((f, s) # b)" "\<forall>p\<in>set a. snd p + 1 < f" "\<forall>p\<in>set b. s + 1 < fst p" "f \<le> s"
    using ok by (auto simp: found(1) holder_ok_append holder_ok_Cons)
  have h': "h' = a @ ?r" unfolding h'_def found(2) by (simp add: found(1) del: remove_loop.simps)
  note r = remove_loop_ok [OF ab(2) assms(2,3) refl]
  have "members a \<inter> {low..high} = {}" using members_below [of a low] ab(3) found(3) by fastforce
  moreover have "removed mx low high h = removed mx low high ((f, s) # b)"
    using ab(1,3) assms(2,3) found(3) holder_ok_bounds [OF ab(1), of "(mx, mx)"] by (auto simp: removed_def found(1))
  moreover have "removed mx low high h \<subseteq> {low..high}" by (auto simp: removed_def)
  moreover have "f \<le> fst q" if "q \<in> set ?r" for q using r that ab(4,5) by fastforce
  ultimately show ?thesis
    using r ab unfolding h' by (fastforce simp: holder_ok_append found(1) simp del: remove_loop.simps)
next
  case front
  then show ?thesis using remove_loop_ok [OF ok assms(2,3) refl] by (simp add: h'_def)
qed

lemma CompressedSet_remove_ok:
  assumes "CompressedSet_ok mx cs" and "high \<le> mx"
  shows "CompressedSet_ok mx (CompressedSet_remove mx low high cs) \<and>
    CompressedSet_set (CompressedSet_remove mx low high cs) = CompressedSet_set cs - removed mx low high (holder cs)"
  using assms remove_interval_ok [of mx "holder cs" low high]
  by (cases "low \<le> high") (auto simp: CompressedSet_remove_def CompressedSet_ok_def CompressedSet_set_def Let_def removed_def)

text \<open>The elements around the position found by \<^verbatim>\<open>lower_bound\<close>.\<close>

lemma lower_bound_member:
  assumes ok: "holder_ok mx h" and i: "i = lower_bound v h"
  shows "i < length h \<Longrightarrow> v \<le> fst (h ! i)"
    and "0 < i \<Longrightarrow> fst (h ! (i - 1)) < v"
    and "v \<in> members h \<longleftrightarrow> (i < length h \<and> fst (h ! i) = v) \<or> (0 < i \<and> v \<le> snd (h ! (i - 1)))"
    and "i \<le> length h"
proof -
  obtain a b where ab: "h = a @ b" "lower_bound v h = length a" "\<forall>p\<in>set a. fst p < v" "\<forall>p\<in>set b. v \<le> fst p"
    by (rule lower_bound_split [OF ok])
  have i: "i = length a" using i ab(2) by simp
  show "v \<le> fst (h ! i)" if "i < length h" using ab(1,4) i that by (simp add: nth_append)
  show "fst (h ! (i - 1)) < v" if "0 < i" using ab(1,3) i that by (simp add: nth_append)
  show "i \<le> length h" using ab(1) i by simp
  have "v \<in> members b \<longleftrightarrow> b \<noteq> [] \<and> fst (hd b) = v"
    using ok ab(4) members_above [of "tl b" v v] by (cases b) (fastforce simp: ab(1) holder_ok_append holder_ok_Cons)+
  moreover have "v \<in> members a \<longleftrightarrow> a \<noteq> [] \<and> v \<le> snd (last a)"
  proof (cases a rule: rev_cases)
    case (snoc a' p)
    have "\<forall>q\<in>set a'. snd q < v" using ok ab(3) snoc by (fastforce simp: ab(1) holder_ok_append holder_ok_Cons)
    then have "v \<notin> members a'" using members_below [of a' v v] by simp
    then show ?thesis using ab(3) snoc by auto
  qed simp
  moreover have "(i < length h \<and> fst (h ! i) = v) = (b \<noteq> [] \<and> fst (hd b) = v)"
    by (cases b) (simp_all add: i ab(1))
  moreover have "(0 < i \<and> v \<le> snd (h ! (i - 1))) = (a \<noteq> [] \<and> v \<le> snd (last a))"
    by (cases a rule: rev_cases) (simp_all add: i ab(1) nth_append)
  ultimately show "v \<in> members h \<longleftrightarrow> (i < length h \<and> fst (h ! i) = v) \<or> (0 < i \<and> v \<le> snd (h ! (i - 1)))"
    by (auto simp: ab(1))
qed

text \<open>The values next to a stored interval are not in the set.\<close>

lemma members_gap:
  assumes "holder_ok mx h" and "i < length h"
  shows "snd (h ! i) + 1 \<notin> members h" and "fst (h ! i) - 1 \<notin> members h"
    and "{fst (h ! i)..snd (h ! i)} \<subseteq> members h"
proof -
  obtain a p b where h: "h = a @ p # b" "p = h ! i" using id_take_nth_drop [OF assms(2)] by metis
  have ab: "\<forall>q\<in>set a. snd q + 1 < fst p" "\<forall>q\<in>set b. snd p + 1 < fst q" "fst p \<le> snd p"
    using assms(1) by (auto simp: h(1) holder_ok_append holder_ok_Cons)
  have "\<forall>q\<in>set a. snd q < fst p - 1" using ab(1) by force
  then have "snd p + 1 \<notin> members h" "fst p - 1 \<notin> members h" "{fst p..snd p} \<subseteq> members h"
    using ab members_below [of a "fst p - 1"] members_above [of b "snd p + 1"] by (auto simp: h(1))
  then show "snd (h ! i) + 1 \<notin> members h" "fst (h ! i) - 1 \<notin> members h" "{fst (h ! i)..snd (h ! i)} \<subseteq> members h"
    by (simp_all add: h(2))
qed

lemma CompressedSet_belongs_ok:
  assumes "CompressedSet_ok mx cs"
  shows "fst (CompressedSet_belongs v cs) = (v \<in> CompressedSet_set cs) \<and>
    CompressedSet_ok mx (snd (CompressedSet_belongs v cs)) \<and>
    CompressedSet_set (snd (CompressedSet_belongs v cs)) = CompressedSet_set cs"
proof -
  have ok: "holder_ok mx (holder cs)" using assms by (simp add: CompressedSet_ok_def)
  note lb = lower_bound_member [OF ok refl, of v]
  have cached: "v \<in> members (holder cs)" if "last_found cs = Some i" "fst (holder cs ! i) \<le> v" "v \<le> snd (holder cs ! i)" for i
    using that assms by (auto simp: members_def CompressedSet_ok_def intro!: bexI [of _ "holder cs ! i"])
  show ?thesis
    using assms lb cached
    by (auto simp: CompressedSet_belongs_def CompressedSet_set_def CompressedSet_ok_def Let_def split: option.splits)
qed

lemma holder_ok_mono:
  assumes "holder_ok mx h" and "i \<le> j" and "j < length h"
  shows "fst (h ! i) \<le> fst (h ! j)" and "snd (h ! i) \<le> snd (h ! j)"
proof -
  have "snd (h ! i) + 1 < fst (h ! j) \<or> i = j"
    using assms sorted_wrt_nth_less [of _ h i j] by (force simp: holder_ok_def)
  moreover have "fst (h ! i) \<le> snd (h ! i)" "fst (h ! j) \<le> snd (h ! j)" using assms by (simp_all add: holder_ok_def)
  ultimately show "fst (h ! i) \<le> fst (h ! j)" and "snd (h ! i) \<le> snd (h ! j)" by auto
qed

lemma CompressedSet_check_presence_ok:
  assumes "CompressedSet_ok mx cs" and "low \<le> high"
  shows "CompressedSet_check_presence low high cs =
    (if {low..high} \<subseteq> CompressedSet_set cs then CS_ALL
     else if {low..high} \<inter> CompressedSet_set cs = {} then CS_NONE else CS_SOME)"
proof -
  let ?h = "holder cs" and ?i = "lower_bound low (holder cs)"
  have ok: "holder_ok mx ?h" using assms(1) by (simp add: CompressedSet_ok_def)
  note lb = lower_bound_member [OF ok refl, of low] and gap = members_gap [OF ok]
  define M where "M = members ?h"
  have some: "\<not> {low..high} \<subseteq> M \<and> {low..high} \<inter> M \<noteq> {}"
    if "x \<in> M" "low \<le> x" "x \<le> high" "y \<notin> M" "low \<le> y" "y \<le> high" for x y using that by auto
  note defs = CompressedSet_check_presence_def CompressedSet_set_def M_def [symmetric] Let_def
  consider "?i < length ?h" "fst (?h ! ?i) = low" "high \<le> snd (?h ! ?i)"
    | "?i < length ?h" "fst (?h ! ?i) = low" "snd (?h ! ?i) < high"
    | "?i < length ?h" "low < fst (?h ! ?i)" "fst (?h ! ?i) \<le> high"
    | "?i < length ?h \<longrightarrow> high < fst (?h ! ?i)" "0 < ?i" "snd (?h ! (?i - 1)) \<ge> high"
    | "?i < length ?h \<longrightarrow> high < fst (?h ! ?i)" "0 < ?i" "low \<le> snd (?h ! (?i - 1))" "snd (?h ! (?i - 1)) < high"
    | "?i < length ?h \<longrightarrow> high < fst (?h ! ?i)" "0 < ?i \<longrightarrow> snd (?h ! (?i - 1)) < low"
    using lb(1) by (cases "?i < length ?h"; cases "0 < ?i") (linarith | simp)+
  then show ?thesis
  proof cases
    case 1
    then have "{low..high} \<subseteq> M" using gap(3) by (fastforce simp: M_def)
    then show ?thesis using 1 assms(2) by (simp add: defs)
  next
    case 2
    then have "low \<in> M" "snd (?h ! ?i) + 1 \<notin> M" "low \<le> snd (?h ! ?i) + 1"
      using gap [of ?i] holder_ok_bounds [OF ok, of "?h ! ?i"] by (auto simp: M_def)
    then show ?thesis using 2 assms(2) some [of low "snd (?h ! ?i) + 1"] by (simp add: defs)
  next
    case 3
    then have "fst (?h ! ?i) \<in> M" "fst (?h ! ?i) - 1 \<notin> M"
      using gap [of ?i] holder_ok_bounds [OF ok, of "?h ! ?i"] by (auto simp: M_def)
    then show ?thesis using 3 assms(2) some [of "fst (?h ! ?i)" "fst (?h ! ?i) - 1"] by (simp add: defs)
  next
    case 4
    then have "{low..high} \<subseteq> M" using gap(3) [of "?i - 1"] lb(2,4) by (force simp: M_def)
    then show ?thesis using 4 assms(2) lb(4) by (auto simp: defs)
  next
    case 5
    then have "low \<in> M" "snd (?h ! (?i - 1)) + 1 \<notin> M"
      using gap [of "?i - 1"] lb(3,4) by (auto simp: M_def)
    then show ?thesis using 5 assms(2) some [of low "snd (?h ! (?i - 1)) + 1"] by (auto simp: defs)
  next
    case 6
    have "x < low \<or> high < x" if x: "x \<in> M" for x
    proof -
      obtain p where p: "p \<in> set ?h" "fst p \<le> x" "x \<le> snd p"
        using x members_bounds [of x ?h] unfolding M_def by blast
      obtain j where "j < length ?h" "?h ! j = p" using p(1) by (auto simp: in_set_conv_nth)
      with p have j: "j < length ?h" "fst (?h ! j) \<le> x" "x \<le> snd (?h ! j)" by simp_all
      show ?thesis
      proof (cases "j < ?i")
        case True
        then have "snd (?h ! j) \<le> snd (?h ! (?i - 1))" using holder_ok_mono [OF ok, of j "?i - 1"] lb(4) by simp
        then show ?thesis using True 6 j by auto
      next
        case False
        then have "fst (?h ! ?i) \<le> fst (?h ! j)" using holder_ok_mono [OF ok, of ?i j] j by simp
        then show ?thesis using False 6 j by auto
      qed
    qed
    then have "{low..high} \<inter> M = {}" "\<not> {low..high} \<subseteq> M" using assms(2) by force+
    then show ?thesis using 6 assms(2) by (auto simp: defs)
  qed
qed

section \<open>Interval operations\<close>

text \<open>An operation that combines the set with an interval; applied to all intervals of a list.\<close>

locale interval_op =
  fixes invar :: "'s \<Rightarrow> bool" and elems :: "'s \<Rightarrow> int set" and bounded :: "int \<Rightarrow> bool"
    and upd :: "int \<Rightarrow> int \<Rightarrow> 's \<Rightarrow> 's" and comb :: "int set \<Rightarrow> int set \<Rightarrow> int set"
  assumes upd_invar: "invar s \<Longrightarrow> bounded high \<Longrightarrow> invar (upd low high s)"
    and upd_elems: "invar s \<Longrightarrow> bounded high \<Longrightarrow> elems (upd low high s) = comb (elems s) {low..high}"
    and comb_empty: "comb A {} = A"
    and comb_union: "comb (comb A B) C = comb A (B \<union> C)"
begin

lemma fold_upd:
  "invar s \<Longrightarrow> \<forall>p\<in>set ps. bounded (snd p) \<Longrightarrow>
   invar (fold (\<lambda>(low, high). upd low high) ps s) \<and>
   elems (fold (\<lambda>(low, high). upd low high) ps s) = comb (elems s) (\<Union>p\<in>set ps. {fst p..snd p})"
proof (induction ps arbitrary: s)
  case (Cons p ps)
  then show ?case
    using upd_invar [of s "snd p" "fst p"] upd_elems [of s "snd p" "fst p"]
    by (cases p) (simp add: comb_union)
qed (simp add: comb_empty)

end

interpretation cs_add: interval_op "CompressedSet_ok mx" CompressedSet_set "\<lambda>high. high \<le> mx" "CompressedSet_add mx" "(\<union>)" for mx
  by unfold_locales (use CompressedSet_add_ok in auto)

interpretation cs_remove: interval_op "CompressedSet_ok mx" CompressedSet_set "\<lambda>high. high < mx" "CompressedSet_remove mx" "(-)" for mx
  by unfold_locales (use CompressedSet_remove_ok in \<open>auto simp: removed_def\<close>)

datatype cs_op =
  CsAdd int int | CsAddSet CompressedSet | CsRemove int int | CsRemoveSet CompressedSet | CsClear | CsBelongs int

fun CompressedSet_exec :: "int \<Rightarrow> cs_op \<Rightarrow> CompressedSet \<Rightarrow> CompressedSet" where
  "CompressedSet_exec mx (CsAdd low high) cs = CompressedSet_add mx low high cs"
| "CompressedSet_exec mx (CsAddSet cset) cs = CompressedSet_add_set mx False cset cs"
| "CompressedSet_exec mx (CsRemove low high) cs = CompressedSet_remove mx low high cs"
| "CompressedSet_exec mx (CsRemoveSet cset) cs = CompressedSet_remove_set mx False cset cs"
| "CompressedSet_exec mx CsClear cs = CompressedSet_clear cs"
| "CompressedSet_exec mx (CsBelongs v) cs = snd (CompressedSet_belongs v cs)"

fun cs_op_ok :: "int \<Rightarrow> cs_op \<Rightarrow> bool" where
  "cs_op_ok mx (CsAdd low high) = (high \<le> mx)"
| "cs_op_ok mx (CsAddSet cset) = CompressedSet_ok mx cset"
| "cs_op_ok mx (CsRemove low high) = (high < mx)"
| "cs_op_ok mx (CsRemoveSet cset) = (CompressedSet_ok mx cset \<and> mx \<notin> CompressedSet_set cset)"
| "cs_op_ok mx _ = True"

fun set_exec :: "cs_op \<Rightarrow> int set \<Rightarrow> int set" where
  "set_exec (CsAdd low high) A = A \<union> {low..high}"
| "set_exec (CsAddSet cset) A = A \<union> CompressedSet_set cset"
| "set_exec (CsRemove low high) A = A - {low..high}"
| "set_exec (CsRemoveSet cset) A = A - CompressedSet_set cset"
| "set_exec CsClear A = {}"
| "set_exec (CsBelongs v) A = A"

definition cs_step :: "int \<Rightarrow> cs_op \<Rightarrow> CompressedSet \<Rightarrow> CompressedSet \<Rightarrow> bool" where
  "cs_step mx op cs cs' \<longleftrightarrow> cs_op_ok mx op \<and> cs' = CompressedSet_exec mx op cs"

lemma holder_ok_less: "holder_ok mx h \<Longrightarrow> mx \<notin> members h \<Longrightarrow> \<forall>p\<in>set h. snd p < mx"
  by (force simp: holder_ok_def members_def)

lemma CompressedSet_exec_ok:
  assumes "CompressedSet_ok mx cs" and "cs_op_ok mx op"
  shows "CompressedSet_ok mx (CompressedSet_exec mx op cs) \<and>
    CompressedSet_set (CompressedSet_exec mx op cs) = set_exec op (CompressedSet_set cs)"
proof (cases op)
  case (CsAddSet cset)
  then have "\<forall>p\<in>set (holder cset). snd p \<le> mx" using assms by (simp add: CompressedSet_ok_def holder_ok_def)
  then show ?thesis
    using cs_add.fold_upd [OF assms(1)] CsAddSet by (simp add: CompressedSet_add_set_def CompressedSet_set_def members_def)
next
  case (CsRemoveSet cset)
  then have "\<forall>p\<in>set (holder cset). snd p < mx"
    using assms by (intro holder_ok_less) (simp_all add: CompressedSet_ok_def CompressedSet_set_def)
  then show ?thesis
    using cs_remove.fold_upd [OF assms(1)] CsRemoveSet by (simp add: CompressedSet_remove_set_def CompressedSet_set_def members_def)
qed (use assms CompressedSet_belongs_ok [OF assms(1)] cs_add.upd_invar [OF assms(1)] cs_add.upd_elems [OF assms(1)]
      cs_remove.upd_invar [OF assms(1)] cs_remove.upd_elems [OF assms(1)] in
    \<open>auto simp: CompressedSet_clear_def CompressedSet_ok_def CompressedSet_set_def\<close>)

interpretation cs: simulation "CompressedSet_ok mx" "cs_step mx" CompressedSet_set "\<lambda>op A A'. A' = set_exec op A" for mx
  by unfold_locales (use CompressedSet_exec_ok in \<open>auto simp: cs_step_def\<close>)

lemma runs_fold: "runs (\<lambda>l s s'. s' = f l s) s ls s' \<longleftrightarrow> s' = fold f ls s"
  by (induction ls arbitrary: s) auto

lemma CompressedSet_new_ok: "CompressedSet_ok mx CompressedSet_new" "CompressedSet_set CompressedSet_new = {}"
  by (simp_all add: CompressedSet_ok_def CompressedSet_set_def CompressedSet_new_def)

section \<open>Properties\<close>

text \<open>
  (C2) Refinement: after any sequence of operations the compressed set represents the set obtained by
  the set operations, its intervals are nonempty, ordered and separated by gaps, and \<^verbatim>\<open>belongs\<close> (with its
  cache) and \<^verbatim>\<open>check_presence\<close> answer for that set. Values are at most the largest value of the type,
  removed ones below it.
\<close>
theorem CompressedSet_refines_set:
  assumes "runs (cs_step mx) CompressedSet_new ops cs"
  shows "CompressedSet_set cs = fold set_exec ops {} \<and>
    sorted_wrt (\<lambda>p q. snd p + 1 < fst q) (holder cs) \<and> list_all (\<lambda>p. fst p \<le> snd p) (holder cs) \<and>
    fst (CompressedSet_belongs v cs) = (v \<in> CompressedSet_set cs) \<and>
    CompressedSet_check_presence low high cs =
      (if high < low then CS_NONE
       else if {low..high} \<subseteq> CompressedSet_set cs then CS_ALL
       else if {low..high} \<inter> CompressedSet_set cs = {} then CS_NONE else CS_SOME)"
proof -
  have ok: "CompressedSet_ok mx cs" by (rule cs.run_invar [OF assms CompressedSet_new_ok(1)])
  have "CompressedSet_set cs = fold set_exec ops {}"
    using cs.run_refines [OF assms CompressedSet_new_ok(1)] by (simp add: runs_fold CompressedSet_new_ok)
  moreover have "CompressedSet_check_presence low high cs = CS_NONE" if "high < low"
    using that by (simp add: CompressedSet_check_presence_def)
  ultimately show ?thesis
    using CompressedSet_belongs_ok [OF ok, of v] CompressedSet_check_presence_ok [OF ok, of low high] ok
    by (auto simp: CompressedSet_ok_def holder_ok_def list_all_iff)
qed

theorem CompressedSet_refines_set_witness:
  "runs (cs_step 255) CompressedSet_new [CsAdd 1 10, CsRemove 4 5, CsAdd 6 20] \<lparr>holder = [(1, 3), (6, 20)], last_found = None\<rparr> \<and>
   CompressedSet_set \<lparr>holder = [(1, 3), (6, 20)], last_found = None\<rparr> = {1..10} - {4..5} \<union> {6..20}"
proof -
  have r: "runs (cs_step 255) CompressedSet_new [CsAdd 1 10, CsRemove 4 5, CsAdd 6 20] \<lparr>holder = [(1, 3), (6, 20)], last_found = None\<rparr>"
    by (simp add: cs_step_def) code_simp
  show ?thesis using r CompressedSet_refines_set [OF r] by simp
qed

text \<open>
  (C32) A removal that ends at the largest value of the type removes everything in the interval except
  that an interval consisting of this value alone stays in the set.
\<close>
theorem CompressedSet_remove_max:
  assumes "CompressedSet_ok mx cs" and "low \<le> mx"
  shows "CompressedSet_set (CompressedSet_remove mx low mx cs) =
    CompressedSet_set cs - {low..mx} \<union> (if (mx, mx) \<in> set (holder cs) then {mx} else {})"
proof -
  have "mx \<in> CompressedSet_set cs" if "(mx, mx) \<in> set (holder cs)"
    using that by (force simp: CompressedSet_set_def members_def)
  then show ?thesis using CompressedSet_remove_ok [OF assms(1), of mx low] assms(2) by (auto simp: removed_def)
qed

theorem CompressedSet_remove_max_witness:
  "CompressedSet_set (CompressedSet_remove 255 255 255 (CompressedSet_add 255 255 255 CompressedSet_new)) = {255}"
proof -
  have "CompressedSet_add 255 255 255 CompressedSet_new = \<lparr>holder = [(255, 255)], last_found = None\<rparr>"
    by code_simp
  then show ?thesis
    using CompressedSet_remove_max [of 255 "CompressedSet_add 255 255 255 CompressedSet_new" 255]
      CompressedSet_add_ok [of 255 CompressedSet_new 255 255] CompressedSet_new_ok by simp
qed

end
