(* ===== verification/Thread_Runner.thy ===== *)
theory Thread_Runner
  imports Prelude
begin

text \<open>
  \<^verbatim>\<open>Sync::Semaphore\<close> (src/src/Sync/Semaphore.hpp) and \<^verbatim>\<open>Generics::ThreadRunner\<close>
  (src/src/Generics/ThreadRunner.cpp): a fixed number of threads that are created one by one, wait at a
  semaphore until all of them exist, and then execute their jobs.

  The threads and the one thread that controls the runner interleave: the model is a step relation.
  Creating a thread may fail; joining a thread waits until its function has returned. The virtual
  callbacks around a job do not touch the runner and are part of the job.
\<close>

section \<open>Semaphore\<close>

text \<open>\<open>None\<close>: the caller stays blocked. Negative counts are possible, as in the code.\<close>

definition Semaphore_acquire :: "int \<Rightarrow> int option" where
  "Semaphore_acquire count = (if count \<le> 0 then None else Some (count - 1))"

definition Semaphore_try_acquire :: "int \<Rightarrow> bool \<times> int" where
  "Semaphore_try_acquire count = (if count > 0 then (True, count - 1) else (False, count))"

text \<open>\<open>has_time\<close>: a time is given; \<open>timed_out\<close>: the wait on the condition runs into it.\<close>

definition Semaphore_timed_acquire :: "bool \<Rightarrow> bool \<Rightarrow> int \<Rightarrow> (bool \<times> int) option" where
  "Semaphore_timed_acquire has_time timed_out count =
     (if \<not> has_time then map_option (Pair True) (Semaphore_acquire count)
      else if count \<le> 0 then if timed_out then Some (False, count) else None
      else Some (True, count - 1))"

text \<open>The new count, and whether a waiting thread is signalled.\<close>

definition Semaphore_release :: "int \<Rightarrow> int \<times> bool" where
  "Semaphore_release count = (count + 1, count + 1 > 0)"

section \<open>The runner\<close>

text \<open>
  A thread is before the semaphore, between acquire and release, about to look at \<^verbatim>\<open>interrupt_start_\<close>,
  executing its job, or finished. The controlling thread is outside of the runner, creates threads
  up to a number, or joins them; the flag says that it does so because starting failed.
\<close>

datatype job_state = J_Acquire | J_Release | J_Check | J_Work | J_Done

datatype runner_pc = R_Idle | R_Creating nat | R_Joining bool

datatype runner_error = AlreadyStarted | PosixException

record ThreadRunner =
  start_semaphore :: int
  number_running :: nat
  interrupt_start :: bool
  number_of_jobs :: nat
  jobs :: "job_state list"
  runner_pc :: runner_pc

definition ThreadRunner_new :: "nat \<Rightarrow> ThreadRunner" where
  "ThreadRunner_new n = \<lparr>start_semaphore = 0, number_running = 0, interrupt_start = False,
     number_of_jobs = n, jobs = [], runner_pc = R_Idle\<rparr>"

definition thread_func :: "nat \<Rightarrow> ThreadRunner \<Rightarrow> ThreadRunner option" where
  "thread_func i tr =
     (case jobs tr ! i of
        J_Acquire \<Rightarrow>
          map_option (\<lambda>c. tr\<lparr>start_semaphore := c, jobs := (jobs tr)[i := J_Release]\<rparr>)
            (Semaphore_acquire (start_semaphore tr))
      | J_Release \<Rightarrow>
          Some (tr\<lparr>start_semaphore := fst (Semaphore_release (start_semaphore tr)), jobs := (jobs tr)[i := J_Check]\<rparr>)
      | J_Check \<Rightarrow> Some (tr\<lparr>jobs := (jobs tr)[i := if interrupt_start tr then J_Done else J_Work]\<rparr>)
      | J_Work \<Rightarrow> Some (tr\<lparr>jobs := (jobs tr)[i := J_Done]\<rparr>)
      | J_Done \<Rightarrow> None)"

definition start_one_thread :: "bool \<Rightarrow> ThreadRunner \<Rightarrow> runner_error + ThreadRunner" where
  "start_one_thread created tr =
     (if created then Inr (tr\<lparr>jobs := jobs tr @ [J_Acquire], number_running := number_running tr + 1\<rparr>)
      else Inl PosixException)"

text \<open>\<^verbatim>\<open>wait_for_completion\<close>: nothing to do without threads; otherwise the threads are joined, and then the semaphore acquired.\<close>

definition wait_begin :: "bool \<Rightarrow> ThreadRunner \<Rightarrow> ThreadRunner" where
  "wait_begin failing tr =
     (if number_running tr \<noteq> 0 then tr\<lparr>runner_pc := R_Joining failing\<rparr> else tr\<lparr>runner_pc := R_Idle\<rparr>)"

definition wait_end :: "ThreadRunner \<Rightarrow> ThreadRunner option" where
  "wait_end tr =
     (if \<forall>j\<in>set (jobs tr). j = J_Done
      then map_option (\<lambda>c. tr\<lparr>start_semaphore := c, number_running := 0, jobs := [], runner_pc := R_Idle\<rparr>)
             (Semaphore_acquire (start_semaphore tr))
      else None)"

text \<open>\<^verbatim>\<open>start\<close>: its guard, and one pass of its loop with the handler of a failed creation.\<close>

definition start_begin :: "nat \<Rightarrow> ThreadRunner \<Rightarrow> runner_error + ThreadRunner" where
  "start_begin to_start tr =
     (if number_running tr \<noteq> 0 then Inl AlreadyStarted
      else Inr (tr\<lparr>interrupt_start := False,
             runner_pc := R_Creating (if to_start = 0 \<or> to_start > number_of_jobs tr then number_of_jobs tr else to_start)\<rparr>))"

definition start_loop :: "nat \<Rightarrow> bool \<Rightarrow> ThreadRunner \<Rightarrow> ThreadRunner" where
  "start_loop to_start created tr =
     (if number_running tr < to_start then
        case start_one_thread created tr of
          Inr tr \<Rightarrow> tr
        | Inl _ \<Rightarrow>
            wait_begin True
              (tr\<lparr>interrupt_start := True, start_semaphore := fst (Semaphore_release (start_semaphore tr))\<rparr>)
      else tr\<lparr>start_semaphore := fst (Semaphore_release (start_semaphore tr)), runner_pc := R_Idle\<rparr>)"

definition start_one :: "bool \<Rightarrow> ThreadRunner \<Rightarrow> runner_error + ThreadRunner" where
  "start_one created tr =
     (if number_running tr = number_of_jobs tr then Inl AlreadyStarted else start_one_thread created tr)"

text \<open>
  The steps: the protocol of the callers is that the runner is started before single threads are
  added.
\<close>

inductive tr_step :: "ThreadRunner \<Rightarrow> ThreadRunner \<Rightarrow> bool" where
  tr_thread: "i < length (jobs tr) \<Longrightarrow> thread_func i tr = Some tr' \<Longrightarrow> tr_step tr tr'"
| tr_start: "runner_pc tr = R_Idle \<Longrightarrow> start_begin to_start tr = Inr tr' \<Longrightarrow> tr_step tr tr'"
| tr_create: "runner_pc tr = R_Creating to_start \<Longrightarrow> tr_step tr (start_loop to_start created tr)"
| tr_start_one: "runner_pc tr = R_Idle \<Longrightarrow> number_running tr \<noteq> 0 \<Longrightarrow> start_one created tr = Inr tr' \<Longrightarrow> tr_step tr tr'"
| tr_wait: "runner_pc tr = R_Idle \<Longrightarrow> tr_step tr (wait_begin False tr)"
| tr_joined: "runner_pc tr = R_Joining failing \<Longrightarrow> wait_end tr = Some tr' \<Longrightarrow> tr_step tr tr'"

section \<open>The invariant\<close>

definition releasing :: "job_state list \<Rightarrow> int" where
  "releasing js = int (count_list js J_Release)"

text \<open>
  The semaphore and the threads that hold it add up to one while the threads may run, and to zero
  otherwise. No thread is past the semaphore while others are created, and none works when a
  start has failed.
\<close>

definition tr_ok :: "ThreadRunner \<Rightarrow> bool" where
  "tr_ok tr \<longleftrightarrow> length (jobs tr) = number_running tr \<and> number_running tr \<le> number_of_jobs tr \<and> 0 < number_of_jobs tr \<and>
     (case runner_pc tr of
        R_Idle \<Rightarrow> start_semaphore tr + releasing (jobs tr) = (if number_running tr = 0 then 0 else 1)
      | R_Creating t \<Rightarrow> start_semaphore tr = 0 \<and> set (jobs tr) \<subseteq> {J_Acquire} \<and> 0 < t \<and> t \<le> number_of_jobs tr \<and>
          number_running tr \<le> t \<and> \<not> interrupt_start tr
      | R_Joining failing \<Rightarrow> start_semaphore tr + releasing (jobs tr) = 1 \<and> 0 < number_running tr \<and>
          (failing \<longrightarrow> interrupt_start tr \<and> J_Work \<notin> set (jobs tr)))"

text \<open>Steps in which no start fails at its first thread.\<close>

definition tr_step_ok :: "ThreadRunner \<Rightarrow> ThreadRunner \<Rightarrow> bool" where
  "tr_step_ok tr tr' \<longleftrightarrow> tr_step tr tr' \<and>
     \<not> (number_running tr = 0 \<and> (\<exists>t. runner_pc tr = R_Creating t) \<and> interrupt_start tr')"

lemma count_list_update:
  "i < length xs \<Longrightarrow> count_list (xs[i := x]) y + (if xs ! i = y then 1 else 0) = count_list xs y + (if x = y then 1 else 0)"
proof (induction xs arbitrary: i)
  case (Cons a xs)
  show ?case using Cons.IH [of "i - 1"] Cons.prems by (cases i) (auto split: if_splits)
qed simp

lemma releasing_update:
  "i < length js \<Longrightarrow> releasing (js[i := x]) =
     releasing js - (if js ! i = J_Release then 1 else 0) + (if x = J_Release then 1 else 0)"
  using count_list_update [of i js x J_Release] by (auto simp: releasing_def split: if_splits)

lemma releasing_simps [simp]: "releasing [] = 0" "releasing (js @ [j]) = releasing js + (if j = J_Release then 1 else 0)"
  "0 \<le> releasing js"
  by (simp_all add: releasing_def)

lemma releasing_Acquire: "set js \<subseteq> {J_Acquire} \<Longrightarrow> releasing js = 0"
  by (induction js) (auto simp: releasing_def)

text \<open>What a thread changes: its own state and the semaphore.\<close>

lemma thread_func_fields:
  assumes "thread_func i tr = Some tr'"
  shows "runner_pc tr' = runner_pc tr" "number_running tr' = number_running tr" "interrupt_start tr' = interrupt_start tr"
    "number_of_jobs tr' = number_of_jobs tr" "length (jobs tr') = length (jobs tr)"
  using assms by (cases "jobs tr ! i"; auto simp: thread_func_def)+

lemma thread_func_semaphore:
  assumes "i < length (jobs tr)" and "thread_func i tr = Some tr'"
  shows "start_semaphore tr' + releasing (jobs tr') = start_semaphore tr + releasing (jobs tr)"
  using assms
  by (cases "jobs tr ! i")
    (auto simp: thread_func_def Semaphore_acquire_def Semaphore_release_def releasing_update split: if_splits)

lemma thread_func_work:
  assumes "thread_func i tr = Some tr'" and "interrupt_start tr" and "J_Work \<notin> set (jobs tr)"
  shows "J_Work \<notin> set (jobs tr')"
proof -
  have "J_Work \<notin> set ((jobs tr)[i := x])" if "x \<noteq> J_Work" for x
    using assms(3) that set_update_subset_insert [of "jobs tr" i x] by auto
  then show ?thesis using assms(1,2) by (cases "jobs tr ! i") (auto simp: thread_func_def)
qed

lemma tr_ok_thread:
  assumes ok: "tr_ok tr" and i: "i < length (jobs tr)" and st: "thread_func i tr = Some tr'"
  shows "tr_ok tr'"
proof -
  have "\<not> (\<exists>t. runner_pc tr = R_Creating t)"
  proof
    assume "\<exists>t. runner_pc tr = R_Creating t"
    then have "jobs tr ! i = J_Acquire" "start_semaphore tr = 0" using ok nth_mem [OF i] by (auto simp: tr_ok_def)
    then show False using st by (simp add: thread_func_def Semaphore_acquire_def)
  qed
  then show ?thesis
    using ok thread_func_fields [OF st] thread_func_semaphore [OF i st] thread_func_work [OF st]
    by (cases "runner_pc tr") (auto simp: tr_ok_def)
qed

lemma tr_ok_step:
  assumes "tr_step_ok tr tr'" and ok: "tr_ok tr"
  shows "tr_ok tr'"
proof -
  have "tr_step tr tr'" and first: "\<not> (number_running tr = 0 \<and> (\<exists>t. runner_pc tr = R_Creating t) \<and> interrupt_start tr')"
    using assms(1) by (simp_all add: tr_step_ok_def)
  then show ?thesis
  proof cases
    case (tr_thread i)
    then show ?thesis using tr_ok_thread [OF ok] by blast
  next
    case (tr_start to_start)
    then show ?thesis using ok by (auto simp: tr_ok_def start_begin_def split: if_splits)
  next
    case (tr_create to_start created)
    then show ?thesis
      using ok first releasing_Acquire [of "jobs tr"]
      by (cases "number_running tr < to_start"; cases created)
        (auto simp: tr_ok_def start_loop_def start_one_thread_def wait_begin_def Semaphore_release_def
          split: if_splits)
  next
    case (tr_start_one created)
    then show ?thesis
      using ok by (cases created) (auto simp: tr_ok_def start_one_def start_one_thread_def split: if_splits)
  next
    case tr_wait
    then show ?thesis using ok by (auto simp: tr_ok_def wait_begin_def)
  next
    case (tr_joined failing)
    have "releasing (jobs tr) = 0" if "\<forall>j\<in>set (jobs tr). j = J_Done"
      using that by (auto simp: releasing_def count_list_0_iff)
    then show ?thesis
      using ok tr_joined by (auto simp: tr_ok_def wait_end_def Semaphore_acquire_def split: if_splits)
  qed
qed

section \<open>Joining ends\<close>

text \<open>The steps taken while the runner joins its threads.\<close>

definition join_step :: "ThreadRunner \<Rightarrow> ThreadRunner \<Rightarrow> bool" where
  "join_step tr tr' \<longleftrightarrow> (\<exists>failing. runner_pc tr = R_Joining failing) \<and>
     ((\<exists>i<length (jobs tr). thread_func i tr = Some tr') \<or> wait_end tr = Some tr')"

fun job_weight :: "job_state \<Rightarrow> nat" where
  "job_weight J_Acquire = 4"
| "job_weight J_Release = 3"
| "job_weight J_Check = 2"
| "job_weight J_Work = 1"
| "job_weight J_Done = 0"

definition join_measure :: "ThreadRunner \<Rightarrow> nat" where
  "join_measure tr = (\<Sum>j\<leftarrow>jobs tr. job_weight j) + (if runner_pc tr = R_Idle then 0 else 1)"

lemma thread_func_measure:
  assumes "i < length (jobs tr)" and "thread_func i tr = Some tr'"
  shows "join_measure tr' < join_measure tr"
proof -
  have "(\<Sum>j\<leftarrow>(jobs tr)[i := x]. job_weight j) + job_weight (jobs tr ! i) = (\<Sum>j\<leftarrow>jobs tr. job_weight j) + job_weight x" for x
    using sum_list_update [of i "map job_weight (jobs tr)" "job_weight x"] assms(1)
      member_le_sum_list [of "job_weight (jobs tr ! i)" "map job_weight (jobs tr)"]
    by (simp add: map_update [symmetric])
  note upd = this [of J_Release] this [of J_Check] this [of J_Work] this [of J_Done]
  show ?thesis
    using assms(2) upd
    by (cases "jobs tr ! i") (auto simp: thread_func_def join_measure_def Semaphore_acquire_def split: if_splits)
qed

lemma join_step_measure: "join_step tr tr' \<Longrightarrow> join_measure tr' < join_measure tr"
proof -
  assume st: "join_step tr tr'"
  show ?thesis
  proof (cases "wait_end tr = Some tr'")
    case True
    then show ?thesis using st by (auto simp: join_step_def wait_end_def join_measure_def split: if_splits)
  next
    case False
    then show ?thesis using st thread_func_measure unfolding join_step_def by blast
  qed
qed

lemma join_step_enabled:
  assumes ok: "tr_ok tr" and pc: "runner_pc tr = R_Joining failing"
  shows "\<exists>tr'. join_step tr tr'"
proof -
  have sem: "start_semaphore tr + releasing (jobs tr) = 1" using ok pc by (simp add: tr_ok_def)
  consider i where "i < length (jobs tr)" "jobs tr ! i = J_Release"
    | "J_Release \<notin> set (jobs tr)" "\<exists>i<length (jobs tr). jobs tr ! i \<noteq> J_Done"
    | "J_Release \<notin> set (jobs tr)" "\<forall>j\<in>set (jobs tr). j = J_Done"
    by (metis in_set_conv_nth)
  then show ?thesis
  proof cases
    case (1 i)
    then obtain tr' where "thread_func i tr = Some tr'" by (simp add: thread_func_def)
    then show ?thesis using pc 1(1) unfolding join_step_def by blast
  next
    case 2
    then obtain i where i: "i < length (jobs tr)" "jobs tr ! i \<noteq> J_Done" "jobs tr ! i \<noteq> J_Release" by (metis nth_mem)
    have "releasing (jobs tr) = 0" using 2(1) by (simp add: releasing_def count_list_0_iff)
    then obtain tr' where "thread_func i tr = Some tr'"
      using sem i(2,3) by (cases "jobs tr ! i") (auto simp: thread_func_def Semaphore_acquire_def)
    then show ?thesis using pc i(1) by (auto simp: join_step_def)
  next
    case 3
    have "releasing (jobs tr) = 0" using 3(1) by (simp add: releasing_def count_list_0_iff)
    then show ?thesis using pc sem 3(2) by (auto simp: join_step_def wait_end_def Semaphore_acquire_def)
  qed
qed

lemma join_step_ok: "join_step tr tr' \<Longrightarrow> tr_step_ok tr tr'"
  unfolding join_step_def tr_step_ok_def by (auto intro: tr_thread tr_joined)

lemma joining_pc:
  "join_step tr tr' \<Longrightarrow> (\<exists>failing. runner_pc tr' = R_Joining failing) \<or> runner_pc tr' = R_Idle \<and> number_running tr' = 0"
proof -
  assume st: "join_step tr tr'"
  show ?thesis
  proof (cases "wait_end tr = Some tr'")
    case True
    then show ?thesis by (auto simp: wait_end_def split: if_splits)
  next
    case False
    then show ?thesis using st thread_func_fields(1) unfolding join_step_def by metis
  qed
qed

lemma joining_ends:
  assumes "tr_ok tr" and "runner_pc tr = R_Joining failing"
  shows "\<exists>tr'. join_step\<^sup>*\<^sup>* tr tr' \<and> runner_pc tr' = R_Idle \<and> number_running tr' = 0"
  using assms
proof (induction "join_measure tr" arbitrary: tr failing rule: less_induct)
  case less
  obtain tr1 where st: "join_step tr tr1" using join_step_enabled [OF less.prems] by blast
  have ok1: "tr_ok tr1" using tr_ok_step [OF join_step_ok [OF st] less.prems(1)] .
  show ?case
  proof (cases "runner_pc tr1 = R_Idle \<and> number_running tr1 = 0")
    case True
    then show ?thesis using st by blast
  next
    case False
    then obtain f where "runner_pc tr1 = R_Joining f" using joining_pc [OF st] by blast
    from less.hyps [OF join_step_measure [OF st] ok1 this] show ?thesis
      using st by (meson converse_rtranclp_into_rtranclp)
  qed
qed

section \<open>Properties\<close>

lemma reach_tr_ok: "tr_step_ok\<^sup>*\<^sup>* tr tr' \<Longrightarrow> tr_ok tr \<Longrightarrow> tr_ok tr'"
  by (induction rule: rtranclp_induct) (auto intro: tr_ok_step)

lemma ThreadRunner_new_ok: "0 < n \<Longrightarrow> tr_ok (ThreadRunner_new n)"
  by (simp add: tr_ok_def ThreadRunner_new_def)

text \<open>
  (C7) Safety of starting threads, under all interleavings in which no start fails at its very first thread:
  no thread executes its job before all threads were created, and after a failed creation no job of
  that start is ever executed, as documented; the number of threads stays within its limit.
\<close>
theorem ThreadRunner_start_safe:
  assumes "0 < n" and "tr_step_ok\<^sup>*\<^sup>* (ThreadRunner_new n) tr"
  shows "length (jobs tr) = number_running tr \<and> number_running tr \<le> n \<and>
    ((\<exists>t. runner_pc tr = R_Creating t) \<or> runner_pc tr = R_Joining True \<longrightarrow> J_Work \<notin> set (jobs tr))"
proof -
  have "number_of_jobs tr = n" using assms(2)
  proof (induction rule: rtranclp_induct)
    case (step y z)
    then have "tr_step y z" by (simp add: tr_step_ok_def)
    then have "number_of_jobs z = number_of_jobs y"
      by cases (auto simp: thread_func_def start_begin_def start_loop_def start_one_def start_one_thread_def wait_begin_def
          wait_end_def split: job_state.splits if_splits)
    then show ?case using step by simp
  qed (simp add: ThreadRunner_new_def)
  then show ?thesis
    using reach_tr_ok [OF assms(2) ThreadRunner_new_ok [OF assms(1)]] by (auto simp: tr_ok_def)
qed

text \<open>A run of a runner of two threads in which the second creation fails.\<close>

abbreviation runner_state :: "int \<Rightarrow> bool \<Rightarrow> job_state list \<Rightarrow> runner_pc \<Rightarrow> ThreadRunner" where
  "runner_state c intr js pc \<equiv> \<lparr>start_semaphore = c, number_running = length js, interrupt_start = intr,
     number_of_jobs = 2, jobs = js, runner_pc = pc\<rparr>"

lemma runner_failing_run:
  "tr_step_ok\<^sup>*\<^sup>* (ThreadRunner_new 2) (runner_state 1 True [J_Acquire] (R_Joining True))"
proof -
  let ?s1 = "runner_state 0 False [] (R_Creating 2)" and ?s2 = "runner_state 0 False [J_Acquire] (R_Creating 2)"
  have "tr_step_ok (ThreadRunner_new 2) ?s1"
    unfolding tr_step_ok_def using tr_start [of "ThreadRunner_new 2" 0 ?s1] by (simp add: ThreadRunner_new_def start_begin_def)
  moreover have "tr_step_ok ?s1 ?s2"
    unfolding tr_step_ok_def using tr_create [of ?s1 2 True] by (simp add: start_loop_def start_one_thread_def)
  moreover have "tr_step_ok ?s2 (runner_state 1 True [J_Acquire] (R_Joining True))"
    unfolding tr_step_ok_def using tr_create [of ?s2 2 False]
    by (simp add: start_loop_def start_one_thread_def wait_begin_def Semaphore_release_def)
  ultimately show ?thesis by (meson converse_rtranclp_into_rtranclp rtranclp.rtrancl_refl)
qed

theorem ThreadRunner_start_safe_witness:
  "\<exists>tr. tr_step_ok\<^sup>*\<^sup>* (ThreadRunner_new 2) tr \<and> runner_pc tr = R_Joining True \<and> J_Work \<notin> set (jobs tr)"
  using runner_failing_run ThreadRunner_start_safe [OF _ runner_failing_run] by fastforce

text \<open>
  (C33) Joining ends: from every such state in which the runner waits for its threads, whatever step a thread
  takes brings the end nearer, some step is always possible, and the end is reached with no thread
  running; jobs are assumed to return.
\<close>
theorem ThreadRunner_joining_ends:
  assumes "0 < n" and "tr_step_ok\<^sup>*\<^sup>* (ThreadRunner_new n) tr" and "runner_pc tr = R_Joining failing"
  shows "(\<exists>tr'. join_step tr tr') \<and> (\<forall>tr'. join_step tr tr' \<longrightarrow> join_measure tr' < join_measure tr) \<and>
    (\<exists>tr'. join_step\<^sup>*\<^sup>* tr tr' \<and> runner_pc tr' = R_Idle \<and> number_running tr' = 0)"
proof -
  have ok: "tr_ok tr" by (rule reach_tr_ok [OF assms(2) ThreadRunner_new_ok [OF assms(1)]])
  show ?thesis using join_step_enabled [OF ok assms(3)] join_step_measure joining_ends [OF ok assms(3)] by blast
qed

theorem ThreadRunner_joining_ends_witness:
  "\<exists>tr'. join_step\<^sup>*\<^sup>* (runner_state 1 True [J_Acquire] (R_Joining True)) tr' \<and> runner_pc tr' = R_Idle \<and> number_running tr' = 0"
  using ThreadRunner_joining_ends [OF _ runner_failing_run, of True] by simp

text \<open>
  (C34) A start that fails at its first thread leaves the semaphore released: in a later start of the same runner
  a job is executed although creating another thread fails.
\<close>
theorem ThreadRunner_restart_runs_job:
  "\<exists>tr. tr_step\<^sup>*\<^sup>* (ThreadRunner_new 2) tr \<and> runner_pc tr = R_Joining True \<and> J_Work \<in> set (jobs tr)"
proof -
  let ?C = "R_Creating 2"
  have s: "tr_step (ThreadRunner_new 2) (runner_state 0 False [] ?C)"
    "tr_step (runner_state 0 False [] ?C) (runner_state 1 True [] R_Idle)"
    "tr_step (runner_state 1 True [] R_Idle) (runner_state 1 False [] ?C)"
    "tr_step (runner_state 1 False [] ?C) (runner_state 1 False [J_Acquire] ?C)"
    "tr_step (runner_state 1 False [J_Work] ?C) (runner_state 2 True [J_Work] (R_Joining True))"
    using tr_start [of "ThreadRunner_new 2" 0] tr_create [of "runner_state 0 False [] ?C" 2 False]
      tr_start [of "runner_state 1 True [] R_Idle" 0] tr_create [of "runner_state 1 False [] ?C" 2 True]
      tr_create [of "runner_state 1 False [J_Work] ?C" 2 False]
    by (simp_all add: ThreadRunner_new_def start_begin_def start_loop_def start_one_thread_def wait_begin_def
        Semaphore_release_def)
  have t: "tr_step (runner_state 1 False [J_Acquire] ?C) (runner_state 0 False [J_Release] ?C)"
    "tr_step (runner_state 0 False [J_Release] ?C) (runner_state 1 False [J_Check] ?C)"
    "tr_step (runner_state 1 False [J_Check] ?C) (runner_state 1 False [J_Work] ?C)"
    by (rule tr_thread [where i = 0]; simp add: thread_func_def Semaphore_acquire_def Semaphore_release_def)+
  have "tr_step\<^sup>*\<^sup>* (ThreadRunner_new 2) (runner_state 2 True [J_Work] (R_Joining True))"
    using s t by (meson converse_rtranclp_into_rtranclp rtranclp.rtrancl_refl)
  then show ?thesis by fastforce
qed

end
