(* ===== verification/Active_Object.thy ===== *)
theory Active_Object
  imports Thread_Runner
begin

text \<open>
  The life cycle of active objects (src/src/Generics/ActiveObject.hpp, ActiveObject.cpp) and composites of them
  (src/src/Generics/CompositeActiveObject.hpp): \<^verbatim>\<open>SimpleActiveObject\<close>, whose transitions call virtual hooks,
  \<^verbatim>\<open>ActiveObjectCommonImpl\<close>, which runs a job in threads, and \<^verbatim>\<open>CompositeActiveObjectBase\<close>, which forwards to
  its children.

  Each call holds the mutex of its object, so it is one transition; \<^verbatim>\<open>wait_object\<close> is two, because it
  releases the mutex while it waits. Whether a hook or the start of the threads raises is an
  argument. \<open>None\<close> is a call that blocks.
\<close>

section \<open>SimpleActiveObject\<close>

datatype ACTIVE_STATE = AS_ACTIVE | AS_DEACTIVATING | AS_NOT_ACTIVE

datatype ao_error = AlreadyActive | HookException | StartFailure | ChildException

definition SimpleActiveObject_activate :: "bool \<Rightarrow> ACTIVE_STATE \<Rightarrow> ao_error option \<times> ACTIVE_STATE" where
  "SimpleActiveObject_activate raises state =
     (if state = AS_NOT_ACTIVE then if raises then (Some HookException, state) else (None, AS_ACTIVE)
      else (Some AlreadyActive, state))"

definition SimpleActiveObject_deactivate :: "bool \<Rightarrow> ACTIVE_STATE \<Rightarrow> ao_error option \<times> ACTIVE_STATE" where
  "SimpleActiveObject_deactivate raises state =
     (if state \<noteq> AS_ACTIVE then (None, state)
      else if raises then (Some HookException, AS_ACTIVE) else (None, AS_DEACTIVATING))"

text \<open>The loop on the condition, and what follows the hook.\<close>

definition SimpleActiveObject_wait_pass :: "bool \<Rightarrow> ACTIVE_STATE \<Rightarrow> bool" where
  "SimpleActiveObject_wait_pass wait_more state = (\<not> (state = AS_ACTIVE \<or> wait_more))"

definition SimpleActiveObject_wait_end :: "ACTIVE_STATE \<Rightarrow> ACTIVE_STATE" where
  "SimpleActiveObject_wait_end state = (if state = AS_DEACTIVATING then AS_NOT_ACTIVE else state)"

text \<open>The whole of \<^verbatim>\<open>wait_object\<close> when no other call intervenes.\<close>

definition SimpleActiveObject_wait :: "bool \<Rightarrow> ACTIVE_STATE \<Rightarrow> (ao_error option \<times> ACTIVE_STATE) option" where
  "SimpleActiveObject_wait raises state =
     (if \<not> SimpleActiveObject_wait_pass False state then None
      else if raises then Some (Some HookException, state)
      else Some (None, SimpleActiveObject_wait_end state))"

definition SimpleActiveObject_active :: "ACTIVE_STATE \<Rightarrow> bool" where
  "SimpleActiveObject_active state = (state = AS_ACTIVE)"

text \<open>Calls of any number of threads, in any order.\<close>

inductive sao_step :: "ACTIVE_STATE \<Rightarrow> ACTIVE_STATE \<Rightarrow> bool" where
  "SimpleActiveObject_activate raises state = (res, state') \<Longrightarrow> sao_step state state'"
| "SimpleActiveObject_deactivate raises state = (res, state') \<Longrightarrow> sao_step state state'"
| "sao_step state (SimpleActiveObject_wait_end state)"

section \<open>ActiveObjectCommonImpl\<close>

text \<open>\<open>terminating\<close> belongs to the job; \<open>alive\<close> is the number of threads that have not returned.\<close>

record ActiveObjectCommonImpl =
  active_state :: ACTIVE_STATE
  terminating :: bool
  alive :: nat

definition ActiveObjectCommonImpl_new :: ActiveObjectCommonImpl where
  "ActiveObjectCommonImpl_new = \<lparr>active_state = AS_NOT_ACTIVE, terminating = False, alive = 0\<rparr>"

definition ActiveObjectCommonImpl_activate ::
    "nat option \<Rightarrow> ActiveObjectCommonImpl \<Rightarrow> ao_error option \<times> ActiveObjectCommonImpl" where
  "ActiveObjectCommonImpl_activate started ao =
     (if active_state ao \<noteq> AS_NOT_ACTIVE then (Some AlreadyActive, ao)
      else case started of
             None \<Rightarrow> (Some StartFailure, ao\<lparr>active_state := AS_NOT_ACTIVE\<rparr>)
           | Some threads \<Rightarrow> (None, ao\<lparr>active_state := AS_ACTIVE, alive := threads\<rparr>))"

definition make_terminate :: "ActiveObjectCommonImpl \<Rightarrow> ActiveObjectCommonImpl" where
  "make_terminate ao = ao\<lparr>terminating := True\<rparr>"

definition terminated :: "ActiveObjectCommonImpl \<Rightarrow> ActiveObjectCommonImpl" where
  "terminated ao = ao\<lparr>terminating := False\<rparr>"

definition ActiveObjectCommonImpl_deactivate :: "ActiveObjectCommonImpl \<Rightarrow> ActiveObjectCommonImpl" where
  "ActiveObjectCommonImpl_deactivate ao =
     (if active_state ao = AS_ACTIVE then make_terminate (ao\<lparr>active_state := AS_DEACTIVATING\<rparr>) else ao)"

text \<open>Joining the threads blocks until all of them have returned.\<close>

definition ActiveObjectCommonImpl_wait_pass :: "ActiveObjectCommonImpl \<Rightarrow> ActiveObjectCommonImpl option" where
  "ActiveObjectCommonImpl_wait_pass ao =
     (if active_state ao \<noteq> AS_NOT_ACTIVE then if alive ao = 0 then Some (terminated ao) else None else Some ao)"

definition ActiveObjectCommonImpl_wait_end :: "ActiveObjectCommonImpl \<Rightarrow> ActiveObjectCommonImpl" where
  "ActiveObjectCommonImpl_wait_end ao =
     (if active_state ao = AS_DEACTIVATING then ao\<lparr>active_state := AS_NOT_ACTIVE\<rparr> else ao)"

definition ActiveObjectCommonImpl_active :: "ActiveObjectCommonImpl \<Rightarrow> bool" where
  "ActiveObjectCommonImpl_active ao = (active_state ao = AS_ACTIVE)"

text \<open>The checks of the destructor: whether it reports an error and terminates the job itself.\<close>

definition ActiveObjectCommonImpl_destroy :: "ActiveObjectCommonImpl \<Rightarrow> bool" where
  "ActiveObjectCommonImpl_destroy ao = (active_state ao = AS_ACTIVE \<or> active_state ao \<noteq> AS_NOT_ACTIVE)"

inductive aoc_step :: "ActiveObjectCommonImpl \<Rightarrow> ActiveObjectCommonImpl \<Rightarrow> bool" where
  "ActiveObjectCommonImpl_activate started ao = (res, ao') \<Longrightarrow> aoc_step ao ao'"
| "aoc_step ao (ActiveObjectCommonImpl_deactivate ao)"
| "0 < alive ao \<Longrightarrow> aoc_step ao (ao\<lparr>alive := alive ao - 1\<rparr>)"
| "ActiveObjectCommonImpl_wait_pass ao = Some ao' \<Longrightarrow> aoc_step ao ao'"
| "aoc_step ao (ActiveObjectCommonImpl_wait_end ao)"

section \<open>CompositeActiveObjectBase\<close>

text \<open>A child and what its hooks do.\<close>

record Child =
  ch_state :: ACTIVE_STATE
  ch_activate_raises :: bool
  ch_deactivate_raises :: bool
  ch_wait_raises :: bool

definition child_activate :: "Child \<Rightarrow> ao_error option \<times> Child" where
  "child_activate c =
     (case SimpleActiveObject_activate (ch_activate_raises c) (ch_state c) of (res, st) \<Rightarrow> (res, c\<lparr>ch_state := st\<rparr>))"

definition child_deactivate :: "Child \<Rightarrow> ao_error option \<times> Child" where
  "child_deactivate c =
     (case SimpleActiveObject_deactivate (ch_deactivate_raises c) (ch_state c) of (res, st) \<Rightarrow> (res, c\<lparr>ch_state := st\<rparr>))"

definition child_wait :: "Child \<Rightarrow> (ao_error option \<times> Child) option" where
  "child_wait c =
     map_option (\<lambda>(res, st). (res, c\<lparr>ch_state := st\<rparr>)) (SimpleActiveObject_wait (ch_wait_raises c) (ch_state c))"

record Composite =
  co_state :: ACTIVE_STATE
  co_children :: "Child list"

text \<open>
  Waiting for and deactivating children, given in the order in which the code visits them, which is
  the reverse of the list; the flag collects errors.
\<close>

fun wait_for_some_objects :: "Child list \<Rightarrow> (Child list \<times> bool) option" where
  "wait_for_some_objects [] = Some ([], False)"
| "wait_for_some_objects (c # cs) =
     (case child_wait c of
        None \<Rightarrow> None
      | Some (res, c') \<Rightarrow>
          map_option (\<lambda>(cs', errors). (c' # cs', res \<noteq> None \<or> errors)) (wait_for_some_objects cs))"

fun deactivate_objects :: "bool \<Rightarrow> Child list \<Rightarrow> (Child list \<times> bool) option" where
  "deactivate_objects sync [] = Some ([], False)"
| "deactivate_objects sync (c # cs) =
     (case child_deactivate c of
        (Some e, c') \<Rightarrow> map_option (\<lambda>(cs', errors). (c' # cs', True)) (deactivate_objects sync cs)
      | (None, c') \<Rightarrow>
          (case if sync then child_wait c' else Some (None, c') of
             None \<Rightarrow> None
           | Some (res, c'') \<Rightarrow>
               map_option (\<lambda>(cs', errors). (c'' # cs', res \<noteq> None \<or> errors)) (deactivate_objects sync cs)))"

text \<open>Activation up to the first child that raises: the children and the position of that child.\<close>

fun activate_children :: "Child list \<Rightarrow> Child list \<times> nat option" where
  "activate_children [] = ([], None)"
| "activate_children (c # cs) =
     (case child_activate c of
        (None, c') \<Rightarrow> (case activate_children cs of (cs', n) \<Rightarrow> (c' # cs', map_option Suc n))
      | (Some e, c') \<Rightarrow> (c' # cs, Some 0))"

text \<open>If deactivating the first \<open>n\<close> children again raises, they are not waited for.\<close>

definition undo_activation :: "bool \<Rightarrow> nat \<Rightarrow> Child list \<Rightarrow> Child list option" where
  "undo_activation sync n cs =
     (case deactivate_objects sync (rev (take n cs)) of
        None \<Rightarrow> None
      | Some (ds, True) \<Rightarrow> Some (rev ds @ drop n cs)
      | Some (ds, False) \<Rightarrow>
          map_option (\<lambda>(ws, errors). rev ws @ drop n cs) (wait_for_some_objects ds))"

definition Composite_activate :: "bool \<Rightarrow> Composite \<Rightarrow> (ao_error option \<times> Composite) option" where
  "Composite_activate sync co =
     (if co_state co \<noteq> AS_NOT_ACTIVE then Some (Some AlreadyActive, co)
      else case activate_children (co_children co) of
             (cs, None) \<Rightarrow> Some (None, co\<lparr>co_state := AS_ACTIVE, co_children := cs\<rparr>)
           | (cs, Some n) \<Rightarrow>
               map_option (\<lambda>cs'. (Some ChildException, co\<lparr>co_state := AS_NOT_ACTIVE, co_children := cs'\<rparr>))
                 (undo_activation sync n cs))"

definition Composite_deactivate :: "bool \<Rightarrow> Composite \<Rightarrow> (ao_error option \<times> Composite) option" where
  "Composite_deactivate sync co =
     (if co_state co \<noteq> AS_ACTIVE then Some (None, co)
      else map_option
             (\<lambda>(cs, errors).
                if errors then (Some ChildException, co\<lparr>co_state := AS_ACTIVE, co_children := rev cs\<rparr>)
                else (None, co\<lparr>co_state := AS_DEACTIVATING, co_children := rev cs\<rparr>))
             (deactivate_objects sync (rev (co_children co))))"

definition Composite_wait :: "Composite \<Rightarrow> (ao_error option \<times> Composite) option" where
  "Composite_wait co =
     (if \<not> SimpleActiveObject_wait_pass False (co_state co) then None
      else map_option
             (\<lambda>(cs, errors).
                if errors then (Some ChildException, co\<lparr>co_children := rev cs\<rparr>)
                else (None, co\<lparr>co_state := SimpleActiveObject_wait_end (co_state co), co_children := rev cs\<rparr>))
             (wait_for_some_objects (rev (co_children co))))"

definition add_child :: "bool \<Rightarrow> Child \<Rightarrow> Composite \<Rightarrow> Composite" where
  "add_child add_to_head c co =
     co\<lparr>co_children := if add_to_head then c # co_children co else co_children co @ [c]\<rparr>"

definition add_child_object :: "Child \<Rightarrow> bool \<Rightarrow> Composite \<Rightarrow> (ao_error option \<times> Composite) option" where
  "add_child_object c add_to_head co =
     (if co_state co = AS_ACTIVE then
        if SimpleActiveObject_active (ch_state c) then Some (None, add_child add_to_head c co)
        else case child_activate c of
               (None, c') \<Rightarrow> Some (None, add_child add_to_head c' co)
             | (Some e, c') \<Rightarrow> Some (Some ChildException, co)
      else if SimpleActiveObject_active (ch_state c) then
        case child_deactivate c of
          (Some e, c') \<Rightarrow> Some (Some ChildException, co)
        | (None, c') \<Rightarrow>
            map_option
              (\<lambda>(res, c''). if res = None then (None, add_child add_to_head c'' co) else (Some ChildException, co))
              (child_wait c')
      else Some (None, add_child add_to_head c co))"

text \<open>An error leaves the children and the state as they are.\<close>

definition clear_children :: "bool \<Rightarrow> Composite \<Rightarrow> (ao_error option \<times> Composite) option" where
  "clear_children sync co =
     (if co_state co = AS_NOT_ACTIVE then Some (None, co\<lparr>co_children := []\<rparr>)
      else case deactivate_objects sync (rev (co_children co)) of
             None \<Rightarrow> None
           | Some (ds, True) \<Rightarrow> Some (Some ChildException, co\<lparr>co_children := rev ds\<rparr>)
           | Some (ds, False) \<Rightarrow>
               map_option
                 (\<lambda>(ws, errors).
                    if errors then (Some ChildException, co\<lparr>co_children := rev ws\<rparr>)
                    else (None, co\<lparr>co_state := AS_NOT_ACTIVE, co_children := []\<rparr>))
                 (wait_for_some_objects ds))"

section \<open>The life cycle\<close>

definition ao_legal :: "ACTIVE_STATE \<Rightarrow> ACTIVE_STATE \<Rightarrow> bool" where
  "ao_legal a b \<longleftrightarrow> a = b \<or> (a, b) \<in> {(AS_NOT_ACTIVE, AS_ACTIVE), (AS_ACTIVE, AS_DEACTIVATING), (AS_DEACTIVATING, AS_NOT_ACTIVE)}"

text \<open>Activations and completed deactivations of a sequence of states.\<close>

fun activations :: "ACTIVE_STATE list \<Rightarrow> nat" where
  "activations (a # b # r) = (if a = AS_NOT_ACTIVE \<and> b = AS_ACTIVE then 1 else 0) + activations (b # r)"
| "activations _ = 0"

fun completions :: "ACTIVE_STATE list \<Rightarrow> nat" where
  "completions (a # b # r) = (if a = AS_DEACTIVATING \<and> b = AS_NOT_ACTIVE then 1 else 0) + completions (b # r)"
| "completions _ = 0"

locale active_object =
  fixes st :: "'o \<Rightarrow> ACTIVE_STATE" and step :: "'o \<Rightarrow> 'o \<Rightarrow> bool"
  assumes legal: "step s s' \<Longrightarrow> ao_legal (st s) (st s')"
begin

lemma life_cycle:
  "successively step path \<Longrightarrow> path \<noteq> [] \<Longrightarrow>
   int (activations (map st path)) + (if st (hd path) = AS_NOT_ACTIVE then 0 else 1)
     = int (completions (map st path)) + (if st (last path) = AS_NOT_ACTIVE then 0 else 1)"
proof (induction path rule: induct_list012)
  case (3 s s' path)
  then have "ao_legal (st s) (st s')" using legal by simp
  then show ?case using 3 by (cases "st s"; cases "st s'") (auto simp: ao_legal_def)
qed simp_all

end

interpretation sao: active_object "\<lambda>s. s" sao_step
  by unfold_locales (auto elim!: sao_step.cases simp: ao_legal_def SimpleActiveObject_activate_def
    SimpleActiveObject_deactivate_def SimpleActiveObject_wait_end_def split: if_splits)

interpretation aoc: active_object active_state aoc_step
  by unfold_locales (auto elim!: aoc_step.cases simp: ao_legal_def ActiveObjectCommonImpl_activate_def
    ActiveObjectCommonImpl_deactivate_def ActiveObjectCommonImpl_wait_pass_def ActiveObjectCommonImpl_wait_end_def
    make_terminate_def terminated_def split: if_splits option.splits)

section \<open>Composites\<close>

definition all_state :: "ACTIVE_STATE \<Rightarrow> Child list \<Rightarrow> Child list" where
  "all_state st cs = map (ch_state_update (\<lambda>_. st)) cs"

text \<open>Children whose hooks do not raise on the way down.\<close>

definition stoppable :: "Child list \<Rightarrow> bool" where
  "stoppable cs = list_all (\<lambda>c. \<not> ch_deactivate_raises c \<and> \<not> ch_wait_raises c) cs"

lemmas child_defs = child_activate_def child_deactivate_def child_wait_def SimpleActiveObject_activate_def
  SimpleActiveObject_deactivate_def SimpleActiveObject_wait_def SimpleActiveObject_wait_pass_def SimpleActiveObject_wait_end_def

lemma all_state_simps [simp]:
  "all_state st [] = []" "all_state st (c # cs) = c\<lparr>ch_state := st\<rparr> # all_state st cs"
  "all_state st (all_state st' cs) = all_state st cs" "rev (all_state st cs) = all_state st (rev cs)"
  "stoppable (all_state st cs) = stoppable cs" "length (all_state st cs) = length cs"
  "take n (all_state st cs) = all_state st (take n cs)" "drop n (all_state st cs) = all_state st (drop n cs)"
  by (simp_all add: all_state_def stoppable_def list.pred_map o_def rev_map take_map drop_map)

lemma stoppable_simps [simp]:
  "stoppable []" "stoppable (c # cs) \<longleftrightarrow> \<not> ch_deactivate_raises c \<and> \<not> ch_wait_raises c \<and> stoppable cs"
  "stoppable (rev cs) = stoppable cs"
  by (simp_all add: stoppable_def)

lemma stoppable_take: "stoppable cs \<Longrightarrow> stoppable (take n cs)"
  by (auto simp: stoppable_def list_all_iff dest: in_set_takeD)

lemma wait_all:
  "stoppable cs \<Longrightarrow> st \<noteq> AS_ACTIVE \<Longrightarrow>
   wait_for_some_objects (all_state st cs) = Some (all_state AS_NOT_ACTIVE cs, False)"
  by (induction cs) (cases st; simp add: child_defs)+

lemma deactivate_all:
  "stoppable cs \<Longrightarrow>
   deactivate_objects sync (all_state AS_ACTIVE cs) =
     Some (all_state (if sync then AS_NOT_ACTIVE else AS_DEACTIVATING) cs, False)"
  by (cases sync) (induction cs, simp_all add: child_defs)+

lemma activate_all:
  "activate_children (all_state AS_NOT_ACTIVE cs) =
     (let n = length (takeWhile (\<lambda>c. \<not> ch_activate_raises c) cs)
      in (all_state AS_ACTIVE (take n cs) @ all_state AS_NOT_ACTIVE (drop n cs), if n = length cs then None else Some n))"
  by (induction cs) (auto simp: child_defs Let_def)

lemma undo_all:
  assumes "stoppable cs" and "n \<le> length cs"
  shows "undo_activation sync n (all_state AS_ACTIVE (take n cs) @ all_state AS_NOT_ACTIVE (drop n cs)) =
    Some (all_state AS_NOT_ACTIVE cs)"
proof -
  have "all_state AS_NOT_ACTIVE (take n cs) @ all_state AS_NOT_ACTIVE (drop n cs) = all_state AS_NOT_ACTIVE cs"
    by (metis all_state_def append_take_drop_id map_append)
  then show ?thesis
    using assms stoppable_take [OF assms(1), of n]
    by (simp add: undo_activation_def deactivate_all wait_all min_def)
qed

lemma takeWhile_raises_length:
  "length (takeWhile (\<lambda>c. \<not> ch_activate_raises c) cs) = length cs \<longleftrightarrow> \<not> list_ex ch_activate_raises cs"
  by (induction cs) auto

section \<open>Properties\<close>



text \<open>
  (C35) Activating a composite is all or nothing: with children that are not active and whose hooks do not
  raise on the way down, it succeeds exactly if no child raises, and then all children are active;
  otherwise every child and the composite are as before. After success, deactivating and waiting do
  not block and lead back to the initial state. This holds with and without synchronous termination.
\<close>
theorem Composite_activate_atomic:
  assumes "co_state co = AS_NOT_ACTIVE" and "list_all (\<lambda>c. ch_state c = AS_NOT_ACTIVE) (co_children co)"
    and "list_all (\<lambda>c. \<not> ch_deactivate_raises c \<and> \<not> ch_wait_raises c) (co_children co)"
  shows "if list_ex ch_activate_raises (co_children co)
    then Composite_activate sync co = Some (Some ChildException, co)
    else \<exists>co1 co2. Composite_activate sync co = Some (None, co1) \<and> co_state co1 = AS_ACTIVE \<and>
      list_all (\<lambda>c. ch_state c = AS_ACTIVE) (co_children co1) \<and> length (co_children co1) = length (co_children co) \<and>
      Composite_deactivate sync co1 = Some (None, co2) \<and> Composite_wait co2 = Some (None, co)"
proof -
  let ?cs = "co_children co"
  let ?n = "length (takeWhile (\<lambda>c. \<not> ch_activate_raises c) ?cs)"
  have st: "stoppable ?cs" using assms(3) by (simp add: stoppable_def)
  have id: "all_state AS_NOT_ACTIVE ?cs = ?cs"
    using assms(2) by (auto simp: all_state_def list_all_iff intro!: map_idI)
  note act = activate_all [of ?cs, unfolded id Let_def]
  have n: "?n = length ?cs \<longleftrightarrow> \<not> list_ex ch_activate_raises ?cs" "?n \<le> length ?cs"
    using takeWhile_raises_length [of ?cs] by (simp_all add: length_takeWhile_le)
  show ?thesis
  proof (cases "list_ex ch_activate_raises ?cs")
    case True
    then have "Composite_activate sync co = Some (Some ChildException, co\<lparr>co_state := AS_NOT_ACTIVE, co_children := ?cs\<rparr>)"
      using assms(1) n undo_all [OF st n(2), of sync] by (simp add: Composite_activate_def act id)
    then show ?thesis using True assms(1) by simp
  next
    case False
    define co1 where "co1 = co\<lparr>co_state := AS_ACTIVE, co_children := all_state AS_ACTIVE ?cs\<rparr>"
    define co2 where "co2 = co\<lparr>co_state := AS_DEACTIVATING,
      co_children := all_state (if sync then AS_NOT_ACTIVE else AS_DEACTIVATING) ?cs\<rparr>"
    have "Composite_activate sync co = Some (None, co1)"
      using assms(1) n False by (simp add: Composite_activate_def act co1_def)
    moreover have "Composite_deactivate sync co1 = Some (None, co2)"
      using st by (simp add: Composite_deactivate_def co1_def co2_def deactivate_all)
    moreover have "Composite_wait co2 = Some (None, co)"
      using st assms(1) wait_all [of "rev ?cs"] id
      by (simp add: Composite_wait_def co2_def SimpleActiveObject_wait_pass_def SimpleActiveObject_wait_end_def)
    moreover have "list_all (\<lambda>c. ch_state c = AS_ACTIVE) (co_children co1)" "length (co_children co1) = length ?cs"
      by (simp_all add: co1_def all_state_def list_all_iff)
    ultimately show ?thesis using False by (auto simp: co1_def)
  qed
qed

theorem Composite_activate_atomic_witness:
  "Composite_activate False
     \<lparr>co_state = AS_NOT_ACTIVE,
      co_children = [\<lparr>ch_state = AS_NOT_ACTIVE, ch_activate_raises = False, ch_deactivate_raises = False, ch_wait_raises = False\<rparr>,
                     \<lparr>ch_state = AS_NOT_ACTIVE, ch_activate_raises = True, ch_deactivate_raises = False, ch_wait_raises = False\<rparr>]\<rparr>
   = Some (Some ChildException,
     \<lparr>co_state = AS_NOT_ACTIVE,
      co_children = [\<lparr>ch_state = AS_NOT_ACTIVE, ch_activate_raises = False, ch_deactivate_raises = False, ch_wait_raises = False\<rparr>,
                     \<lparr>ch_state = AS_NOT_ACTIVE, ch_activate_raises = True, ch_deactivate_raises = False, ch_wait_raises = False\<rparr>]\<rparr>)"
  using Composite_activate_atomic [of "\<lparr>co_state = AS_NOT_ACTIVE,
      co_children = [\<lparr>ch_state = AS_NOT_ACTIVE, ch_activate_raises = False, ch_deactivate_raises = False, ch_wait_raises = False\<rparr>,
                     \<lparr>ch_state = AS_NOT_ACTIVE, ch_activate_raises = True, ch_deactivate_raises = False, ch_wait_raises = False\<rparr>]\<rparr>" False]
  by simp

end
