(* ===== verification/Task_Runner.thy ===== *)
theory Task_Runner
  imports Active_Object "HOL-Library.Multiset"
begin

text \<open>
  \<^verbatim>\<open>Generics::TaskRunner\<close> (src/src/Generics/TaskRunner.cpp): a pool of threads that execute queued tasks and
  grows while tasks wait. It is an \<^verbatim>\<open>ActiveObjectCommonImpl\<close>, whose state is a field here.

  The model is a step relation of the worker threads, the threads that enqueue tasks, and the calls of
  the life cycle. Each section under the lock of the queue is one step; a signal of the condition
  is sent after the lock was released and is a step of its own; threads waiting on the condition may
  also wake up without a signal. Starting several threads is one step, which \<^verbatim>\<open>ThreadRunner\<close>
  justifies: no job runs before all threads exist. The counter of unused threads wraps at 32 bits.
\<close>

section \<open>State\<close>

text \<open>
  A worker is about to enter the lock (the flag: it is already counted as unused), waits, was woken,
  executes a task, has returned, or has failed the assertion.
\<close>

datatype 'a worker = W_Lock bool | W_Wait | W_Woken | W_Exec 'a | W_Exit | W_Abort

text \<open>A thread that adds a worker: before its check under the lock, or after it has counted the new worker.\<close>

datatype adder = A_None | A_Check | A_Start

text \<open>
  \<open>signals\<close> and \<open>adds\<close> are the signals still to be sent and the attempts to add a thread still to be made.
  The last three fields record the tasks accepted (and not cleared), taken from the queue, and finished.
\<close>

record 'a TaskRunner =
  NUMBER_OF_THREADS :: nat
  START_THREADS :: nat
  MAX_PENDING_TASKS :: nat
  unused :: nat
  waiting :: nat
  tasks :: "'a list"
  workers :: "'a worker list"
  signals :: nat
  adds :: nat
  adding :: adder
  ao :: ActiveObjectCommonImpl
  accepted :: "'a list"
  taken :: "'a list"
  finished :: "'a list"

definition inc32 :: "nat \<Rightarrow> nat" where
  "inc32 n = (n + 1) mod 2 ^ 32"

definition dec32 :: "nat \<Rightarrow> nat" where
  "dec32 n = (n + 2 ^ 32 - 1) mod 2 ^ 32"

definition TaskRunner_new :: "nat \<Rightarrow> nat \<Rightarrow> nat \<Rightarrow> 'a TaskRunner" where
  "TaskRunner_new threads_number max_pending_tasks start_threads =
     \<lparr>NUMBER_OF_THREADS = threads_number, START_THREADS = max start_threads 1, MAX_PENDING_TASKS = max_pending_tasks,
      unused = max start_threads 1, waiting = 0, tasks = [], workers = [], signals = 0, adds = 0, adding = A_None,
      ao = ActiveObjectCommonImpl_new, accepted = [], taken = [], finished = []\<rparr>"

section \<open>Workers\<close>

definition set_worker :: "nat \<Rightarrow> 'a worker \<Rightarrow> 'a TaskRunner \<Rightarrow> 'a TaskRunner" where
  "set_worker i w tr = tr\<lparr>workers := (workers tr)[i := w]\<rparr>"

text \<open>The section under the lock after entering it, and after each wait.\<close>

definition work_section :: "nat \<Rightarrow> 'a TaskRunner \<Rightarrow> 'a TaskRunner" where
  "work_section i tr =
     (if terminating (ao tr) then
        set_worker i W_Exit (tr\<lparr>unused := dec32 (unused tr), ao := (ao tr)\<lparr>alive := alive (ao tr) - 1\<rparr>\<rparr>)
      else case tasks tr of
             [] \<Rightarrow> set_worker i W_Wait (tr\<lparr>waiting := waiting tr + 1\<rparr>)
           | task # rest \<Rightarrow>
               if unused tr > 0
               then set_worker i (W_Exec task) (tr\<lparr>tasks := rest, taken := taken tr @ [task], unused := dec32 (unused tr)\<rparr>)
               else set_worker i W_Abort (tr\<lparr>tasks := rest, taken := taken tr @ [task]\<rparr>))"

definition work_enter :: "nat \<Rightarrow> bool \<Rightarrow> 'a TaskRunner \<Rightarrow> 'a TaskRunner" where
  "work_enter i increased tr = work_section i (if increased then tr else tr\<lparr>unused := inc32 (unused tr)\<rparr>)"

definition work_wake :: "nat \<Rightarrow> 'a TaskRunner \<Rightarrow> 'a TaskRunner" where
  "work_wake i tr = work_section i (tr\<lparr>waiting := waiting tr - 1\<rparr>)"

definition work_finish :: "nat \<Rightarrow> 'a \<Rightarrow> 'a TaskRunner \<Rightarrow> 'a TaskRunner" where
  "work_finish i task tr = set_worker i (W_Lock False) (tr\<lparr>finished := finished tr @ [task]\<rparr>)"

section \<open>Enqueueing\<close>

text \<open>\<open>None\<close>: the queue is full, and the caller waits or gives up with \<^verbatim>\<open>Overflow\<close>.\<close>

definition TaskRunner_enqueue :: "'a \<Rightarrow> 'a TaskRunner \<Rightarrow> 'a TaskRunner option" where
  "TaskRunner_enqueue task tr =
     (if MAX_PENDING_TASKS tr = 0 \<or> length (tasks tr) < MAX_PENDING_TASKS tr
      then Some (tr\<lparr>tasks := tasks tr @ [task], accepted := accepted tr @ [task],
             signals := signals tr + (if waiting tr > 0 then 1 else 0),
             adds := adds tr + (if length (tasks tr) > unused tr then 1 else 0)\<rparr>)
      else None)"

text \<open>Only one thread at a time tries to add a worker; the others skip it.\<close>

definition add_enter :: "'a TaskRunner \<Rightarrow> 'a TaskRunner" where
  "add_enter tr = tr\<lparr>adds := adds tr - 1, adding := if adding tr = A_None then A_Check else adding tr\<rparr>"

definition add_check :: "'a TaskRunner \<Rightarrow> 'a TaskRunner" where
  "add_check tr =
     (if length (tasks tr) \<le> unused tr then tr\<lparr>adding := A_None\<rparr>
      else tr\<lparr>adding := A_Start, unused := inc32 (unused tr)\<rparr>)"

definition add_start :: "bool \<Rightarrow> 'a TaskRunner \<Rightarrow> 'a TaskRunner" where
  "add_start created tr =
     (if length (workers tr) = 0 \<or> length (workers tr) = NUMBER_OF_THREADS tr then tr\<lparr>adding := A_None\<rparr>
      else if created
      then tr\<lparr>adding := A_None, workers := workers tr @ [W_Lock True], ao := (ao tr)\<lparr>alive := alive (ao tr) + 1\<rparr>\<rparr>
      else tr\<lparr>adding := A_None, unused := dec32 (unused tr)\<rparr>)"

definition TaskRunner_clear :: "'a TaskRunner \<Rightarrow> 'a TaskRunner" where
  "TaskRunner_clear tr = tr\<lparr>tasks := [], accepted := taken tr\<rparr>"

section \<open>Life cycle\<close>

definition TaskRunner_activate :: "'a TaskRunner \<Rightarrow> 'a TaskRunner option" where
  "TaskRunner_activate tr =
     (let threads = (if START_THREADS tr > NUMBER_OF_THREADS tr then NUMBER_OF_THREADS tr else START_THREADS tr)
      in case ActiveObjectCommonImpl_activate (Some threads) (ao tr) of
           (None, ao') \<Rightarrow> Some (tr\<lparr>ao := ao', workers := replicate threads (W_Lock True)\<rparr>)
         | (Some e, ao') \<Rightarrow> None)"

text \<open>Termination wakes all waiting workers.\<close>

definition wake_all :: "'a worker list \<Rightarrow> 'a worker list" where
  "wake_all ws = map (\<lambda>w. if w = W_Wait then W_Woken else w) ws"

definition TaskRunner_deactivate :: "'a TaskRunner \<Rightarrow> 'a TaskRunner" where
  "TaskRunner_deactivate tr =
     (if active_state (ao tr) = AS_ACTIVE
      then tr\<lparr>ao := ActiveObjectCommonImpl_deactivate (ao tr), workers := wake_all (workers tr)\<rparr>
      else tr)"

definition TaskRunner_wait :: "'a TaskRunner \<Rightarrow> 'a TaskRunner option" where
  "TaskRunner_wait tr =
     (case ActiveObjectCommonImpl_wait_pass (ao tr) of
        None \<Rightarrow> None
      | Some ao' \<Rightarrow>
          Some (tr\<lparr>ao := ActiveObjectCommonImpl_wait_end ao',
             workers := if active_state (ao tr) \<noteq> AS_NOT_ACTIVE then [] else workers tr\<rparr>))"

section \<open>Steps\<close>

text \<open>\<open>Q\<close> bounds the length of the queue where the runner itself sets no limit.\<close>

inductive task_step :: "nat \<Rightarrow> 'a TaskRunner \<Rightarrow> 'a TaskRunner \<Rightarrow> bool" for Q where
  ts_enter: "i < length (workers tr) \<Longrightarrow> workers tr ! i = W_Lock increased \<Longrightarrow> task_step Q tr (work_enter i increased tr)"
| ts_wake: "i < length (workers tr) \<Longrightarrow> workers tr ! i = W_Woken \<Longrightarrow> task_step Q tr (work_wake i tr)"
| ts_spurious: "i < length (workers tr) \<Longrightarrow> workers tr ! i = W_Wait \<Longrightarrow> task_step Q tr (set_worker i W_Woken tr)"
| ts_signal: "0 < signals tr \<Longrightarrow> i < length (workers tr) \<Longrightarrow> workers tr ! i = W_Wait \<Longrightarrow>
    task_step Q tr (set_worker i W_Woken (tr\<lparr>signals := signals tr - 1\<rparr>))"
| ts_signal_none: "0 < signals tr \<Longrightarrow> W_Wait \<notin> set (workers tr) \<Longrightarrow> task_step Q tr (tr\<lparr>signals := signals tr - 1\<rparr>)"
| ts_finish: "i < length (workers tr) \<Longrightarrow> workers tr ! i = W_Exec task \<Longrightarrow> task_step Q tr (work_finish i task tr)"
| ts_enqueue: "length (tasks tr) < Q \<Longrightarrow> TaskRunner_enqueue task tr = Some tr' \<Longrightarrow> task_step Q tr tr'"
| ts_add_enter: "0 < adds tr \<Longrightarrow> task_step Q tr (add_enter tr)"
| ts_add_check: "adding tr = A_Check \<Longrightarrow> task_step Q tr (add_check tr)"
| ts_add_start: "adding tr = A_Start \<Longrightarrow> task_step Q tr (add_start created tr)"
| ts_clear: "task_step Q tr (TaskRunner_clear tr)"
| ts_activate: "TaskRunner_activate tr = Some tr' \<Longrightarrow> task_step Q tr tr'"
| ts_deactivate: "task_step Q tr (TaskRunner_deactivate tr)"
| ts_wait: "TaskRunner_wait tr = Some tr' \<Longrightarrow> task_step Q tr tr'"

section \<open>The invariant\<close>

lemma sum_list_map_update:
  fixes f :: "'w \<Rightarrow> 'b :: cancel_comm_monoid_add"
  shows "i < length ws \<Longrightarrow> (\<Sum>w\<leftarrow>ws[i := w']. f w) + f (ws ! i) = (\<Sum>w\<leftarrow>ws. f w) + f w'"
proof (induction ws arbitrary: i)
  case (Cons w ws)
  show ?case using Cons.IH [of "i - 1"] Cons.prems by (cases i) (simp_all add: ac_simps)
qed simp

text \<open>
  What a worker contributes: to the unused threads, to the waiting ones, to those that will look at
  the queue, to the running ones, and to the tasks in execution.
\<close>

fun w_credit :: "'a worker \<Rightarrow> nat" where
  "w_credit (W_Lock increased) = (if increased then 1 else 0)"
| "w_credit W_Wait = 1"
| "w_credit W_Woken = 1"
| "w_credit _ = 0"

fun w_waits :: "'a worker \<Rightarrow> nat" where
  "w_waits W_Wait = 1"
| "w_waits W_Woken = 1"
| "w_waits _ = 0"

fun w_awake :: "'a worker \<Rightarrow> nat" where
  "w_awake (W_Lock increased) = 1"
| "w_awake W_Woken = 1"
| "w_awake _ = 0"

fun w_alive :: "'a worker \<Rightarrow> nat" where
  "w_alive W_Exit = 0"
| "w_alive _ = 1"

fun w_task :: "'a worker \<Rightarrow> 'a multiset" where
  "w_task (W_Exec task) = {#task#}"
| "w_task _ = {#}"

definition total :: "('a worker \<Rightarrow> 'b :: comm_monoid_add) \<Rightarrow> 'a TaskRunner \<Rightarrow> 'b" where
  "total f tr = (\<Sum>w\<leftarrow>workers tr. f w)"

text \<open>
  The counters are those of the workers; \<open>leak\<close> is the number of unused threads counted without a
  worker behind them.
\<close>

definition counters_ok :: "nat \<Rightarrow> nat \<Rightarrow> 'a TaskRunner \<Rightarrow> bool" where
  "counters_ok Q leak tr \<longleftrightarrow>
     unused tr = total w_credit tr + (if adding tr = A_Start then 1 else 0) + leak \<and>
     leak + (if adding tr = A_Start then 1 else 0) \<le> max Q (START_THREADS tr) \<and>
     waiting tr = total w_waits tr \<and> alive (ao tr) = total w_alive tr \<and>
     length (workers tr) \<le> NUMBER_OF_THREADS tr \<and> START_THREADS tr \<le> NUMBER_OF_THREADS tr \<and>
     NUMBER_OF_THREADS tr + Q < 2 ^ 31 \<and> W_Abort \<notin> set (workers tr)"

definition queue_ok :: "nat \<Rightarrow> 'a TaskRunner \<Rightarrow> bool" where
  "queue_ok Q tr \<longleftrightarrow>
     length (tasks tr) \<le> Q \<and> (MAX_PENDING_TASKS tr \<noteq> 0 \<longrightarrow> length (tasks tr) \<le> MAX_PENDING_TASKS tr) \<and>
     accepted tr = taken tr @ tasks tr \<and> mset (taken tr) = mset (finished tr) + total w_task tr"

text \<open>If a worker waits although there are tasks, enough signals or other workers are on the way.\<close>

definition wakeup_ok :: "'a TaskRunner \<Rightarrow> bool" where
  "wakeup_ok tr \<longleftrightarrow>
     (W_Wait \<in> set (workers tr) \<longrightarrow> \<not> terminating (ao tr) \<and> length (tasks tr) \<le> signals tr + total w_awake tr)"

lemma total_set_worker:
  fixes f :: "'a worker \<Rightarrow> 'b :: cancel_comm_monoid_add"
  assumes "i < length (workers tr)"
  shows "total f (set_worker i w tr) + f (workers tr ! i) = total f tr + f w"
  using sum_list_map_update [OF assms, of f w] by (simp add: total_def set_worker_def)

lemma total_cong [simp]:
  "total f (tr\<lparr>unused := u\<rparr>) = total f tr" "total f (tr\<lparr>waiting := u\<rparr>) = total f tr"
  "total f (tr\<lparr>tasks := ts\<rparr>) = total f tr" "total f (tr\<lparr>taken := ts\<rparr>) = total f tr"
  "total f (tr\<lparr>accepted := ts\<rparr>) = total f tr" "total f (tr\<lparr>finished := ts\<rparr>) = total f tr"
  "total f (tr\<lparr>signals := u\<rparr>) = total f tr" "total f (tr\<lparr>adds := u\<rparr>) = total f tr"
  "total f (tr\<lparr>adding := ad\<rparr>) = total f tr" "total f (tr\<lparr>ao := a\<rparr>) = total f tr"
  by (simp_all add: total_def)

lemma set_worker_fields [simp]:
  "unused (set_worker i w tr) = unused tr" "waiting (set_worker i w tr) = waiting tr" "tasks (set_worker i w tr) = tasks tr"
  "signals (set_worker i w tr) = signals tr" "adds (set_worker i w tr) = adds tr" "adding (set_worker i w tr) = adding tr"
  "ao (set_worker i w tr) = ao tr" "accepted (set_worker i w tr) = accepted tr" "taken (set_worker i w tr) = taken tr"
  "finished (set_worker i w tr) = finished tr" "START_THREADS (set_worker i w tr) = START_THREADS tr"
  "NUMBER_OF_THREADS (set_worker i w tr) = NUMBER_OF_THREADS tr" "MAX_PENDING_TASKS (set_worker i w tr) = MAX_PENDING_TASKS tr"
  "workers (set_worker i w tr) = (workers tr)[i := w]"
  by (simp_all add: set_worker_def)

lemma total_set_worker_cong [simp]:
  "total f (set_worker i w (tr\<lparr>unused := u\<rparr>)) = total f (set_worker i w tr)"
  "total f (set_worker i w (tr\<lparr>waiting := u\<rparr>)) = total f (set_worker i w tr)"
  "total f (set_worker i w (tr\<lparr>tasks := ts\<rparr>)) = total f (set_worker i w tr)"
  "total f (set_worker i w (tr\<lparr>taken := ts\<rparr>)) = total f (set_worker i w tr)"
  "total f (set_worker i w (tr\<lparr>finished := ts\<rparr>)) = total f (set_worker i w tr)"
  "total f (set_worker i w (tr\<lparr>signals := u\<rparr>)) = total f (set_worker i w tr)"
  "total f (set_worker i w (tr\<lparr>ao := a\<rparr>)) = total f (set_worker i w tr)"
  by (simp_all add: total_def)

lemma not_in_update: "x \<notin> set ws \<Longrightarrow> w \<noteq> x \<Longrightarrow> x \<notin> set (ws[i := w])"
  using set_update_subset_insert [of ws i w] by auto

lemma wait_in_update: "W_Wait \<in> set (ws[i := w]) \<Longrightarrow> w \<noteq> W_Wait \<Longrightarrow> W_Wait \<in> set ws"
  using set_update_subset_insert [of ws i w] by auto

lemma inc32_exact: "n < 2 ^ 32 - 1 \<Longrightarrow> inc32 n = n + 1"
  by (simp add: inc32_def)

lemma dec32_exact: "0 < n \<Longrightarrow> n < 2 ^ 32 \<Longrightarrow> dec32 n = n - 1"
proof -
  assume "0 < n" and "n < 2 ^ 32"
  then have "n + 2 ^ 32 - 1 = (n - 1) + 2 ^ 32" and "n - 1 < 2 ^ 32" by simp_all
  then show ?thesis unfolding dec32_def by (simp only: mod_add_self2 mod_less)
qed

lemma credit_le: "total w_credit tr \<le> length (workers tr)"
proof -
  have "(\<Sum>w\<leftarrow>ws. w_credit w) \<le> length ws" for ws :: "'a worker list"
  proof (induction ws)
    case (Cons w ws)
    then show ?case by (cases w) auto
  qed simp
  then show ?thesis by (simp add: total_def)
qed

lemma counters_bound: "counters_ok Q leak tr \<Longrightarrow> unused tr < 2 ^ 32 - 1"
  using credit_le [of tr] by (auto simp: counters_ok_def max_def split: if_splits)

definition task_inv :: "nat \<Rightarrow> nat \<Rightarrow> 'a TaskRunner \<Rightarrow> bool" where
  "task_inv Q leak tr \<longleftrightarrow> counters_ok Q leak tr \<and> queue_ok Q tr \<and> wakeup_ok tr"

lemmas task_inv_defs = task_inv_def counters_ok_def queue_ok_def wakeup_ok_def

text \<open>The totals when one worker changes.\<close>

lemma totals_set_worker:
  assumes "i < length (workers tr)"
  shows "total w_credit (set_worker i w tr) + w_credit (workers tr ! i) = total w_credit tr + w_credit w"
    and "total w_waits (set_worker i w tr) + w_waits (workers tr ! i) = total w_waits tr + w_waits w"
    and "total w_awake (set_worker i w tr) + w_awake (workers tr ! i) = total w_awake tr + w_awake w"
    and "total w_alive (set_worker i w tr) + w_alive (workers tr ! i) = total w_alive tr + w_alive w"
    and "total w_task (set_worker i w tr) + w_task (workers tr ! i) = total w_task tr + w_task w"
  using total_set_worker [OF assms] by blast+

lemma worker_ready:
  assumes inv: "task_inv Q leak tr" and i: "i < length (workers tr)" and w: "workers tr ! i = W_Lock False"
  shows "task_inv Q leak (set_worker i (W_Lock True) (tr\<lparr>unused := inc32 (unused tr)\<rparr>))"
proof -
  have "inc32 (unused tr) = unused tr + 1"
    using inv counters_bound inc32_exact unfolding task_inv_def by blast
  moreover note totals_set_worker [OF i, where w = "W_Lock True", unfolded w]
  ultimately show ?thesis
    using inv not_in_update [of W_Abort "workers tr" _ i] wait_in_update [of "workers tr" i]
    by (auto simp: task_inv_defs)
qed

lemma worker_woken:
  assumes inv: "task_inv Q leak tr" and i: "i < length (workers tr)" and w: "workers tr ! i = W_Woken"
  shows "task_inv Q leak (set_worker i (W_Lock True) (tr\<lparr>waiting := waiting tr - 1\<rparr>))"
proof -
  note totals_set_worker [OF i, where w = "W_Lock True", unfolded w]
  then show ?thesis
    using inv not_in_update [of W_Abort "workers tr" _ i] wait_in_update [of "workers tr" i]
    by (auto simp: task_inv_defs)
qed

lemma work_section_inv:
  assumes inv: "task_inv Q leak tr" and i: "i < length (workers tr)" and w: "workers tr ! i = W_Lock True"
  shows "task_inv Q leak (work_section i tr)"
proof -
  have "0 < total w_credit tr" "0 < total w_alive tr" "0 < total w_awake tr"
    using totals_set_worker [OF i, where w = W_Exit] w by auto
  then have pos: "0 < unused tr" using inv by (simp add: task_inv_defs)
  have dec: "dec32 (unused tr) = unused tr - 1"
    using inv counters_bound [of Q leak tr] dec32_exact [OF pos] by (simp add: task_inv_def)
  consider "terminating (ao tr)" | "\<not> terminating (ao tr)" "tasks tr = []"
    | task rest where "\<not> terminating (ao tr)" "tasks tr = task # rest" by (cases "tasks tr") auto
  then show ?thesis
  proof cases
    case 1
    note totals_set_worker [OF i, where w = W_Exit, unfolded w]
    then show ?thesis
      using 1 inv pos dec not_in_update [of W_Abort "workers tr" _ i] wait_in_update [of "workers tr" i]
      by (auto simp: task_inv_defs work_section_def)
  next
    case 2
    note totals_set_worker [OF i, where w = W_Wait, unfolded w]
    then show ?thesis
      using 2 inv not_in_update [of W_Abort "workers tr" _ i]
      by (auto simp: task_inv_defs work_section_def)
  next
    case (3 task rest)
    note totals_set_worker [OF i, where w = "W_Exec task", unfolded w]
    then show ?thesis
      using 3 inv pos dec not_in_update [of W_Abort "workers tr" _ i] wait_in_update [of "workers tr" i]
      by (auto simp: task_inv_defs work_section_def)
  qed
qed

lemma work_section_set: "work_section i (set_worker i w tr) = work_section i tr"
  by (simp add: work_section_def set_worker_def split: list.split)

lemma work_enter_inv:
  assumes "task_inv Q leak tr" and "i < length (workers tr)" and "workers tr ! i = W_Lock increased"
  shows "task_inv Q leak (work_enter i increased tr)"
proof (cases increased)
  case True
  then show ?thesis using work_section_inv [OF assms(1,2)] assms(3) by (simp add: work_enter_def)
next
  case False
  then show ?thesis
    using worker_ready [OF assms(1,2)] work_section_inv [of Q leak "set_worker i (W_Lock True) (tr\<lparr>unused := inc32 (unused tr)\<rparr>)" i]
      assms(2,3) by (simp add: work_enter_def work_section_set)
qed

lemma work_wake_inv:
  assumes "task_inv Q leak tr" and "i < length (workers tr)" and "workers tr ! i = W_Woken"
  shows "task_inv Q leak (work_wake i tr)"
  using worker_woken [OF assms] work_section_inv [of Q leak "set_worker i (W_Lock True) (tr\<lparr>waiting := waiting tr - 1\<rparr>)" i]
    assms(2) by (simp add: work_wake_def work_section_set)

lemma worker_signalled:
  assumes inv: "task_inv Q leak tr" and i: "i < length (workers tr)" and w: "workers tr ! i = W_Wait" and s: "s \<le> 1" "s \<le> signals tr"
  shows "task_inv Q leak (set_worker i W_Woken (tr\<lparr>signals := signals tr - s\<rparr>))"
proof -
  note totals_set_worker [OF i, where w = W_Woken, unfolded w]
  then show ?thesis
    using inv s not_in_update [of W_Abort "workers tr" _ i] wait_in_update [of "workers tr" i]
    by (auto simp: task_inv_defs)
qed

lemma work_finish_inv:
  assumes inv: "task_inv Q leak tr" and i: "i < length (workers tr)" and w: "workers tr ! i = W_Exec task"
  shows "task_inv Q leak (work_finish i task tr)"
proof -
  note totals_set_worker [OF i, where w = "W_Lock False", unfolded w]
  then show ?thesis
    using inv not_in_update [of W_Abort "workers tr" _ i] wait_in_update [of "workers tr" i]
    by (auto simp: task_inv_defs work_finish_def)
qed

text \<open>Steps that are not an activation.\<close>

definition quiet_step :: "nat \<Rightarrow> 'a TaskRunner \<Rightarrow> 'a TaskRunner \<Rightarrow> bool" where
  "quiet_step Q tr tr' \<longleftrightarrow> task_step Q tr tr' \<and> \<not> (active_state (ao tr) = AS_NOT_ACTIVE \<and> active_state (ao tr') = AS_ACTIVE)"

lemma enqueue_inv:
  assumes inv: "task_inv Q leak tr" and "length (tasks tr) < Q" and "TaskRunner_enqueue task tr = Some tr'"
  shows "task_inv Q leak tr'"
proof -
  have "0 < total w_waits tr" if wait: "W_Wait \<in> set (workers tr)"
  proof -
    obtain i where i: "i < length (workers tr)" "workers tr ! i = W_Wait" using wait by (auto simp: in_set_conv_nth)
    show ?thesis using totals_set_worker(2) [OF i(1), where w = W_Exit] i(2) by simp
  qed
  then have waits: "W_Wait \<in> set (workers tr) \<longrightarrow> 0 < waiting tr" using inv by (simp add: task_inv_defs)
  have fits: "MAX_PENDING_TASKS tr = 0 \<or> length (tasks tr) < MAX_PENDING_TASKS tr"
    using assms(3) by (simp add: TaskRunner_enqueue_def split: if_splits)
  then have tr': "tr' = tr\<lparr>tasks := tasks tr @ [task], accepted := accepted tr @ [task],
             signals := signals tr + (if waiting tr > 0 then 1 else 0),
             adds := adds tr + (if length (tasks tr) > unused tr then 1 else 0)\<rparr>"
    using assms(3) by (simp add: TaskRunner_enqueue_def)
  have "counters_ok Q leak tr'" using inv unfolding tr' by (simp add: task_inv_def counters_ok_def)
  moreover have "queue_ok Q tr'" using inv fits assms(2) unfolding tr' by (auto simp: task_inv_def queue_ok_def)
  moreover have "wakeup_ok tr'"
    using inv waits unfolding tr' by (cases "0 < waiting tr") (auto simp: task_inv_def wakeup_ok_def)
  ultimately show ?thesis by (simp add: task_inv_def)
qed

lemma add_check_inv:
  assumes inv: "task_inv Q leak tr" and "adding tr = A_Check"
  shows "task_inv Q leak (add_check tr)"
proof -
  have "inc32 (unused tr) = unused tr + 1"
    using inv counters_bound inc32_exact unfolding task_inv_def by blast
  then show ?thesis using assms by (auto simp: task_inv_defs add_check_def)
qed

lemma add_start_inv:
  assumes inv: "task_inv Q leak tr" and a: "adding tr = A_Start"
  shows "\<exists>leak'. task_inv Q leak' (add_start created tr)"
proof (cases "length (workers tr) = 0 \<or> length (workers tr) = NUMBER_OF_THREADS tr")
  case True
  then have "task_inv Q (Suc leak) (add_start created tr)"
    using assms by (auto simp: task_inv_defs add_start_def)
  then show ?thesis by blast
next
  case False
  have "dec32 (unused tr) = unused tr - 1"
    using inv a counters_bound [of Q leak tr] dec32_exact [of "unused tr"] by (auto simp: task_inv_defs)
  then have "task_inv Q leak (add_start created tr)"
    using assms False by (auto simp: task_inv_defs add_start_def total_def)
  then show ?thesis by blast
qed

lemma total_wake_all:
  assumes "f W_Wait = f W_Woken"
  shows "(\<Sum>w\<leftarrow>wake_all ws. f w) = (\<Sum>w\<leftarrow>ws. f w)"
  using assms by (induction ws) (auto simp: wake_all_def)

lemma deactivate_inv:
  assumes inv: "task_inv Q leak tr"
  shows "task_inv Q leak (TaskRunner_deactivate tr)"
proof -
  have "W_Wait \<notin> set (wake_all ws)" "W_Abort \<in> set (wake_all ws) \<longleftrightarrow> W_Abort \<in> set ws" "length (wake_all ws) = length ws"
    for ws :: "'a worker list" by (auto simp: wake_all_def)
  then show ?thesis
    using inv by (auto simp: task_inv_defs TaskRunner_deactivate_def total_def total_wake_all
        ActiveObjectCommonImpl_deactivate_def make_terminate_def)
qed

lemma alive_0: "total w_alive tr = 0 \<Longrightarrow> set (workers tr) \<subseteq> {W_Exit}"
proof -
  assume "total w_alive tr = 0"
  then have "\<forall>w\<in>set (workers tr). w_alive w = 0" by (simp add: total_def sum_list_eq_0_iff)
  then show ?thesis by (metis insertI1 subsetI w_alive.simps(2,3,4,5,6) worker.exhaust zero_neq_one)
qed

lemma wait_inv:
  assumes inv: "task_inv Q leak tr" and "TaskRunner_wait tr = Some tr'"
  shows "task_inv Q leak tr'"
proof (cases "active_state (ao tr) = AS_NOT_ACTIVE")
  case True
  then show ?thesis using assms
    by (auto simp: TaskRunner_wait_def ActiveObjectCommonImpl_wait_pass_def ActiveObjectCommonImpl_wait_end_def)
next
  case False
  then have alive: "alive (ao tr) = 0" using assms(2)
    by (auto simp: TaskRunner_wait_def ActiveObjectCommonImpl_wait_pass_def split: if_splits)
  then have exits: "set (workers tr) \<subseteq> {W_Exit}" using inv alive_0 [of tr] by (simp add: task_inv_defs)
  have tr': "tr' = tr\<lparr>ao := ActiveObjectCommonImpl_wait_end (terminated (ao tr)), workers := []\<rparr>"
    using False assms(2) alive by (simp add: TaskRunner_wait_def ActiveObjectCommonImpl_wait_pass_def)
  have "(\<Sum>w\<leftarrow>ws. f w) = 0" if "set ws \<subseteq> {W_Exit}" "f W_Exit = 0" for ws :: "'a worker list" and f :: "'a worker \<Rightarrow> 'z :: comm_monoid_add"
    using that by (induction ws) auto
  from this [OF exits, of w_credit] this [OF exits, of w_waits] this [OF exits, of w_task] show ?thesis
    using inv alive tr' unfolding task_inv_defs total_def
    by (simp add: ActiveObjectCommonImpl_wait_end_def terminated_def)
qed

lemma quiet_step_inv:
  assumes "quiet_step Q tr tr'" and inv: "task_inv Q leak tr"
  shows "\<exists>leak'. task_inv Q leak' tr'"
proof -
  have "task_step Q tr tr'" and quiet: "\<not> (active_state (ao tr) = AS_NOT_ACTIVE \<and> active_state (ao tr') = AS_ACTIVE)"
    using assms(1) by (auto simp: quiet_step_def)
  then show ?thesis
  proof cases
    case (ts_enter i increased)
    then show ?thesis using work_enter_inv [OF inv] by blast
  next
    case (ts_wake i)
    then show ?thesis using work_wake_inv [OF inv] by blast
  next
    case (ts_spurious i)
    then show ?thesis using worker_signalled [OF inv ts_spurious(2,3), of 0] by auto
  next
    case (ts_signal i)
    then show ?thesis using worker_signalled [OF inv ts_signal(3,4), of 1] by auto
  next
    case ts_signal_none
    then have "task_inv Q leak tr'" using inv by (simp add: task_inv_defs)
    then show ?thesis ..
  next
    case (ts_finish i task)
    then show ?thesis using work_finish_inv [OF inv] by blast
  next
    case (ts_enqueue task)
    then show ?thesis using enqueue_inv [OF inv] by blast
  next
    case ts_add_enter
    then have "task_inv Q leak tr'" using inv by (cases "adding tr") (simp_all add: task_inv_defs add_enter_def)
    then show ?thesis ..
  next
    case ts_add_check
    then show ?thesis using add_check_inv [OF inv] by blast
  next
    case (ts_add_start created)
    then show ?thesis using add_start_inv [OF inv] by blast
  next
    case ts_clear
    then have "task_inv Q leak tr'" using inv by (simp add: task_inv_defs TaskRunner_clear_def)
    then show ?thesis ..
  next
    case ts_activate
    then have "active_state (ao tr) = AS_NOT_ACTIVE \<and> active_state (ao tr') = AS_ACTIVE"
      by (auto simp: TaskRunner_activate_def ActiveObjectCommonImpl_activate_def Let_def split: if_splits)
    then show ?thesis using quiet by simp
  next
    case ts_deactivate
    then show ?thesis using deactivate_inv [OF inv] by blast
  next
    case ts_wait
    then show ?thesis using wait_inv [OF inv] by blast
  qed
qed

lemma TaskRunner_new_inv:
  assumes "s \<le> n" and "0 < n" and "n + Q < 2 ^ 31"
  shows "task_inv Q (max s 1) (TaskRunner_new n mx s)"
  using assms by (simp add: task_inv_defs TaskRunner_new_def total_def ActiveObjectCommonImpl_new_def)

text \<open>Before the first activation there are no workers, and the threads to be started are counted.\<close>

definition before_activation :: "'a TaskRunner \<Rightarrow> bool" where
  "before_activation tr \<longleftrightarrow> workers tr = [] \<and> active_state (ao tr) = AS_NOT_ACTIVE \<and> \<not> terminating (ao tr) \<and>
     START_THREADS tr + (if adding tr = A_Start then 1 else 0) \<le> unused tr"

lemma before_activation_step:
  assumes "quiet_step Q tr tr'" and b: "before_activation tr" and inv: "task_inv Q leak tr"
  shows "before_activation tr'"
proof -
  have inc: "inc32 (unused tr) = unused tr + 1"
    using inv counters_bound inc32_exact unfolding task_inv_def by blast
  have "task_step Q tr tr'" and quiet: "\<not> (active_state (ao tr) = AS_NOT_ACTIVE \<and> active_state (ao tr') = AS_ACTIVE)"
    using assms(1) by (auto simp: quiet_step_def)
  then show ?thesis
  proof cases
    case ts_enqueue
    then show ?thesis using b by (auto simp: before_activation_def TaskRunner_enqueue_def split: if_splits)
  next
    case ts_add_enter
    then show ?thesis using b by (cases "adding tr") (simp_all add: before_activation_def add_enter_def)
  next
    case ts_activate
    then show ?thesis using quiet b
      by (auto simp: before_activation_def TaskRunner_activate_def ActiveObjectCommonImpl_activate_def Let_def split: if_splits)
  next
    case ts_wait
    then show ?thesis using b
      by (auto simp: before_activation_def TaskRunner_wait_def ActiveObjectCommonImpl_wait_pass_def ActiveObjectCommonImpl_wait_end_def)
  qed (use b inc in \<open>auto simp: before_activation_def add_check_def add_start_def TaskRunner_clear_def TaskRunner_deactivate_def\<close>)
qed

lemma quiet_run_inv: "(quiet_step Q)\<^sup>*\<^sup>* tr tr' \<Longrightarrow> task_inv Q leak tr \<Longrightarrow> \<exists>leak'. task_inv Q leak' tr'"
  by (induction rule: rtranclp_induct) (auto dest: quiet_step_inv)

lemma before_activation_run:
  "(quiet_step Q)\<^sup>*\<^sup>* tr tr' \<Longrightarrow> before_activation tr \<Longrightarrow> task_inv Q leak tr \<Longrightarrow>
   before_activation tr' \<and> (\<exists>leak'. task_inv Q leak' tr')"
proof (induction rule: rtranclp_induct)
  case (step y z)
  then show ?case using before_activation_step quiet_step_inv by blast
qed blast

lemma activate_inv:
  fixes tr :: "'a TaskRunner"
  assumes inv: "task_inv Q leak tr" and b: "before_activation tr" and act: "TaskRunner_activate tr = Some tr'"
  shows "\<exists>leak'. task_inv Q leak' tr'"
proof -
  have start: "START_THREADS tr \<le> NUMBER_OF_THREADS tr" using inv by (simp add: task_inv_defs)
  have tr': "tr' = tr\<lparr>ao := (ao tr)\<lparr>active_state := AS_ACTIVE, alive := START_THREADS tr\<rparr>,
      workers := replicate (START_THREADS tr) (W_Lock True)\<rparr>"
    using act b start by (auto simp: TaskRunner_activate_def ActiveObjectCommonImpl_activate_def before_activation_def Let_def)
  have "counters_ok Q (leak - START_THREADS tr) tr'"
    using inv b unfolding tr' by (auto simp: task_inv_def counters_ok_def before_activation_def total_def sum_list_replicate)
  moreover have "sum_list (replicate k ({#} :: 'a multiset)) = {#}" for k by (induction k) simp_all
  then have "queue_ok Q tr'"
    using inv b unfolding tr' by (simp add: task_inv_def queue_ok_def before_activation_def total_def sum_list_replicate)
  moreover have "wakeup_ok tr'" unfolding tr' by (simp add: wakeup_ok_def)
  ultimately show ?thesis unfolding task_inv_def by blast
qed

text \<open>The first session: from the construction over the first activation, without a second one.\<close>

lemma first_session_inv:
  assumes "s \<le> n" and "0 < n" and "n + Q < 2 ^ 31"
    and "(quiet_step Q)\<^sup>*\<^sup>* (TaskRunner_new n mx s) tr1" and "TaskRunner_activate tr1 = Some tr2" and "(quiet_step Q)\<^sup>*\<^sup>* tr2 tr"
  shows "\<exists>leak. task_inv Q leak tr"
proof -
  have "before_activation (TaskRunner_new n mx s)"
    by (simp add: before_activation_def TaskRunner_new_def ActiveObjectCommonImpl_new_def)
  from before_activation_run [OF assms(4) this TaskRunner_new_inv [OF assms(1-3)]]
  obtain leak where "before_activation tr1" "task_inv Q leak tr1" by blast
  then obtain leak' where "task_inv Q leak' tr2" using activate_inv assms(5) by blast
  then show ?thesis using quiet_run_inv [OF assms(6)] by blast
qed

section \<open>Properties\<close>




end
