(* ===== verification/Planner.thy ===== *)
theory Planner
  imports Time_Arith Active_Object "HOL-Library.Multiset"
begin

text \<open>
  \<^verbatim>\<open>Generics::Planner\<close> (src/src/Generics/Scheduler.cpp): one thread that delivers goals at given times. The
  thread, the threads that schedule and unschedule goals, and the termination interleave; each section
  under the mutex is one step. Clock readings are arguments; so is how a wait on the condition ends.
\<close>

section \<open>State\<close>

type_synonym 'g message = "timeval \<times> 'g"

text \<open>
  The thread is at the head of its loop; past the first lock with nothing to deliver, knowing the time
  of the next message; blocked in the wait on the condition; delivering; or has returned.
\<close>

datatype planner_pc = P_Loop | P_Check "timeval option" | P_Wait "timeval option" | P_Deliver | P_Exit

text \<open>\<open>deliveries\<close> records each delivered message with the clock reading of its round.\<close>

record 'g PlannerJob =
  have_new_events :: bool
  messages :: "'g message list"
  delivery_time_adjustment :: bool
  delivery_time_shift :: timeval
  job_terminating :: bool
  pending :: "'g message list"
  round_time :: timeval
  planner_pc :: planner_pc
  deliveries :: "(timeval \<times> 'g message) list"

definition PlannerJob_new :: "bool \<Rightarrow> 'g PlannerJob" where
  "PlannerJob_new adjustment = \<lparr>have_new_events = False, messages = [], delivery_time_adjustment = adjustment,
     delivery_time_shift = Time_ZERO, job_terminating = False, pending = [], round_time = Time_ZERO,
     planner_pc = P_Loop, deliveries = []\<rparr>"

section \<open>Calls of other threads\<close>

datatype planner_error = InvalidArgument

text \<open>The search runs from the end to the last message before \<open>tm\<close>; the result is also whether the new message is the first one.\<close>

definition insert_message :: "'g message \<Rightarrow> 'g message list \<Rightarrow> 'g message list \<times> bool" where
  "insert_message m ms =
     (let after = rev (takeWhile (\<lambda>m'. \<not> Time_lt (fst m') (fst m)) (rev ms));
          before = rev (dropWhile (\<lambda>m'. \<not> Time_lt (fst m') (fst m)) (rev ms))
      in (before @ m # after, before = []))"

definition Planner_schedule :: "'g option \<Rightarrow> timeval \<Rightarrow> 'g PlannerJob \<Rightarrow> planner_error + 'g PlannerJob" where
  "Planner_schedule goal time job =
     (case goal of
        None \<Rightarrow> Inl InvalidArgument
      | Some g \<Rightarrow>
          let tm = (if Time_gt time Time_ZERO then time else Time_ZERO);
              (ms, signal) = insert_message (tm, g) (messages job)
          in Inr (job\<lparr>messages := ms, have_new_events := signal \<or> have_new_events job\<rparr>))"

definition Planner_unschedule :: "'g \<Rightarrow> 'g PlannerJob \<Rightarrow> nat \<times> 'g PlannerJob" where
  "Planner_unschedule goal job =
     (length (filter (\<lambda>m. snd m = goal) (messages job)), job\<lparr>messages := filter (\<lambda>m. snd m \<noteq> goal) (messages job)\<rparr>)"

definition Planner_clear :: "'g PlannerJob \<Rightarrow> 'g PlannerJob" where
  "Planner_clear job = job\<lparr>messages := []\<rparr>"

definition Planner_terminate :: "'g PlannerJob \<Rightarrow> 'g PlannerJob" where
  "Planner_terminate job = job\<lparr>job_terminating := True, have_new_events := True\<rparr>"

section \<open>The thread\<close>

definition adjusted :: "'g PlannerJob \<Rightarrow> timeval \<Rightarrow> timeval" where
  "adjusted job t =
     (if delivery_time_adjustment job
      then if Time_gt t (delivery_time_shift job) then Time_sub t (delivery_time_shift job) else Time_ZERO
      else t)"

text \<open>The overdue messages, the others, and the time of the first of these.\<close>

fun pump :: "'g PlannerJob \<Rightarrow> timeval \<Rightarrow> 'g message list \<Rightarrow> 'g message list \<times> 'g message list \<times> timeval option" where
  "pump job cur_time [] = ([], [], None)"
| "pump job cur_time (m # ms) =
     (if Time_le (adjusted job (fst m)) cur_time
      then case pump job cur_time ms of (overdue, rest, abs_time) \<Rightarrow> (m # overdue, rest, abs_time)
      else ([], m # ms, Some (adjusted job (fst m))))"

definition planner_pump :: "timeval \<Rightarrow> 'g PlannerJob \<Rightarrow> 'g PlannerJob" where
  "planner_pump cur_time job =
     (if job_terminating job then job\<lparr>planner_pc := P_Exit\<rparr>
      else case pump job cur_time (messages job) of
             (overdue, rest, abs_time) \<Rightarrow>
               job\<lparr>messages := rest, pending := pending job @ overdue, round_time := cur_time,
                 planner_pc := if pending job @ overdue = [] then P_Check abs_time else P_Deliver\<rparr>)"

text \<open>After the loop on the condition: \<open>new_event\<close> is its outcome, \<open>wake_tm\<close> the clock.\<close>

definition planner_after_wait :: "timeval option \<Rightarrow> bool \<Rightarrow> timeval \<Rightarrow> 'g PlannerJob \<Rightarrow> 'g PlannerJob" where
  "planner_after_wait abs_time new_event wake_tm job =
     (if job_terminating job then job\<lparr>planner_pc := P_Exit\<rparr>
      else if new_event then
        job\<lparr>have_new_events := False, planner_pc := P_Loop,
          delivery_time_shift :=
            (case abs_time of
               None \<Rightarrow> delivery_time_shift job
             | Some t \<Rightarrow>
                 if delivery_time_adjustment job \<and> Time_gt wake_tm t
                 then (case Time_div (Time_sub wake_tm t) 2 of None \<Rightarrow> delivery_time_shift job | Some s \<Rightarrow> s)
                 else delivery_time_shift job)\<rparr>
      else job\<lparr>planner_pc := P_Deliver\<rparr>)"

definition planner_check :: "timeval option \<Rightarrow> timeval \<Rightarrow> 'g PlannerJob \<Rightarrow> 'g PlannerJob" where
  "planner_check abs_time wake_tm job =
     (if have_new_events job then planner_after_wait abs_time True wake_tm job else job\<lparr>planner_pc := P_Wait abs_time\<rparr>)"

text \<open>\<open>signalled\<close>: the wait returned without running into its time and without raising.\<close>

definition planner_wake :: "timeval option \<Rightarrow> bool \<Rightarrow> timeval \<Rightarrow> 'g PlannerJob \<Rightarrow> 'g PlannerJob" where
  "planner_wake abs_time signalled wake_tm job =
     planner_after_wait abs_time (have_new_events job \<and> signalled) wake_tm job"

definition planner_deliver :: "'g PlannerJob \<Rightarrow> 'g PlannerJob" where
  "planner_deliver job =
     (case pending job of
        [] \<Rightarrow> job\<lparr>planner_pc := P_Loop\<rparr>
      | m # ms \<Rightarrow> job\<lparr>pending := ms, deliveries := deliveries job @ [(round_time job, m)]\<rparr>)"

section \<open>Steps\<close>

inductive planner_step :: "'g PlannerJob \<Rightarrow> 'g PlannerJob \<Rightarrow> bool" where
  ps_schedule: "Time_ok time \<Longrightarrow> Planner_schedule (Some goal) time job = Inr job' \<Longrightarrow> planner_step job job'"
| ps_unschedule: "planner_step job (snd (Planner_unschedule goal job))"
| ps_clear: "planner_step job (Planner_clear job)"
| ps_terminate: "planner_step job (Planner_terminate job)"
| ps_pump: "planner_pc job = P_Loop \<Longrightarrow> Time_ok cur_time \<Longrightarrow> planner_step job (planner_pump cur_time job)"
| ps_check: "planner_pc job = P_Check abs_time \<Longrightarrow> Time_ok wake_tm \<Longrightarrow> planner_step job (planner_check abs_time wake_tm job)"
| ps_wake: "planner_pc job = P_Wait abs_time \<Longrightarrow> Time_ok wake_tm \<Longrightarrow> planner_step job (planner_wake abs_time signalled wake_tm job)"
| ps_deliver: "planner_pc job = P_Deliver \<Longrightarrow> planner_step job (planner_deliver job)"

text \<open>
  The thread alone, with the clock at \<open>now\<close>: the wait on the condition ends if there are new events
  (they were signalled) or if its time has come, and blocks otherwise.
\<close>

definition planner_thread :: "timeval \<Rightarrow> 'g PlannerJob \<Rightarrow> 'g PlannerJob option" where
  "planner_thread now job =
     (case planner_pc job of
        P_Loop \<Rightarrow> Some (planner_pump now job)
      | P_Check abs_time \<Rightarrow> Some (planner_check abs_time now job)
      | P_Wait abs_time \<Rightarrow>
          if have_new_events job then Some (planner_wake abs_time True now job)
          else (case abs_time of
                  None \<Rightarrow> None
                | Some t \<Rightarrow> if Time_le t now then Some (planner_wake abs_time False now job) else None)
      | P_Deliver \<Rightarrow> Some (planner_deliver job)
      | P_Exit \<Rightarrow> None)"

section \<open>Times\<close>

lemma Time_le_microseconds: "Time_ok a \<Longrightarrow> Time_ok b \<Longrightarrow> a \<le> b \<longleftrightarrow> Time_microseconds a \<le> Time_microseconds b"
  for a b :: timeval
  using Time_lt_iff [of b a] by (simp add: Time_lt_less not_less [symmetric])

lemma Time_less_microseconds: "Time_ok a \<Longrightarrow> Time_ok b \<Longrightarrow> a < b \<longleftrightarrow> Time_microseconds a < Time_microseconds b"
  for a b :: timeval
  using Time_lt_iff [of a b] by (simp add: Time_lt_less)

lemma Time_gt_less: "Time_gt a b \<longleftrightarrow> b < a" for a b :: timeval
  by (auto simp: Time_gt_def Time_lt_less Time_eq_eq not_less_iff_gr_or_eq)

lemma adjusted_ok: "Time_ok t \<Longrightarrow> Time_ok (delivery_time_shift job) \<Longrightarrow> Time_ok (adjusted job t)"
  by (simp add: adjusted_def)

lemma adjusted_mono:
  assumes "Time_ok t" and "Time_ok t'" and "Time_ok (delivery_time_shift job)" and "t \<le> t'"
  shows "adjusted job t \<le> adjusted job t'"
proof (cases "delivery_time_adjustment job")
  case True
  then show ?thesis
    using assms adjusted_ok [of t job] adjusted_ok [of t' job]
    by (auto simp: Time_le_microseconds adjusted_def Time_gt_less Time_less_microseconds)
qed (use assms(4) in \<open>simp add: adjusted_def\<close>)

section \<open>The queue\<close>

lemma takeWhile_dropWhile_split:
  "\<forall>x\<in>set b. Q x \<Longrightarrow> (a \<noteq> [] \<Longrightarrow> \<not> Q (hd a)) \<Longrightarrow> takeWhile Q (b @ a) = b \<and> dropWhile Q (b @ a) = a"
proof (induction b)
  case Nil
  then show ?case by (cases a) auto
qed simp

lemma sorted_split:
  fixes k :: timeval
  assumes "sorted (map fst ms)"
  obtains a b where "ms = a @ b" "\<forall>x\<in>set a. fst x < k" "\<forall>x\<in>set b. k \<le> fst x"
  using assms
proof (induction ms arbitrary: thesis)
  case (Cons m ms)
  show ?case
  proof (cases "fst m < k")
    case True
    obtain a b where "ms = a @ b" "\<forall>x\<in>set a. fst x < k" "\<forall>x\<in>set b. k \<le> fst x" using Cons by auto
    then show ?thesis using True by (intro Cons.prems(1) [of "m # a" b]) auto
  next
    case False
    then show ?thesis using Cons.prems(2) by (intro Cons.prems(1) [of "[]" "m # ms"]) auto
  qed
qed simp

lemma insert_message_props:
  assumes "sorted (map fst ms)" and "insert_message m ms = (ms', signal)"
  shows "sorted (map fst ms')" and "set ms' = insert m (set ms)" and "mset ms' = mset ms + {#m#}"
    and "\<not> signal \<Longrightarrow> \<exists>m'\<in>set ms. fst m' \<le> fst m"
proof -
  obtain a b where ab: "ms = a @ b" "\<forall>x\<in>set a. fst x < fst m" "\<forall>x\<in>set b. fst m \<le> fst x"
    by (rule sorted_split [OF assms(1)])
  let ?Q = "\<lambda>m'. \<not> fst m' < fst m"
  have "takeWhile ?Q (rev b @ rev a) = rev b \<and> dropWhile ?Q (rev b @ rev a) = rev a"
  proof (rule takeWhile_dropWhile_split)
    show "\<not> ?Q (hd (rev a))" if "rev a \<noteq> []" using ab(2) that by (simp add: hd_rev)
  qed (use ab(3) in auto)
  then have eq: "ms' = a @ m # b" "signal \<longleftrightarrow> a = []"
    using assms(2) by (auto simp: insert_message_def Time_lt_less ab(1) Let_def)
  show "sorted (map fst ms')" using assms(1) ab by (fastforce simp: eq(1) sorted_append)
  show "set ms' = insert m (set ms)" "mset ms' = mset ms + {#m#}" by (auto simp: eq(1) ab(1))
  show "\<exists>m'\<in>set ms. fst m' \<le> fst m" if "\<not> signal"
    using that eq(2) ab(1,2) by (cases a) auto
qed

lemma pump_props:
  assumes "pump job cur ms = (overdue, rest, abs_time)"
  shows "ms = overdue @ rest" and "\<forall>m\<in>set overdue. adjusted job (fst m) \<le> cur"
    and "case abs_time of None \<Rightarrow> rest = [] | Some t \<Rightarrow> rest \<noteq> [] \<and> t = adjusted job (fst (hd rest)) \<and> cur < t"
  using assms
proof (induction ms arbitrary: overdue rest abs_time)
  case (Cons m ms)
  {
    case 1
    then show ?case using Cons by (auto split: if_splits prod.splits)
  next
    case 2
    then show ?case using Cons by (auto simp: Time_le_less_eq split: if_splits prod.splits)
  next
    case 3
    then show ?case using Cons by (auto simp: Time_le_less_eq split: if_splits prod.splits)
  }
qed auto

section \<open>The invariant\<close>

definition times_ok :: "'g PlannerJob \<Rightarrow> bool" where
  "times_ok job \<longleftrightarrow> sorted (map fst (messages job)) \<and> (\<forall>m\<in>set (messages job). Time_ok (fst m)) \<and>
     Time_ok (delivery_time_shift job)"

text \<open>The time at which a wait ends is not later than any message, unless a new event is flagged.\<close>

definition covered :: "timeval option \<Rightarrow> 'g PlannerJob \<Rightarrow> bool" where
  "covered abs_time job \<longleftrightarrow> have_new_events job \<or>
     (case abs_time of None \<Rightarrow> messages job = [] | Some t \<Rightarrow> \<forall>m\<in>set (messages job). t \<le> adjusted job (fst m))"

definition pc_ok :: "'g PlannerJob \<Rightarrow> bool" where
  "pc_ok job \<longleftrightarrow>
     (case planner_pc job of
        P_Check abs_time \<Rightarrow> pending job = [] \<and> covered abs_time job \<and> (\<forall>t. abs_time = Some t \<longrightarrow> Time_ok t)
      | P_Wait abs_time \<Rightarrow> pending job = [] \<and> covered abs_time job \<and> (\<forall>t. abs_time = Some t \<longrightarrow> Time_ok t)
      | P_Loop \<Rightarrow> pending job = []
      | P_Deliver \<Rightarrow> True
      | P_Exit \<Rightarrow> job_terminating job \<and> pending job = [])"

definition deliveries_ok :: "'g PlannerJob \<Rightarrow> bool" where
  "deliveries_ok job \<longleftrightarrow> (\<not> delivery_time_adjustment job \<longrightarrow>
     (\<forall>m\<in>set (pending job). fst m \<le> round_time job) \<and> (\<forall>(cur, m)\<in>set (deliveries job). fst m \<le> cur))"

definition planner_ok :: "'g PlannerJob \<Rightarrow> bool" where
  "planner_ok job \<longleftrightarrow> times_ok job \<and> pc_ok job \<and> deliveries_ok job \<and> (job_terminating job \<longrightarrow> have_new_events job)"

lemmas planner_ok_defs = planner_ok_def times_ok_def pc_ok_def deliveries_ok_def

lemma adjusted_cong [simp]:
  "adjusted (job\<lparr>messages := ms\<rparr>) = adjusted job" "adjusted (job\<lparr>have_new_events := b\<rparr>) = adjusted job"
  "adjusted (job\<lparr>pending := ms\<rparr>) = adjusted job" "adjusted (job\<lparr>round_time := t\<rparr>) = adjusted job"
  "adjusted (job\<lparr>planner_pc := pc\<rparr>) = adjusted job" "adjusted (job\<lparr>job_terminating := b\<rparr>) = adjusted job"
  by (simp_all add: fun_eq_iff adjusted_def)

lemma planner_ok_fewer:
  assumes "planner_ok job" and "sorted (map fst ms)" and "set ms \<subseteq> set (messages job)"
  shows "planner_ok (job\<lparr>messages := ms\<rparr>)"
proof -
  have "covered d (job\<lparr>messages := ms\<rparr>)" if "covered d job" for d
    using that assms(3) by (fastforce simp: covered_def split: option.splits)
  then show ?thesis using assms by (auto simp: planner_ok_defs split: planner_pc.splits)
qed

lemma planner_ok_schedule:
  assumes ok: "planner_ok job" and "Time_ok time" and s: "Planner_schedule (Some g) time job = Inr job'"
  shows "planner_ok job'"
proof -
  define tm where "tm = (if Time_gt time Time_ZERO then time else Time_ZERO)"
  obtain ms signal where ins: "insert_message (tm, g) (messages job) = (ms, signal)" by fastforce
  have job': "job' = job\<lparr>messages := ms, have_new_events := signal \<or> have_new_events job\<rparr>"
    using s ins by (auto simp: Planner_schedule_def tm_def Let_def)
  have tm: "Time_ok tm" using assms(2) by (simp add: tm_def)
  have times: "times_ok job" using ok by (simp add: planner_ok_def)
  note props = insert_message_props [OF _ ins]
  have cov: "covered d job'" if d: "covered d job" for d
  proof (cases "signal \<or> have_new_events job")
    case False
    then obtain m' where m': "m' \<in> set (messages job)" "fst m' \<le> tm" using props(4) times by (auto simp: times_ok_def)
    have mono: "adjusted job (fst m') \<le> adjusted job tm"
      using adjusted_mono [of "fst m'" tm job] m' tm times by (simp add: times_ok_def)
    have "set ms = insert (tm, g) (set (messages job))" using props(2) times by (simp add: times_ok_def)
    then show ?thesis
      using d False m' mono by (fastforce simp: covered_def job' split: option.splits)
  qed (simp add: covered_def job')
  have "times_ok job'" using times props(1,2) tm by (auto simp: times_ok_def job')
  moreover have "pc_ok job'" using ok cov by (auto simp: planner_ok_def pc_ok_def job' split: planner_pc.splits)
  ultimately show ?thesis using ok by (auto simp: planner_ok_def deliveries_ok_def job')
qed

lemma planner_ok_pump:
  assumes ok: "planner_ok job" and pc: "planner_pc job = P_Loop"
  shows "planner_ok (planner_pump cur job)"
proof (cases "job_terminating job")
  case True
  then show ?thesis using ok pc by (auto simp: planner_ok_defs planner_pump_def)
next
  case False
  obtain overdue rest abs_time where p: "pump job cur (messages job) = (overdue, rest, abs_time)" by (cases "pump job cur (messages job)")
  note props = pump_props [OF p]
  have times: "times_ok job" and empty: "pending job = []" using ok pc by (simp_all add: planner_ok_def pc_ok_def)
  have job': "planner_pump cur job = job\<lparr>messages := rest, pending := overdue, round_time := cur,
      planner_pc := if overdue = [] then P_Check abs_time else P_Deliver\<rparr>"
    using False empty by (simp add: planner_pump_def p)
  have rest: "sorted (map fst rest)" "\<forall>m\<in>set rest. Time_ok (fst m)"
    using times props(1) by (auto simp: times_ok_def sorted_append)
  have abs: "t = adjusted job (fst (hd rest)) \<and> rest \<noteq> []" if "abs_time = Some t" for t using props(3) that by simp
  have "Time_ok t" if "abs_time = Some t" for t
    using abs [OF that] rest(2) times adjusted_ok [of "fst (hd rest)" job] by (auto simp: times_ok_def)
  moreover have "t \<le> adjusted job (fst m)" if "abs_time = Some t" "m \<in> set rest" for t m
    using abs [OF that(1)] that(2) rest times adjusted_mono [of "fst (hd rest)" "fst m" job]
    by (cases rest) (auto simp: times_ok_def)
  ultimately have "pc_ok (planner_pump cur job)"
    using props(3) by (auto simp: pc_ok_def covered_def job' split: option.splits)
  moreover have "adjusted job t = t" if "\<not> delivery_time_adjustment job" for t using that by (simp add: adjusted_def)
  then have "deliveries_ok (planner_pump cur job)"
    using ok props(2) by (auto simp: planner_ok_def deliveries_ok_def job')
  ultimately show ?thesis using ok times rest by (auto simp: planner_ok_def times_ok_def job')
qed

lemma planner_ok_after_wait:
  assumes ok: "planner_ok job" and pc: "planner_pc job = P_Check d \<or> planner_pc job = P_Wait d" and "Time_ok wake_tm"
  shows "planner_ok (planner_after_wait d new_event wake_tm job)"
proof -
  have empty: "pending job = []" and d: "\<And>t. d = Some t \<Longrightarrow> Time_ok t" and times: "times_ok job"
    using ok pc by (auto simp: planner_ok_def pc_ok_def)
  have shift: "Time_ok s" if "d = Some t" "Time_div (Time_sub wake_tm t) 2 = Some s" for t s
    using Time_div_props [of "Time_sub wake_tm t" 2] that d assms(3) by (metis Time_sub_ok option.inject zero_neq_numeral)
  show ?thesis
    using ok empty times shift
    by (auto simp: planner_after_wait_def planner_ok_def pc_ok_def deliveries_ok_def times_ok_def split: option.splits)
qed

lemma planner_ok_step:
  assumes "planner_step job job'" and ok: "planner_ok job"
  shows "planner_ok job'"
  using assms(1)
proof cases
  case (ps_schedule time goal)
  then show ?thesis using planner_ok_schedule [OF ok] by blast
next
  case (ps_unschedule goal)
  then show ?thesis
    using planner_ok_fewer [OF ok, of "filter (\<lambda>m. snd m \<noteq> goal) (messages job)"] ok
    by (auto simp: Planner_unschedule_def planner_ok_def times_ok_def sorted_filter)
next
  case ps_clear
  then show ?thesis using planner_ok_fewer [OF ok, of "[]"] by (simp add: Planner_clear_def)
next
  case ps_terminate
  then show ?thesis
    using ok by (auto simp: planner_ok_defs Planner_terminate_def covered_def split: planner_pc.splits)
next
  case (ps_pump cur)
  then show ?thesis using planner_ok_pump [OF ok] by simp
next
  case (ps_check d wake_tm)
  then show ?thesis
    using planner_ok_after_wait [OF ok, of d wake_tm True] ok
    by (auto simp: planner_check_def planner_ok_defs covered_def split: option.splits)
next
  case (ps_wake d wake_tm signalled)
  then show ?thesis using planner_ok_after_wait [OF ok, of d wake_tm] by (simp add: planner_wake_def)
next
  case ps_deliver
  then show ?thesis using ok by (auto simp: planner_deliver_def planner_ok_defs split: list.splits)
qed

section \<open>Progress\<close>

definition thread_step :: "timeval \<Rightarrow> 'g PlannerJob \<Rightarrow> 'g PlannerJob \<Rightarrow> bool" where
  "thread_step now job job' \<longleftrightarrow> planner_thread now job = Some job'"

text \<open>No step of the thread loses or duplicates a message.\<close>

definition all_messages :: "'g PlannerJob \<Rightarrow> 'g message multiset" where
  "all_messages job = mset (map snd (deliveries job)) + mset (pending job) + mset (messages job)"

lemma all_messages_pump: "all_messages (planner_pump cur job) = all_messages job"
proof -
  obtain overdue rest abs_time where p: "pump job cur (messages job) = (overdue, rest, abs_time)" by (cases "pump job cur (messages job)")
  have "mset (messages job) = mset overdue + mset rest" by (simp add: pump_props(1) [OF p])
  then show ?thesis by (simp add: planner_pump_def p all_messages_def)
qed

lemma all_messages_thread: "thread_step now job job' \<Longrightarrow> all_messages job' = all_messages job"
  using all_messages_pump [of now job]
  by (auto simp: thread_step_def planner_thread_def planner_check_def planner_wake_def planner_after_wait_def planner_deliver_def
      all_messages_def split: planner_pc.splits if_splits option.splits list.splits)

lemma thread_step_planner: "thread_step now job job' \<Longrightarrow> Time_ok now \<Longrightarrow> planner_step job job'"
  unfolding thread_step_def planner_thread_def
  by (auto split: planner_pc.splits if_splits option.splits intro: planner_step.intros)

lemma deliver_all:
  assumes "planner_pc job = P_Deliver"
  shows "\<exists>job'. (thread_step now)\<^sup>*\<^sup>* job job' \<and> planner_pc job' = P_Loop \<and> pending job' = [] \<and>
    messages job' = messages job \<and> job_terminating job' = job_terminating job \<and>
    snd ` set (deliveries job') = snd ` set (deliveries job) \<union> set (pending job)"
  using assms
proof (induction "pending job" arbitrary: job)
  case Nil
  then have "thread_step now job (job\<lparr>planner_pc := P_Loop\<rparr>)"
    by (simp add: thread_step_def planner_thread_def planner_deliver_def split: list.split)
  then show ?case using Nil by (intro exI [of _ "job\<lparr>planner_pc := P_Loop\<rparr>"]) auto
next
  case (Cons m ms)
  let ?job = "job\<lparr>pending := ms, deliveries := deliveries job @ [(round_time job, m)]\<rparr>"
  have st: "thread_step now job ?job"
    using Cons.hyps(2) [symmetric] Cons.prems by (simp add: thread_step_def planner_thread_def planner_deliver_def)
  obtain job' where "(thread_step now)\<^sup>*\<^sup>* ?job job'" "planner_pc job' = P_Loop" "pending job' = []"
    "messages job' = messages job" "job_terminating job' = job_terminating job"
    "snd ` set (deliveries job') = snd ` set (deliveries ?job) \<union> set ms"
    using Cons.hyps(1) [of ?job] Cons.prems by auto
  then show ?case
    using converse_rtranclp_into_rtranclp [of "thread_step now", OF st] Cons.hyps(2) [symmetric]
    by (intro exI [of _ job']) auto
qed

text \<open>The head of the loop is reached again, unless the thread is to exit; no message is lost before it.\<close>

definition progress :: "timeval \<Rightarrow> 'g PlannerJob \<Rightarrow> 'g PlannerJob \<Rightarrow> bool" where
  "progress now job job' \<longleftrightarrow> (thread_step now)\<^sup>*\<^sup>* job job' \<and> job_terminating job' = job_terminating job \<and>
     (planner_pc job' = P_Exit \<and> job_terminating job \<or> planner_pc job' = P_Loop \<and> pending job' = [] \<and> messages job' = messages job) \<and>
     snd ` set (deliveries job) \<union> set (pending job) \<subseteq> snd ` set (deliveries job')"

lemma progress_step:
  assumes "thread_step now job job1" and "progress now job1 job'" and "job_terminating job1 = job_terminating job"
    and "messages job1 = messages job" and "snd ` set (deliveries job1) \<union> set (pending job1) = snd ` set (deliveries job) \<union> set (pending job)"
  shows "progress now job job'"
  using assms converse_rtranclp_into_rtranclp [of "thread_step now", OF assms(1)] by (auto simp: progress_def)

lemma progress_deliver: "planner_pc job = P_Deliver \<Longrightarrow> \<exists>job'. progress now job job'"
  using deliver_all [of job now] unfolding progress_def by fastforce

lemma progress_refl: "planner_pc job = P_Loop \<Longrightarrow> pending job = [] \<Longrightarrow> progress now job job"
  by (simp add: progress_def)

lemma progress_exit: "planner_pc job = P_Exit \<Longrightarrow> job_terminating job \<Longrightarrow> pending job = [] \<Longrightarrow> progress now job job"
  by (simp add: progress_def)

lemma progress_after_wait:
  assumes "pending job = []" and "thread_step now job (planner_after_wait d new_event wake_tm job)"
  shows "\<exists>job'. progress now job job'"
proof -
  let ?job = "planner_after_wait d new_event wake_tm job"
  have same: "job_terminating ?job = job_terminating job" "messages ?job = messages job" "deliveries ?job = deliveries job"
    "pending ?job = []" using assms(1) by (simp_all add: planner_after_wait_def)
  have "planner_pc ?job = P_Exit \<and> job_terminating job \<or> planner_pc ?job = P_Loop \<or> planner_pc ?job = P_Deliver"
    by (simp add: planner_after_wait_def)
  then obtain job' where "progress now ?job job'"
    using progress_deliver [of ?job now] progress_refl [of ?job now] progress_exit [of ?job now] same by auto
  then show ?thesis using progress_step [OF assms(2)] same assms(1) by fastforce
qed

text \<open>Something for the thread to do: it is to exit, a message is due, or messages wait to be delivered.\<close>

definition has_work :: "timeval \<Rightarrow> 'g PlannerJob \<Rightarrow> bool" where
  "has_work now job \<longleftrightarrow> job_terminating job \<or> (\<exists>m\<in>set (messages job). adjusted job (fst m) \<le> now) \<or> pending job \<noteq> []"

lemma wait_progress:
  assumes ok: "planner_ok job" and work: "has_work now job" and pc: "planner_pc job = P_Wait d"
  shows "\<exists>job'. progress now job job'"
proof -
  have empty: "pending job = []" and cov: "covered d job" and tm_flag: "job_terminating job \<longrightarrow> have_new_events job"
    using ok pc by (simp_all add: planner_ok_def pc_ok_def)
  have "\<exists>e. thread_step now job (planner_after_wait d e now job)"
  proof (cases "have_new_events job")
    case True
    then show ?thesis by (intro exI [of _ True]) (simp add: thread_step_def planner_thread_def pc planner_wake_def)
  next
    case False
    then obtain m where m: "m \<in> set (messages job)" "adjusted job (fst m) \<le> now"
      using work tm_flag empty by (auto simp: has_work_def)
    then obtain t where "d = Some t" "t \<le> now" using cov False by (auto simp: covered_def split: option.splits)
    then show ?thesis using False
      by (intro exI [of _ False]) (simp add: thread_step_def planner_thread_def pc planner_wake_def Time_le_less_eq)
  qed
  then show ?thesis using progress_after_wait [OF empty] by blast
qed

lemma thread_progress:
  assumes ok: "planner_ok job" and work: "has_work now job"
  shows "\<exists>job'. progress now job job'"
proof (cases "planner_pc job")
  case P_Loop
  then show ?thesis using ok progress_refl by (auto simp: planner_ok_def pc_ok_def)
next
  case (P_Check d)
  have empty: "pending job = []" and cov: "covered d job" using ok P_Check by (simp_all add: planner_ok_def pc_ok_def)
  show ?thesis
  proof (cases "have_new_events job")
    case True
    then have "thread_step now job (planner_after_wait d True now job)"
      by (simp add: thread_step_def planner_thread_def P_Check planner_check_def)
    then show ?thesis by (rule progress_after_wait [OF empty])
  next
    case False
    let ?job = "job\<lparr>planner_pc := P_Wait d\<rparr>"
    have st: "thread_step now job ?job" using False by (simp add: thread_step_def planner_thread_def P_Check planner_check_def)
    have "planner_ok ?job" using ok P_Check by (auto simp: planner_ok_defs covered_def split: option.splits)
    moreover have "has_work now ?job" using work by (simp add: has_work_def)
    ultimately obtain job' where "progress now ?job job'" using wait_progress [of ?job now d] by auto
    then show ?thesis using progress_step [OF st] by fastforce
  qed
next
  case (P_Wait d)
  then show ?thesis by (rule wait_progress [OF ok work])
next
  case P_Deliver
  then show ?thesis by (rule progress_deliver)
next
  case P_Exit
  then show ?thesis using ok progress_exit by (auto simp: planner_ok_def pc_ok_def)
qed

lemma pump_due:
  assumes "pump job cur ms = (overdue, rest, abs_time)" and "sorted (map fst ms)" and "m \<in> set ms" and "fst m \<le> cur"
    and "\<not> delivery_time_adjustment job"
  shows "m \<in> set overdue"
  using assms
proof (induction ms arbitrary: overdue rest abs_time)
  case (Cons m' ms)
  have "fst m' \<le> cur" using Cons.prems(2-4) by auto
  then show ?case using Cons by (auto simp: adjusted_def Time_le_less_eq split: prod.splits)
qed simp

text \<open>A due message is delivered by the thread alone.\<close>

lemma due_delivered:
  assumes ok: "planner_ok job" and "\<not> job_terminating job" and adj: "\<not> delivery_time_adjustment job"
    and m: "m \<in> set (messages job)" "fst m \<le> now" and now: "Time_ok now"
  shows "\<exists>job'. (thread_step now)\<^sup>*\<^sup>* job job' \<and> m \<in> snd ` set (deliveries job')"
proof -
  have "has_work now job" using m adj by (auto simp: has_work_def adjusted_def)
  then obtain job1 where p: "progress now job job1" using thread_progress [OF ok] by blast
  have run1: "(thread_step now)\<^sup>*\<^sup>* job job1" using p by (simp add: progress_def)
  then have ok1: "planner_ok job1 \<and> (\<not> delivery_time_adjustment job1)"
  proof (induction rule: rtranclp_induct)
    case (step y z)
    have "delivery_time_adjustment z = delivery_time_adjustment y"
      using step.hyps(2) by (auto simp: thread_step_def planner_thread_def planner_pump_def planner_check_def planner_wake_def
        planner_after_wait_def planner_deliver_def split: planner_pc.splits if_splits option.splits list.splits prod.splits)
    then show ?case using step planner_ok_step thread_step_planner [OF _ now] by blast
  qed (use ok adj in simp)
  have job1: "planner_pc job1 = P_Loop" "messages job1 = messages job" "\<not> job_terminating job1" "pending job1 = []"
    using p assms(2) by (auto simp: progress_def)
  obtain overdue rest abs_time where pm: "pump job1 now (messages job1) = (overdue, rest, abs_time)" by (cases "pump job1 now (messages job1)")
  let ?job2 = "planner_pump now job1"
  have "m \<in> set overdue"
    using pump_due [OF pm] ok1 job1(2) m by (simp add: planner_ok_def times_ok_def)
  then have job2: "planner_pc ?job2 = P_Deliver" "m \<in> set (pending ?job2)"
    using job1(3,4) by (auto simp: planner_pump_def pm)
  obtain job' where "(thread_step now)\<^sup>*\<^sup>* ?job2 job'" "m \<in> snd ` set (deliveries job')"
    using deliver_all [OF job2(1), of now] job2(2) by blast
  moreover have "thread_step now job1 ?job2" using job1(1) by (simp add: thread_step_def planner_thread_def)
  ultimately show ?thesis using run1 by (meson converse_rtranclp_into_rtranclp rtranclp_trans)
qed

lemma termination_exits:
  assumes ok: "planner_ok job" and tm_flag: "job_terminating job"
  shows "\<exists>job'. (thread_step now)\<^sup>*\<^sup>* job job' \<and> planner_pc job' = P_Exit \<and> set (pending job) \<subseteq> snd ` set (deliveries job')"
proof -
  obtain job1 where p: "progress now job job1" using thread_progress [OF ok] tm_flag by (auto simp: has_work_def)
  show ?thesis
  proof (cases "planner_pc job1 = P_Exit")
    case True
    then show ?thesis using p by (auto simp: progress_def)
  next
    case False
    then have "thread_step now job1 (job1\<lparr>planner_pc := P_Exit\<rparr>)"
      using p tm_flag by (auto simp: progress_def thread_step_def planner_thread_def planner_pump_def)
    then show ?thesis
      using p by (intro exI [of _ "job1\<lparr>planner_pc := P_Exit\<rparr>"]) (auto simp: progress_def)
  qed
qed

section \<open>Properties\<close>

lemma PlannerJob_new_ok: "planner_ok (PlannerJob_new adjustment)"
  by (simp add: planner_ok_defs PlannerJob_new_def)

lemma planner_reach_ok: "planner_step\<^sup>*\<^sup>* job job' \<Longrightarrow> planner_ok job \<Longrightarrow> planner_ok job'"
  by (induction rule: rtranclp_induct) (auto intro: planner_ok_step)

text \<open>
  (C3) Safety of the planner under all interleavings of scheduling, unscheduling, clearing, termination and
  its thread: the queue is ordered by time; without the time adjustment no message is delivered
  before its time; no step of the thread loses or duplicates a message; and the thread never waits
  beyond the time of a message in the queue unless a new event was signalled to it.
\<close>
theorem Planner_safe:
  assumes "planner_step\<^sup>*\<^sup>* (PlannerJob_new adjustment) job"
  shows "sorted (map fst (messages job)) \<and>
    (\<not> delivery_time_adjustment job \<longrightarrow> (\<forall>(cur_time, m)\<in>set (deliveries job). fst m \<le> cur_time)) \<and>
    (\<forall>job'. planner_thread now job = Some job' \<longrightarrow> all_messages job' = all_messages job) \<and>
    (planner_pc job = P_Wait None \<longrightarrow> have_new_events job \<or> messages job = []) \<and>
    (planner_pc job = P_Wait (Some t) \<longrightarrow> have_new_events job \<or> (\<forall>m\<in>set (messages job). t \<le> adjusted job (fst m)))"
proof -
  have ok: "planner_ok job" by (rule planner_reach_ok [OF assms PlannerJob_new_ok])
  then have "\<forall>(cur_time, m)\<in>set (deliveries job). fst m \<le> cur_time" if "\<not> delivery_time_adjustment job"
    using that by (simp add: planner_ok_def deliveries_ok_def)
  moreover have "all_messages job' = all_messages job" if "planner_thread now job = Some job'" for job'
    using all_messages_thread [of now job job'] that by (simp add: thread_step_def)
  moreover have "covered d job" if "planner_pc job = P_Wait d" for d
    using ok that by (simp add: planner_ok_def pc_ok_def)
  note this [of None] this [of "Some t"]
  moreover have "sorted (map fst (messages job))" using ok by (simp add: planner_ok_def times_ok_def)
  ultimately show ?thesis unfolding covered_def option.case by blast
qed

text \<open>A planner with one message.\<close>

abbreviation planner_example :: "nat PlannerJob" where
  "planner_example \<equiv> \<lparr>have_new_events = True, messages = [(Time_mk 5 0, 1)], delivery_time_adjustment = False,
     delivery_time_shift = Time_ZERO, job_terminating = False, pending = [], round_time = Time_ZERO,
     planner_pc = P_Loop, deliveries = []\<rparr>"

lemma planner_example_reach: "planner_step\<^sup>*\<^sup>* (PlannerJob_new False) planner_example"
proof -
  have "planner_step (PlannerJob_new False) planner_example"
    by (rule ps_schedule [where time = "Time_mk 5 0" and goal = 1])
      (simp_all add: Planner_schedule_def PlannerJob_new_def insert_message_def Time_gt_def Time_lt_def Time_ZERO_def Time_eq_def)
  then show ?thesis by blast
qed

theorem Planner_safe_witness:
  "planner_step\<^sup>*\<^sup>* (PlannerJob_new False) planner_example \<and> sorted (map fst (messages planner_example))"
  using planner_example_reach Planner_safe [OF planner_example_reach] by blast

text \<open>
  (C8) Liveness of the planner: in every reachable state, a queued message that is due is delivered by finitely
  many steps of the thread alone (without the time adjustment), whatever the thread is doing; and
  once termination was requested, finitely many steps of the thread deliver what it has already taken
  from the queue and end it.
\<close>
theorem Planner_progress:
  assumes "planner_step\<^sup>*\<^sup>* (PlannerJob_new adjustment) job" and "Time_ok now"
  shows "(\<not> job_terminating job \<and> \<not> delivery_time_adjustment job \<and> m \<in> set (messages job) \<and> fst m \<le> now \<longrightarrow>
      (\<exists>job'. (\<lambda>a b. planner_thread now a = Some b)\<^sup>*\<^sup>* job job' \<and> m \<in> snd ` set (deliveries job'))) \<and>
    (job_terminating job \<longrightarrow>
      (\<exists>job'. (\<lambda>a b. planner_thread now a = Some b)\<^sup>*\<^sup>* job job' \<and> planner_pc job' = P_Exit \<and>
         set (pending job) \<subseteq> snd ` set (deliveries job')))"
proof -
  have ok: "planner_ok job" by (rule planner_reach_ok [OF assms(1) PlannerJob_new_ok])
  have eq: "thread_step now = (\<lambda>a b. planner_thread now a = Some b)" by (simp add: fun_eq_iff thread_step_def)
  show ?thesis
    using due_delivered [OF ok _ _ _ _ assms(2), of m] termination_exits [OF ok, of now] unfolding eq by blast
qed

theorem Planner_progress_witness:
  "\<exists>job'. (\<lambda>a b. planner_thread (Time_mk 6 0) a = Some b)\<^sup>*\<^sup>* planner_example job' \<and> (Time_mk 5 0, 1) \<in> snd ` set (deliveries job')"
  using Planner_progress [OF planner_example_reach, of "Time_mk 6 0" "(Time_mk 5 0, 1)"]
  by (simp add: Time_le_less_eq [symmetric] Time_le_def Time_lt_def USEC_MAX_def)

end
