(* ===== verification/Spec2Isabelle.thy ===== *)
theory Spec2Isabelle
  imports Time_Format Text_Codes Punycode Simple_Decimal Bounded_Map Compressed_Set Task_Runner Planner
begin

text \<open>
  A verification library for the core of \<^verbatim>\<open>unixcommons\<close>, a C++ foundation library. The sources are
  under src/src: \<^verbatim>\<open>Generics\<close> (time, decimal numbers, containers, threads), \<^verbatim>\<open>String\<close> (views, encodings,
  text) and \<^verbatim>\<open>Sync\<close> (locks, semaphores). Everything else in the repository builds on these.

  \<^bold>\<open>How the parts interact.\<close> Times are the ground: the bounded map stamps its entries with them, the
  planner orders its messages by them, and their text formats use the integer and character routines
  of \<^verbatim>\<open>String\<close>. The text codes use the character tables and the UTF-8 conversions. The thread runner
  starts its threads behind a semaphore; the active objects are state machines with a lock and a
  condition; the task runner and the planner are active objects that run their jobs on a thread
  runner.

  \<^bold>\<open>The theories.\<close>
  \<^item> \<^verbatim>\<open>Prelude\<close>: results with errors, C++ division, 64-bit sizes, decimal digits and their text, the
    locale \<^verbatim>\<open>codec\<close> of an encoder and its decoder, and the locales \<^verbatim>\<open>runs\<close> and \<^verbatim>\<open>simulation\<close> of sequences
    of operations with an invariant and an abstract specification.
  \<^item> \<^verbatim>\<open>Time_Arith\<close>: \<^verbatim>\<open>Time\<close> of Generics/Time.hpp, a pair of seconds and microseconds; arithmetic,
    comparison, packing, hashing, the timers. The locale \<^verbatim>\<open>time_measure\<close> carries the laws of exact
    microseconds.
  \<^item> \<^verbatim>\<open>Calendar\<close>: \<^verbatim>\<open>gm_to_time\<close>, \<^verbatim>\<open>time_to_gm\<close> and \<^verbatim>\<open>ExtendedTime\<close> of Generics/Time.cpp and Time.hpp,
    against a day count of the Gregorian calendar; \<^verbatim>\<open>mktime\<close> and \<^verbatim>\<open>localtime_r\<close> are parameters.
  \<^item> \<^verbatim>\<open>Ascii\<close>: tables, case, searches and flattening of String/AsciiStringManip, \<^verbatim>\<open>int_to_str\<close> and
    \<^verbatim>\<open>str_to_int\<close> of String/StringManip.tpp for every width.
  \<^item> \<^verbatim>\<open>Time_Format\<close>: the format language of times, written and parsed (Generics/Time.cpp), with the
    bounds of the buffers; \<^verbatim>\<open>printf\<close> and \<^verbatim>\<open>scanf\<close> are modelled for the conversions that are used.
  \<^item> \<^verbatim>\<open>Utf8\<close>: String/UTF8Handler.hpp and the conversions of String/StringManip; the reference is the
    encoding of scalar values in parts of six bits.
  \<^item> \<^verbatim>\<open>Text_Codes\<close>: base64 in two alphabets (locale \<^verbatim>\<open>sextet_alphabet\<close>), URL encoding and hexadecimal
    text of String/StringManip.cpp.
  \<^item> \<^verbatim>\<open>Sub_String\<close>: comparison, parts and searches of String/SubString.tpp and SubStringFind.tpp.
  \<^item> \<^verbatim>\<open>Punycode\<close>: the codes of international host names of String/StringManip.cpp; the decoder is shown
    to follow the encoder, insertion by insertion.
  \<^item> \<^verbatim>\<open>Simple_Decimal\<close>: Generics/SimpleDecimal.tpp and CommonDecimal.hpp; numbers are a sign and an
    unsigned magnitude of the base type, and every operation is compared with exact arithmetic.
  \<^item> \<^verbatim>\<open>Bounded_Map\<close>: Generics/BoundedMap.hpp; the container and the usage queue refine a map of keys to
    data and time of last use.
  \<^item> \<^verbatim>\<open>Compressed_Set\<close>: Generics/CompressedSet.hpp; the ordered map of intervals with its cached
    iterator refines a set of integers (locale \<^verbatim>\<open>interval_op\<close>).
  \<^item> \<^verbatim>\<open>Thread_Runner\<close>: Sync/Semaphore.hpp and Generics/ThreadRunner.cpp as a step relation of the runner
    and its threads.
  \<^item> \<^verbatim>\<open>Active_Object\<close>: Generics/ActiveObject.cpp and CompositeActiveObject.hpp (locale \<^verbatim>\<open>active_object\<close>
    for the contract of the life cycle, which both implementations meet).
  \<^item> \<^verbatim>\<open>Task_Runner\<close>: Generics/TaskRunner.cpp; workers, producers and the growth of the pool as steps.
  \<^item> \<^verbatim>\<open>Planner\<close>: Generics/Scheduler.cpp; the delivery thread and its callers as steps.

  \<^bold>\<open>What the lemmas show.\<close> Per data type: an invariant that every operation keeps, and the functional
  behaviour on every branch, errors included. Round trips of every text and binary form. Refinement
  of the two containers. For the threads: invariants over all interleavings by rule induction, and
  progress by measures. Where the code does not do what it means to, a theorem states what it does.

  \<^bold>\<open>State and errors.\<close> A section under a lock is one step, since no other thread sees its middle.
  Exceptions are values of sum types, blocking is a missing result, and a read outside a buffer is
  \<open>None\<close> where the code can reach one. Machine integers are numbers with their wrap-around written out
  wherever the code can exceed their range.

  \<^bold>\<open>Bounds.\<close> The properties of the bounded map assume sizes and capacities below 2^63, since the code
  adds two of them in 64 bits; those of the task runner assume that the numbers of threads and of
  queued tasks fit its counters of 32 bits. The calendar is the Gregorian one from 1970 to 2099 only,
  and a theorem shows the deviation in 2100. There is no fuel: every loop is a terminating function.

  \<^bold>\<open>Not modelled.\<close> Floating point; memory management and reference counting (objects live as long as
  they are used); the generated Unicode tables and what is computed from them; streams, files,
  sockets, processes and everything over foreign frameworks (CORBA, SNMP, JNI, Xerces, userver), which
  have no contract of their own in these sources; the multi-word \<^verbatim>\<open>Decimal\<close>, whose operations are those
  of the modelled \<^verbatim>\<open>SimpleDecimal\<close>; the thread pools \<^verbatim>\<open>TaskPool\<close> and \<^verbatim>\<open>Periodic\<close>; random numbers, hash
  functions and checksums.
\<close>

end
